(* ===== verification/Dimos_Prelude.thy ===== *)
theory Dimos_Prelude
  imports Main "HOL-Library.Word" "HOL-Library.Signed_Division"
begin

text \<open>
  Shared vocabulary of the development: the fixed-width integers of the C++ sources, the
  way counted loops are written, and the lemmas on words, lists and counted sets that the
  component theories use. Nothing here models a particular source file.
\<close>

unbundle bit_operations_syntax

section \<open>Machine integers\<close>

type_synonym u8 = "8 word"
type_synonym u16 = "16 word"
type_synonym u32 = "32 word"
type_synonym u64 = "64 word"

text \<open>
  A signed C++ integer whose values stay far below its width is an \<^typ>\<open>int\<close>; its division
  is the truncating one of C++ (\<^term>\<open>(sdiv)\<close> of \<open>Signed_Division\<close>).
\<close>

named_theorems bit_simps64 \<open>reading single bits of updated 64-bit words\<close>
named_theorems pmm_defs \<open>definitions of the physical memory manager\<close>
named_theorems vec_simps \<open>effect of the Vector operations on the represented list\<close>

section \<open>Bits of a 64-bit word\<close>

text \<open>A shifted one is \<open>2 ^ n\<close> after simplification (\<open>push_bit_of_1\<close>); the lemmas use that form.\<close>

lemma test_bit_mask [bit_simps64]:
  fixes w :: u64
  assumes "n < 64"
  shows "(w AND 2 ^ n = 0) \<longleftrightarrow> \<not> bit w n"
  using assms by (simp add: and_exp_eq_0_iff_not_bit)

lemma bit_or_mask [bit_simps64]:
  fixes w :: u64
  assumes "n < 64" "k < 64"
  shows "bit (w OR 2 ^ n) k \<longleftrightarrow> bit w k \<or> k = n"
  using assms by (auto simp: bit_simps)

lemma bit_and_not_mask [bit_simps64]:
  fixes w :: u64
  assumes "n < 64" "k < 64"
  shows "bit (w AND NOT (2 ^ n)) k \<longleftrightarrow> bit w k \<and> k \<noteq> n"
  using assms by (auto simp: bit_simps)

lemma all_ones_iff:
  fixes w :: u64
  shows "w = 0xffffffffffffffff \<longleftrightarrow> (\<forall>k<64. bit w k)"
proof -
  have e: "(0xffffffffffffffff :: u64) = - 1" by simp
  have "w = - 1 \<longleftrightarrow> (\<forall>k<64. bit w k)"
    by (auto simp: bit_eq_iff dest: bit_imp_le_length)
  then show ?thesis using e by metis
qed

section \<open>Counting over integer ranges\<close>

text \<open>How a counter changes when one element of a finite range changes its status.\<close>

lemma card_int_range_insert:
  fixes n :: int
  assumes "0 \<le> f" "f < n" "\<not> P f"
  shows "card {x. 0 \<le> x \<and> x < n \<and> (P x \<or> x = f)} = Suc (card {x. 0 \<le> x \<and> x < n \<and> P x})"
proof -
  have "{x. 0 \<le> x \<and> x < n \<and> (P x \<or> x = f)} = insert f {x. 0 \<le> x \<and> x < n \<and> P x}"
    using assms by auto
  moreover have "finite {x. 0 \<le> x \<and> x < n \<and> P x}"
    by (rule finite_subset [of _ "{0..n}"]) auto
  ultimately show ?thesis using assms by simp
qed

lemma card_int_range_remove:
  fixes n :: int
  assumes "0 \<le> f" "f < n" "P f"
  shows "card {x. 0 \<le> x \<and> x < n \<and> P x} = Suc (card {x. 0 \<le> x \<and> x < n \<and> P x \<and> x \<noteq> f})"
proof -
  have "{x. 0 \<le> x \<and> x < n \<and> P x} = insert f {x. 0 \<le> x \<and> x < n \<and> P x \<and> x \<noteq> f}"
    using assms by auto
  moreover have "finite {x. 0 \<le> x \<and> x < n \<and> P x \<and> x \<noteq> f}"
    by (rule finite_subset [of _ "{0..n}"]) auto
  ultimately show ?thesis by simp
qed

lemma finite_int_range [simp]: "finite {x :: int. 0 \<le> x \<and> x < n \<and> P x}"
  by (rule finite_subset [of _ "{0..n}"]) auto

lemma card_int_range_le: "0 \<le> n \<Longrightarrow> int (card {x :: int. 0 \<le> x \<and> x < n \<and> P x}) \<le> n"
proof -
  assume n: "0 \<le> n"
  have "card {x :: int. 0 \<le> x \<and> x < n \<and> P x} \<le> card {0..<n}"
    by (rule card_mono) auto
  then show ?thesis using n by simp
qed

lemma card_int_range_full:
  assumes "0 \<le> (n :: int)" "int (card {x. 0 \<le> x \<and> x < n \<and> P x}) = n" "0 \<le> f" "f < n"
  shows "P f"
proof (rule ccontr)
  assume "\<not> P f"
  then have "Suc (card {x. 0 \<le> x \<and> x < n \<and> P x}) = card {x. 0 \<le> x \<and> x < n \<and> (P x \<or> x = f)}"
    using card_int_range_insert [of f n P] assms by simp
  also have "int \<dots> \<le> n" using assms(1) by (rule card_int_range_le)
  finally show False using assms(2) by simp
qed

section \<open>Sliding windows\<close>

lemma sum_slide:
  fixes g :: "int \<Rightarrow> int"
  assumes "0 < n"
  shows "sum g {s + 1..<s + 1 + n} = sum g {s..<s + n} + g (s + n) - g s"
proof -
  have a: "{s..<s + 1 + n} = insert s {s + 1..<s + 1 + n}"
    and b: "{s..<s + 1 + n} = insert (s + n) {s..<s + n}" using assms by auto
  have "sum g {s..<s + 1 + n} = g s + sum g {s + 1..<s + 1 + n}" unfolding a by simp
  moreover have "sum g {s..<s + 1 + n} = g (s + n) + sum g {s..<s + n}" unfolding b by simp
  ultimately show ?thesis by simp
qed

lemma sum_clear_full:
  fixes n :: int
  assumes "0 \<le> n"
  shows "(\<Sum>f\<in>{s..<s + n}. if Q f then 0 else 1) = n \<longleftrightarrow> (\<forall>f. s \<le> f \<and> f < s + n \<longrightarrow> \<not> Q f)"
proof -
  have "(\<Sum>f\<in>{s..<s + n}. if Q f then 0 else 1) + (\<Sum>f\<in>{s..<s + n}. if Q f then 1 else 0 :: int)
      = (\<Sum>f\<in>{s..<s + n}. 1)"
    unfolding sum.distrib [symmetric] by (rule sum.cong) auto
  also have "\<dots> = n" using assms by simp
  finally have "(\<Sum>f\<in>{s..<s + n}. if Q f then 0 else 1) = n \<longleftrightarrow>
      (\<Sum>f\<in>{s..<s + n}. if Q f then 1 else 0 :: int) = 0" by linarith
  also have "\<dots> \<longleftrightarrow> (\<forall>f\<in>{s..<s + n}. (if Q f then 1 else 0 :: int) = 0)"
    by (rule sum_nonneg_eq_0_iff) auto
  also have "\<dots> \<longleftrightarrow> (\<forall>f. s \<le> f \<and> f < s + n \<longrightarrow> \<not> Q f)" by auto
  finally show ?thesis .
qed

section \<open>Counted loops over arrays\<close>

text \<open>
  A counted loop \<open>for (i = a; i < b; i++)\<close> over an array is a \<^const>\<open>fold\<close> over \<open>[a..<b]\<close>;
  \<open>swap\<close> is the element exchange of \<open>utility.hpp\<close>.
\<close>

definition swap_at :: "nat \<Rightarrow> nat \<Rightarrow> 'a list \<Rightarrow> 'a list" where
  "swap_at i j xs = xs[i := xs ! j, j := xs ! i]"

lemma length_swap_at [simp]: "length (swap_at i j xs) = length xs"
  by (simp add: swap_at_def)

lemma nth_swap_at:
  "i < length xs \<Longrightarrow> j < length xs \<Longrightarrow>
    swap_at i j xs ! k = (if k = j then xs ! i else if k = i then xs ! j else xs ! k)"
  by (simp add: swap_at_def nth_list_update)

lemma set_swap_at: "i < length xs \<Longrightarrow> j < length xs \<Longrightarrow> set (swap_at i j xs) = set xs"
  by (simp add: swap_at_def set_swap)

lemma fold_copy:
  assumes "n \<le> length xs" "n \<le> length ys"
  shows "fold (\<lambda>i a. a[i := xs ! i]) [0..<n] ys = take n xs @ drop n ys"
  using assms
proof (induction n)
  case (Suc n)
  then have "fold (\<lambda>i a. a[i := xs ! i]) [0..<Suc n] ys = (take n xs @ drop n ys)[n := xs ! n]"
    by simp
  also have "\<dots> = take (Suc n) xs @ drop (Suc n) ys"
    using Suc.prems by (simp add: list_update_append take_Suc_conv_app_nth Cons_nth_drop_Suc [symmetric])
  finally show ?case .
qed simp

lemma fold_fill:
  assumes "a \<le> b" "b \<le> length ys"
  shows "fold (\<lambda>i xs. xs[i := d]) [a..<b] ys = take a ys @ replicate (b - a) d @ drop b ys"
  using assms
proof (induction b rule: dec_induct)
  case (step n)
  then have "fold (\<lambda>i xs. xs[i := d]) [a..<Suc n] ys = (take a ys @ replicate (n - a) d @ drop n ys)[n := d]"
    by simp
  also have "\<dots> = take a ys @ replicate (Suc n - a) d @ drop (Suc n) ys"
    using step by (simp add: list_update_append Cons_nth_drop_Suc [symmetric] Suc_diff_le replicate_append_same)
  finally show ?case .
qed simp

lemma length_fold_swap [simp]: "length (fold (\<lambda>i. swap_at i (n - Suc i)) is xs) = length xs"
  by (induction "is" arbitrary: xs) simp_all

lemma fold_reverse_nth:
  assumes "n \<le> length xs" "k \<le> n div 2" "j < length xs"
  shows "fold (\<lambda>i. swap_at i (n - Suc i)) [0..<k] xs ! j =
    (if j < k \<or> n - k \<le> j \<and> j < n then xs ! (n - Suc j) else xs ! j)"
  using assms
proof (induction k arbitrary: j)
  case (Suc k)
  define ys where "ys = fold (\<lambda>i. swap_at i (n - Suc i)) [0..<k] xs"
  have b: "n - Suc k < length ys" "k < length ys" "length ys = length xs"
    using Suc.prems by (auto simp: ys_def)
  have IH: "ys ! i = (if i < k \<or> n - k \<le> i \<and> i < n then xs ! (n - Suc i) else xs ! i)"
    if "i < length xs" for i
    using Suc that by (simp add: ys_def)
  have "fold (\<lambda>i. swap_at i (n - Suc i)) [0..<Suc k] xs ! j = swap_at k (n - Suc k) ys ! j"
    by (simp add: ys_def)
  also have "\<dots> = (if j = n - Suc k then xs ! k else if j = k then xs ! (n - Suc k) else ys ! j)"
    using b IH [of k] IH [of "n - Suc k"] Suc.prems by (auto simp: nth_swap_at)
  also have "\<dots> = (if j < Suc k \<or> n - Suc k \<le> j \<and> j < n then xs ! (n - Suc j) else xs ! j)"
    using Suc.prems by (auto simp: IH)
  finally show ?case .
qed auto

lemma fold_reverse:
  assumes "n \<le> length xs"
  shows "fold (\<lambda>i. swap_at i (n - Suc i)) [0..<n div 2] xs = rev (take n xs) @ drop n xs"
proof (rule nth_equalityI)
  show "length (fold (\<lambda>i. swap_at i (n - Suc i)) [0..<n div 2] xs) = length (rev (take n xs) @ drop n xs)"
    using assms by simp
  fix j
  assume "j < length (fold (\<lambda>i. swap_at i (n - Suc i)) [0..<n div 2] xs)"
  then have j: "j < length xs" by simp
  have mid: "n - Suc j = j" if "\<not> j < n div 2" "\<not> n - n div 2 \<le> j" using that by linarith
  show "fold (\<lambda>i. swap_at i (n - Suc i)) [0..<n div 2] xs ! j = (rev (take n xs) @ drop n xs) ! j"
    unfolding fold_reverse_nth [OF assms order_refl j]
    using assms j mid by (auto simp: nth_append rev_nth)
qed

lemma sint_u32_small: "unat (x :: u32) < 2 ^ 31 \<Longrightarrow> sint x = int (unat x)"
proof -
  assume "unat x < 2 ^ 31"
  then have x: "unat x < 2147483648" by simp
  have "sint (of_nat (unat x) :: u32) = signed_take_bit 31 (int (unat x))" by (simp only: signed_of_nat) simp
  also have "\<dots> = int (unat x)"
  proof (rule signed_take_bit_int_eq_self)
    have "int (unat x) < 2147483648" using x by linarith
    then show "int (unat x) < 2 ^ 31" by simp
    show "- (2 ^ 31) \<le> int (unat x)" using order_trans [of "- (2 ^ 31)" 0 "int (unat x)"] by simp
  qed
  finally show ?thesis by simp
qed

end
