(* ===== verification/Phys_Mem.thy ===== *)
theory Phys_Mem
  imports Dimos_Prelude
begin

text \<open>
  The physical memory manager (\<open>kernel/include/kernel/memory/pmm.h\<close>,
  \<open>kernel/kernel/memory/pmm.cpp\<close>): one bit per 4 KiB frame, a set bit is a frame in use.
  \<open>int64_t\<close> frame numbers are \<^typ>\<open>int\<close> (they stay below \<open>2\<^sup>5\<^sup>2\<close>), addresses and sizes are
  \<^typ>\<open>u64\<close> with their wrap-around. The bitmap is the raw array behind the C++ pointer: a
  function from element indices to 64-bit words, defined outside the array too, so that a
  theorem can say which elements an operation touches.
\<close>

section \<open>Data\<close>

record MemRange =
  mr_start :: u64
  mr_size :: u64

record PhysicalMemMap =
  totalSize :: u64
  availableMemArr :: "MemRange list"
  availMemArrCnt :: u64
  kernelStart :: u64
  kernelSize :: u64

record PMM =
  memorySize :: u64
  usedframes :: int
  frameCnt :: int
  bitmap :: u64
  bitmapWords :: "int \<Rightarrow> u64"

datatype pmm_error = PmmPanic string | PmmOutOfBounds | PmmUninitialised

abbreviation (input) framesPerElement :: int where "framesPerElement \<equiv> 64"
abbreviation (input) elementSize :: int where "elementSize \<equiv> 8"
abbreviation (input) frameSize :: int where "frameSize \<equiv> 4096"

definition emptyPMM :: PMM where
  "emptyPMM = \<lparr>memorySize = 0, usedframes = 0, frameCnt = 0, bitmap = 0, bitmapWords = (\<lambda>_. 0)\<rparr>"

section \<open>Bitmap primitives\<close>

definition bitmapSet :: "int \<Rightarrow> PMM \<Rightarrow> PMM" where
  "bitmapSet b p =
     p\<lparr>bitmapWords := (bitmapWords p)(b div framesPerElement :=
         bitmapWords p (b div framesPerElement) OR push_bit (nat (b mod framesPerElement)) 1)\<rparr>"

definition bitmapUnset :: "int \<Rightarrow> PMM \<Rightarrow> PMM" where
  "bitmapUnset b p =
     p\<lparr>bitmapWords := (bitmapWords p)(b div framesPerElement :=
         bitmapWords p (b div framesPerElement) AND NOT (push_bit (nat (b mod framesPerElement)) 1))\<rparr>"

definition bitmapIsSet :: "PMM \<Rightarrow> int \<Rightarrow> bool" where
  "bitmapIsSet p b \<longleftrightarrow>
     bitmapWords p (b div framesPerElement) AND push_bit (nat (b mod framesPerElement)) 1 \<noteq> 0"

definition elementCnt :: "PMM \<Rightarrow> int" where
  "elementCnt p = (frameCnt p + framesPerElement - 1) sdiv framesPerElement"

section \<open>Searching for free frames\<close>

text \<open>The inner loop of \<open>firstFreeFrame\<close>: the first clear bit of one element.\<close>

definition firstClearBit :: "u64 \<Rightarrow> nat option" where
  "firstClearBit w = find (\<lambda>j. w AND push_bit j 1 = 0) [0..<64]"

fun firstFreeFrameFrom :: "(int \<Rightarrow> u64) \<Rightarrow> nat list \<Rightarrow> int" where
  "firstFreeFrameFrom ws [] = - 1"
| "firstFreeFrameFrom ws (i # is) =
     (if ws (int i) = 0xffffffffffffffff then firstFreeFrameFrom ws is
      else case firstClearBit (ws (int i)) of
        Some j \<Rightarrow> int i * framesPerElement + int j
      | None \<Rightarrow> firstFreeFrameFrom ws is)"

definition firstFreeFrame :: "PMM \<Rightarrow> int" where
  "firstFreeFrame p = firstFreeFrameFrom (bitmapWords p) [0..<nat (elementCnt p)]"

text \<open>The first loop of \<open>firstNFreeFrames\<close> counts the clear bits of the first window.\<close>

fun countFree :: "PMM \<Rightarrow> nat \<Rightarrow> int" where
  "countFree p 0 = 0"
| "countFree p (Suc k) = countFree p k + (if bitmapIsSet p (int k) then 0 else 1)"

text \<open>The second loop slides the window; \<open>free\<close> counts the clear bits of \<open>[i - n, i)\<close>.\<close>

function slideWindow :: "PMM \<Rightarrow> int \<Rightarrow> int \<Rightarrow> int \<Rightarrow> int" where
  "slideWindow p n i free =
     (if i < elementCnt p * framesPerElement then
        if free = n then i - n
        else slideWindow p n (i + 1)
               (free + (if bitmapIsSet p i then 0 else 1) - (if bitmapIsSet p (i - n) then 0 else 1))
      else if free = n then i - n else - 1)"
  by pat_completeness auto
termination
  by (relation "measure (\<lambda>(p, n, i, free). nat (elementCnt p * framesPerElement - i))") auto

declare slideWindow.simps [simp del]

definition firstNFreeFrames :: "PMM \<Rightarrow> int \<Rightarrow> int" where
  "firstNFreeFrames p n =
     (if n > elementCnt p then - 1
      else slideWindow p n (max 0 n) (countFree p (nat n)))"

section \<open>Allocation and release\<close>

definition allocFrame :: "PMM \<Rightarrow> u64 \<times> PMM" where
  "allocFrame p =
     (if usedframes p = frameCnt p then (0, p)
      else let frame = firstFreeFrame p in
        if frame = - 1 then (0, p)
        else let p1 = bitmapSet frame p;
                 p2 = p1\<lparr>usedframes := usedframes p1 + 1\<rparr>
             in (word_of_int (frame * frameSize), p2))"

fun markFrames :: "int \<Rightarrow> nat \<Rightarrow> PMM \<Rightarrow> PMM" where
  "markFrames frame 0 p = p"
| "markFrames frame (Suc k) p =
     (let p1 = markFrames frame k p;
          p2 = bitmapSet (frame + int k) p1
      in p2\<lparr>usedframes := usedframes p2 + 1\<rparr>)"

definition allocNFrames :: "int \<Rightarrow> PMM \<Rightarrow> u64 \<times> PMM" where
  "allocNFrames n p =
     (if usedframes p + n \<ge> frameCnt p then (0, p)
      else let frame = firstNFreeFrames p n in
        if frame = - 1 then (0, p)
        else (word_of_int (frame * frameSize), markFrames frame (nat n) p))"

definition freeFrame :: "u64 \<Rightarrow> PMM \<Rightarrow> PMM" where
  "freeFrame addr p =
     (let frame = uint (addr div word_of_int frameSize) in
      if \<not> bitmapIsSet p frame then p
      else let p1 = bitmapUnset frame p in p1\<lparr>usedframes := usedframes p1 - 1\<rparr>)"

section \<open>Regions and initialisation\<close>

definition regionFirst :: "u64 \<Rightarrow> int" where
  "regionFirst start = uint ((start + word_of_int frameSize - 1) div word_of_int frameSize)"

definition regionCnt :: "u64 \<Rightarrow> u64 \<Rightarrow> int" where
  "regionCnt start sz =
     (let remSize = sint (sz - (word_of_int (regionFirst start * frameSize) - start))
      in (remSize + frameSize - 1) sdiv frameSize)"

fun initFrames :: "nat \<Rightarrow> int \<Rightarrow> PMM \<Rightarrow> PMM" where
  "initFrames 0 f p = p"
| "initFrames (Suc cnt) f p =
     (let wasSet = bitmapIsSet p f;
          p1 = bitmapUnset f p
      in initFrames cnt (f + 1) (if wasSet then p1\<lparr>usedframes := usedframes p1 - 1\<rparr> else p1))"

fun deinitFrames :: "nat \<Rightarrow> int \<Rightarrow> PMM \<Rightarrow> PMM" where
  "deinitFrames 0 f p = p"
| "deinitFrames (Suc cnt) f p =
     (let wasUnset = \<not> bitmapIsSet p f;
          p1 = bitmapSet f p
      in deinitFrames cnt (f + 1) (if wasUnset then p1\<lparr>usedframes := usedframes p1 + 1\<rparr> else p1))"

definition initRegion :: "u64 \<Rightarrow> u64 \<Rightarrow> PMM \<Rightarrow> PMM" where
  "initRegion start sz p = initFrames (nat (regionCnt start sz)) (regionFirst start) p"

definition deinitRegion :: "u64 \<Rightarrow> u64 \<Rightarrow> PMM \<Rightarrow> PMM" where
  "deinitRegion start sz p = deinitFrames (nat (regionCnt start sz)) (regionFirst start) p"

text \<open>
  \<open>init\<close> looks for room for the bitmap in the first two available ranges only; reading past
  the array of ranges is \<^const>\<open>PmmOutOfBounds\<close>. The argument \<open>raw\<close> gives the words that
  memory holds at a virtual address before the bitmap is written there, \<open>hhdm\<close> is the
  global \<open>HHDMOffset\<close>.
\<close>

fun findBitmapRange :: "u64 \<Rightarrow> MemRange list \<Rightarrow> nat list \<Rightarrow> pmm_error + MemRange option" where
  "findBitmapRange req arr [] = Inr None"
| "findBitmapRange req arr (i # is) =
     (if length arr \<le> i then Inl PmmOutOfBounds
      else if mr_size (arr ! i) \<ge> req then Inr (Some \<lparr>mr_start = mr_start (arr ! i), mr_size = req\<rparr>)
      else findBitmapRange req arr is)"

fun initRegions :: "MemRange list \<Rightarrow> nat list \<Rightarrow> PMM \<Rightarrow> pmm_error + PMM" where
  "initRegions arr [] p = Inr p"
| "initRegions arr (i # is) p =
     (if length arr \<le> i then Inl PmmOutOfBounds
      else initRegions arr is (initRegion (mr_start (arr ! i)) (mr_size (arr ! i)) p))"

definition pmm_init ::
  "(u64 \<Rightarrow> int \<Rightarrow> u64) \<Rightarrow> u64 \<Rightarrow> PhysicalMemMap \<Rightarrow> PMM \<Rightarrow> pmm_error + (MemRange \<times> PMM)" where
  "pmm_init raw hhdm mem p =
     (let p0 = p\<lparr>memorySize := totalSize mem,
                 frameCnt := uint (totalSize mem div word_of_int frameSize)\<rparr>;
          req = word_of_int (elementCnt p0 * elementSize) :: u64
      in case findBitmapRange req (availableMemArr mem) [0, 1] of
        Inl e \<Rightarrow> Inl e
      | Inr found \<Rightarrow>
          (let p1 = (case found of None \<Rightarrow> p0 | Some r \<Rightarrow> p0\<lparr>bitmap := mr_start r + hhdm\<rparr>)
           in if bitmap p1 = 0 then Inl (PmmPanic ''Can't allocate memory for PMM'')
              else case found of None \<Rightarrow> Inl PmmUninitialised
              | Some r \<Rightarrow>
                (let p2 = deinitRegion 0 (memorySize p1) (p1\<lparr>bitmapWords := raw (bitmap p1)\<rparr>);
                     p3 = p2\<lparr>usedframes := frameCnt p2\<rparr>
                 in case initRegions (availableMemArr mem) [0..<unat (availMemArrCnt mem)] p3 of
                   Inl e \<Rightarrow> Inl e
                 | Inr p4 \<Rightarrow>
                     Inr (r, deinitRegion 0 (word_of_int frameSize)
                               (deinitRegion (mr_start r) (mr_size r) p4)))))"

section \<open>Invariant and abstraction\<close>

text \<open>
  The manager represents a set of free frames; \<open>usedframes\<close> counts the set bits below
  \<open>frameCnt\<close>. Bits of the last element beyond \<open>frameCnt\<close> are padding and not counted.
\<close>

definition free_frames :: "PMM \<Rightarrow> int set" where
  "free_frames p = {f. 0 \<le> f \<and> f < frameCnt p \<and> \<not> bitmapIsSet p f}"

definition pmm_inv :: "PMM \<Rightarrow> bool" where
  "pmm_inv p \<longleftrightarrow> 0 \<le> frameCnt p \<and> frameCnt p < 2 ^ 52 \<and>
     usedframes p = int (card {f. 0 \<le> f \<and> f < frameCnt p \<and> bitmapIsSet p f})"

section \<open>Bitmap lemmas\<close>

lemma bitmapIsSet_alt: "bitmapIsSet p b \<longleftrightarrow> bit (bitmapWords p (b div 64)) (nat (b mod 64))"
  using test_bit_mask [of "nat (b mod 64)" "bitmapWords p (b div 64)"]
  by (simp add: bitmapIsSet_def nat_less_iff)

lemma frame_eq_iff: "(c :: int) = b \<longleftrightarrow> c div 64 = b div 64 \<and> nat (c mod 64) = nat (b mod 64)"
  by (metis div_mult_mod_eq eq_nat_nat_iff pos_mod_sign zero_less_numeral)

lemma bitmapIsSet_Set [simp]: "bitmapIsSet (bitmapSet b p) c \<longleftrightarrow> bitmapIsSet p c \<or> c = b"
  unfolding bitmapIsSet_alt bitmapSet_def
  by (subst frame_eq_iff) (auto simp: bit_or_mask nat_less_iff)

lemma bitmapIsSet_Unset [simp]: "bitmapIsSet (bitmapUnset b p) c \<longleftrightarrow> bitmapIsSet p c \<and> c \<noteq> b"
  unfolding bitmapIsSet_alt bitmapUnset_def
  by (subst frame_eq_iff) (auto simp: bit_and_not_mask nat_less_iff)

lemma bitmapIsSet_usedframes [simp]: "bitmapIsSet (p\<lparr>usedframes := u\<rparr>) f = bitmapIsSet p f"
  by (simp add: bitmapIsSet_def)

lemma bitmapSet_fields [simp]:
  "frameCnt (bitmapSet b p) = frameCnt p" "usedframes (bitmapSet b p) = usedframes p"
  "memorySize (bitmapSet b p) = memorySize p" "bitmap (bitmapSet b p) = bitmap p"
  by (simp_all add: bitmapSet_def)

lemma bitmapUnset_fields [simp]:
  "frameCnt (bitmapUnset b p) = frameCnt p" "usedframes (bitmapUnset b p) = usedframes p"
  "memorySize (bitmapUnset b p) = memorySize p" "bitmap (bitmapUnset b p) = bitmap p"
  by (simp_all add: bitmapUnset_def)

lemma elementCnt_upd [simp]:
  "elementCnt (bitmapSet b p) = elementCnt p" "elementCnt (bitmapUnset b p) = elementCnt p"
  "elementCnt (p\<lparr>usedframes := u\<rparr>) = elementCnt p"
  by (simp_all add: elementCnt_def)

lemma elementCnt_div: "0 \<le> frameCnt p \<Longrightarrow> elementCnt p = (frameCnt p + 63) div 64"
  by (auto simp: elementCnt_def signed_divide_int_def sgn_if)

lemma elementCnt_bounds:
  assumes "0 \<le> frameCnt p"
  shows "0 \<le> elementCnt p" "frameCnt p \<le> elementCnt p * 64" "elementCnt p * 64 < frameCnt p + 64"
  using assms unfolding elementCnt_div [OF assms] by auto

section \<open>The two searches\<close>

lemma firstClearBit_Some:
  "firstClearBit w = Some j \<longleftrightarrow> j < 64 \<and> \<not> bit w j \<and> (\<forall>k<j. bit w k)"
  unfolding firstClearBit_def find_Some_iff
  by (auto simp: test_bit_mask)

lemma firstClearBit_None: "firstClearBit w = None \<longleftrightarrow> w = 0xffffffffffffffff"
  unfolding firstClearBit_def find_None_iff all_ones_iff by (auto simp: test_bit_mask)

lemma firstFreeFrameFrom_spec:
  fixes ws :: "int \<Rightarrow> u64"
  assumes "a \<le> b"
  defines "isset \<equiv> \<lambda>f. bit (ws (f div 64)) (nat (f mod 64))"
  shows "firstFreeFrameFrom ws [a..<b] = - 1 \<and>
           (\<forall>f. 64 * int a \<le> f \<and> f < 64 * int b \<longrightarrow> isset f) \<or>
         64 * int a \<le> firstFreeFrameFrom ws [a..<b] \<and> firstFreeFrameFrom ws [a..<b] < 64 * int b \<and>
           \<not> isset (firstFreeFrameFrom ws [a..<b]) \<and>
           (\<forall>f. 64 * int a \<le> f \<and> f < firstFreeFrameFrom ws [a..<b] \<longrightarrow> isset f)"
  using assms(1)
proof (induction a rule: inc_induct)
  case base
  show ?case by auto
next
  case (step a)
  have split: "isset f" if "64 * int a \<le> f" "f < 64 * int a + j"
    "\<forall>k<nat j. bit (ws (int a)) k" "j \<le> 64" for f j
  proof -
    define k where "k = f - 64 * int a"
    have k: "f = 64 * int a + k" "0 \<le> k" "k < 64" "k < j" using that by (simp_all add: k_def)
    then have "f div 64 = int a" "f mod 64 = k" by simp_all
    then show ?thesis using that k by (simp add: isset_def nat_less_eq_zless)
  qed
  show ?case
  proof (cases "firstClearBit (ws (int a))")
    case None
    then have full: "ws (int a) = 0xffffffffffffffff" by (simp add: firstClearBit_None)
    then have "\<forall>k<64. bit (ws (int a)) k" using all_ones_iff by blast
    then have here: "isset f" if "64 * int a \<le> f" "f < 64 * int (Suc a)" for f
      using that split [of f 64] by simp
    have eq: "firstFreeFrameFrom ws [a..<b] = firstFreeFrameFrom ws [Suc a..<b]"
      using step.hyps full by (simp add: upt_conv_Cons)
    have below: "isset f" if "64 * int a \<le> f" "64 * int (Suc a) \<le> f \<Longrightarrow> isset f" for f
      using that here by (cases "f < 64 * int (Suc a)") auto
    have le: "64 * int a \<le> 64 * int (Suc a)" by simp
    show ?thesis unfolding eq using step.IH below order_trans [OF le] by meson
  next
    case (Some j)
    then have j: "j < 64" "\<not> bit (ws (int a)) j" "\<forall>k<j. bit (ws (int a)) k"
      by (simp_all add: firstClearBit_Some)
    have nf: "ws (int a) \<noteq> 0xffffffffffffffff" using Some firstClearBit_None by (metis option.distinct(1))
    have "(64 * int a + int j) div 64 = int a" "(64 * int a + int j) mod 64 = int j" using j by auto
    then have "\<not> isset (int a * 64 + int j)" using j by (simp add: isset_def ac_simps)
    moreover have "\<forall>f. 64 * int a \<le> f \<and> f < int a * 64 + int j \<longrightarrow> isset f"
      using j split [of _ "int j"] by simp
    moreover have "firstFreeFrameFrom ws [a..<b] = int a * 64 + int j"
      using step.hyps nf Some by (simp add: upt_conv_Cons)
    ultimately show ?thesis using j step.hyps by simp
  qed
qed

lemma firstFreeFrame_spec:
  assumes "0 \<le> frameCnt p"
  shows "firstFreeFrame p = - 1 \<and> (\<forall>f. 0 \<le> f \<and> f < elementCnt p * 64 \<longrightarrow> bitmapIsSet p f) \<or>
         0 \<le> firstFreeFrame p \<and> firstFreeFrame p < elementCnt p * 64 \<and>
           \<not> bitmapIsSet p (firstFreeFrame p) \<and>
           (\<forall>f. 0 \<le> f \<and> f < firstFreeFrame p \<longrightarrow> bitmapIsSet p f)"
  using firstFreeFrameFrom_spec [of 0 "nat (elementCnt p)" "bitmapWords p"]
    elementCnt_bounds [OF assms]
  by (simp add: firstFreeFrame_def bitmapIsSet_alt ac_simps)

definition all_free :: "PMM \<Rightarrow> int \<Rightarrow> int \<Rightarrow> bool" where
  "all_free p s n \<longleftrightarrow> (\<forall>f. s \<le> f \<and> f < s + n \<longrightarrow> \<not> bitmapIsSet p f)"

definition free_in :: "PMM \<Rightarrow> int \<Rightarrow> int \<Rightarrow> int" where
  "free_in p s n = (\<Sum>f\<in>{s..<s + n}. if bitmapIsSet p f then 0 else 1)"

lemma free_in_full: "0 \<le> n \<Longrightarrow> free_in p s n = n \<longleftrightarrow> all_free p s n"
  by (simp add: free_in_def all_free_def sum_clear_full)

lemma countFree_free_in: "countFree p k = free_in p 0 (int k)"
proof (induction k)
  case (Suc k)
  have "{0..<0 + int (Suc k)} = insert (int k) {0..<0 + int k}" by auto
  then show ?case using Suc by (simp add: free_in_def)
qed (simp add: free_in_def)

lemma slideWindow_spec:
  assumes "0 \<le> n" "n \<le> i" "i \<le> elementCnt p * 64"
    and "free = free_in p (i - n) n" and "\<forall>s. 0 \<le> s \<and> s < i - n \<longrightarrow> \<not> all_free p s n"
  shows "slideWindow p n i free = - 1 \<and>
           (\<forall>s. 0 \<le> s \<and> s + n \<le> elementCnt p * 64 \<longrightarrow> \<not> all_free p s n) \<or>
         0 \<le> slideWindow p n i free \<and> slideWindow p n i free + n \<le> elementCnt p * 64 \<and>
           all_free p (slideWindow p n i free) n \<and>
           (\<forall>s. 0 \<le> s \<and> s < slideWindow p n i free \<longrightarrow> \<not> all_free p s n)"
  using assms
proof (induction p n i free rule: slideWindow.induct)
  case (1 p n i free)
  note simps = slideWindow.simps [of p n i free]
  show ?case
  proof (cases "free = n")
    case True
    then have "all_free p (i - n) n" using 1 free_in_full by metis
    moreover have "slideWindow p n i free = i - n" unfolding simps using True by simp
    ultimately show ?thesis using "1.prems" by simp
  next
    case False
    then have no: "\<not> all_free p (i - n) n" and "0 < n"
      using 1 free_in_full by (metis, metis add_0_right all_free_def le_less not_less)
    show ?thesis
    proof (cases "i < elementCnt p * 64")
      case True
      have "free + (if bitmapIsSet p i then 0 else 1) - (if bitmapIsSet p (i - n) then 0 else 1)
          = free_in p (i + 1 - n) n"
        using "1.prems" sum_slide [OF \<open>0 < n\<close>, of "\<lambda>f. if bitmapIsSet p f then 0 else 1" "i - n"]
        by (simp add: free_in_def algebra_simps)
      moreover have "\<forall>s. 0 \<le> s \<and> s < i + 1 - n \<longrightarrow> \<not> all_free p s n"
        using "1.prems"(5) no by (metis add_diff_eq diff_add_eq zle_add1_eq_le order_le_less)
      moreover have "slideWindow p n i free = slideWindow p n (i + 1)
          (free + (if bitmapIsSet p i then 0 else 1) - (if bitmapIsSet p (i - n) then 0 else 1))"
        unfolding simps using True False by simp
      ultimately show ?thesis
        using "1.IH" [OF True False] "1.prems"(1,2) True by simp
    next
      case stop: False
      have "\<not> all_free p s n" if "0 \<le> s" "s + n \<le> elementCnt p * 64" for s
        using that "1.prems" no stop by (cases "s = i - n") auto
      then show ?thesis unfolding simps using stop False by simp
    qed
  qed
qed

lemma firstNFreeFrames_spec:
  assumes "0 \<le> frameCnt p" "0 \<le> n" "n \<le> elementCnt p"
  shows "firstNFreeFrames p n = - 1 \<and>
           (\<forall>s. 0 \<le> s \<and> s + n \<le> elementCnt p * 64 \<longrightarrow> \<not> all_free p s n) \<or>
         0 \<le> firstNFreeFrames p n \<and> firstNFreeFrames p n + n \<le> elementCnt p * 64 \<and>
           all_free p (firstNFreeFrames p n) n \<and>
           (\<forall>s. 0 \<le> s \<and> s < firstNFreeFrames p n \<longrightarrow> \<not> all_free p s n)"
proof -
  have none: "\<forall>s. 0 \<le> s \<and> s < n - n \<longrightarrow> \<not> all_free p s n" by auto
  have "n \<le> elementCnt p * 64" using assms elementCnt_bounds(1) [OF assms(1)] by simp
  moreover have "firstNFreeFrames p n = slideWindow p n n (free_in p (n - n) n)"
    using assms by (simp add: firstNFreeFrames_def countFree_free_in)
  ultimately show ?thesis
    using slideWindow_spec [OF assms(2) order_refl _ refl none] by simp
qed

section \<open>Effect of the operations on the set of free frames\<close>

lemma pmm_inv_bounds:
  assumes "pmm_inv p"
  shows "0 \<le> usedframes p" "usedframes p \<le> frameCnt p"
    "usedframes p = frameCnt p \<longleftrightarrow> free_frames p = {}"
proof -
  show "0 \<le> usedframes p" "usedframes p \<le> frameCnt p"
    using assms by (auto simp: pmm_inv_def card_int_range_le)
  show "usedframes p = frameCnt p \<longleftrightarrow> free_frames p = {}"
  proof
    assume "usedframes p = frameCnt p"
    then have "bitmapIsSet p f" if "0 \<le> f" "f < frameCnt p" for f
      using assms that card_int_range_full [of "frameCnt p" "bitmapIsSet p" f] by (simp add: pmm_inv_def)
    then show "free_frames p = {}" by (auto simp: free_frames_def)
  next
    assume "free_frames p = {}"
    then have "{f. 0 \<le> f \<and> f < frameCnt p \<and> bitmapIsSet p f} = {0..<frameCnt p}"
      by (auto simp: free_frames_def)
    then show "usedframes p = frameCnt p" using assms by (simp add: pmm_inv_def)
  qed
qed

lemma pmm_inv_set:
  assumes "pmm_inv p" "f \<in> free_frames p"
  shows "pmm_inv ((bitmapSet f p)\<lparr>usedframes := usedframes p + 1\<rparr>)"
  using assms card_int_range_insert [of f "frameCnt p" "bitmapIsSet p"]
  by (simp add: pmm_inv_def free_frames_def)

lemma pmm_inv_unset:
  assumes "pmm_inv p" "0 \<le> f" "f < frameCnt p" "bitmapIsSet p f"
  shows "pmm_inv ((bitmapUnset f p)\<lparr>usedframes := usedframes p - 1\<rparr>)"
  using assms card_int_range_remove [of f "frameCnt p" "bitmapIsSet p"]
  by (simp add: pmm_inv_def)

lemma free_frames_set [simp]:
  "free_frames ((bitmapSet f p)\<lparr>usedframes := u\<rparr>) = free_frames p - {f}"
  by (auto simp: free_frames_def)

lemma free_frames_unset:
  "0 \<le> f \<Longrightarrow> f < frameCnt p \<Longrightarrow> free_frames ((bitmapUnset f p)\<lparr>usedframes := u\<rparr>) = insert f (free_frames p)"
  by (auto simp: free_frames_def)

lemma finite_free_frames [simp]: "finite (free_frames p)"
  by (simp add: free_frames_def)

definition frame_addr :: "int \<Rightarrow> u64" where
  "frame_addr f = word_of_int (f * frameSize)"

lemma uint_frame_addr: "0 \<le> f \<Longrightarrow> f < 2 ^ 52 \<Longrightarrow> uint (frame_addr f) = f * 4096"
  unfolding frame_addr_def uint_word_of_int by simp

lemma uint_div_frame: "uint ((a :: u64) div 4096) = uint a div 4096"
  by (simp add: uint_div_distrib)

lemma frame_addr_div: "0 \<le> f \<Longrightarrow> f < 2 ^ 52 \<Longrightarrow> uint (frame_addr f div 4096) = f"
  by (simp add: uint_div_frame uint_frame_addr)

lemma frame_addr_inj: "0 \<le> f \<Longrightarrow> f < 2 ^ 52 \<Longrightarrow> 0 \<le> g \<Longrightarrow> g < 2 ^ 52 \<Longrightarrow>
    frame_addr f = frame_addr g \<longleftrightarrow> f = g"
  by (metis frame_addr_div)

lemma free_framesD: "f \<in> free_frames p \<Longrightarrow> pmm_inv p \<Longrightarrow> 0 \<le> f \<and> f < frameCnt p \<and> f < 2 ^ 52"
  by (auto simp: free_frames_def pmm_inv_def)

lemma firstFreeFrame_Min:
  assumes "pmm_inv p" "free_frames p \<noteq> {}"
  shows "firstFreeFrame p = Min (free_frames p)" "Min (free_frames p) \<in> free_frames p"
proof -
  have nn: "0 \<le> frameCnt p" using assms by (simp add: pmm_inv_def)
  show m: "Min (free_frames p) \<in> free_frames p" using assms by (intro Min_in) auto
  then have "0 \<le> Min (free_frames p)" "Min (free_frames p) < elementCnt p * 64"
    "\<not> bitmapIsSet p (Min (free_frames p))"
    using elementCnt_bounds [OF nn] by (auto simp: free_frames_def)
  then have r: "0 \<le> firstFreeFrame p" "\<not> bitmapIsSet p (firstFreeFrame p)"
    "firstFreeFrame p \<le> Min (free_frames p)"
    using firstFreeFrame_spec [OF nn] by force+
  then have "firstFreeFrame p \<in> free_frames p" using m by (auto simp: free_frames_def)
  then show "firstFreeFrame p = Min (free_frames p)" using r assms by (simp add: order_antisym)
qed

lemma allocFrame_some:
  assumes "pmm_inv p" "free_frames p \<noteq> {}"
  defines "f \<equiv> Min (free_frames p)"
  shows "allocFrame p = (frame_addr f, (bitmapSet f p)\<lparr>usedframes := usedframes p + 1\<rparr>)"
proof -
  have "usedframes p \<noteq> frameCnt p" using assms pmm_inv_bounds(3) by blast
  moreover have "firstFreeFrame p = f" "f \<in> free_frames p"
    using firstFreeFrame_Min [OF assms(1,2)] by (simp_all add: f_def)
  moreover from this have "f \<noteq> - 1" by (auto simp: free_frames_def)
  ultimately show ?thesis by (simp add: allocFrame_def Let_def frame_addr_def)
qed

lemma allocFrame_none: "pmm_inv p \<Longrightarrow> free_frames p = {} \<Longrightarrow> allocFrame p = (0, p)"
  using pmm_inv_bounds(3) [of p] by (simp add: allocFrame_def)

lemma freeFrame_valid:
  assumes "pmm_inv p" "0 \<le> f" "f < frameCnt p"
  shows "freeFrame (frame_addr f) p =
    (if bitmapIsSet p f then (bitmapUnset f p)\<lparr>usedframes := usedframes p - 1\<rparr> else p)"
proof -
  have "f < 2 ^ 52" using assms by (simp add: pmm_inv_def)
  then show ?thesis using assms by (simp add: freeFrame_def Let_def frame_addr_div)
qed

lemma freeFrame_effect:
  assumes "pmm_inv p" "0 \<le> f" "f < frameCnt p"
  shows "pmm_inv (freeFrame (frame_addr f) p)"
    and "free_frames (freeFrame (frame_addr f) p) = insert f (free_frames p)"
    and "frameCnt (freeFrame (frame_addr f) p) = frameCnt p"
  using assms pmm_inv_unset [OF assms] free_frames_unset [OF assms(2,3)]
  by (auto simp: freeFrame_valid) (auto simp: free_frames_def)

lemma markFrames_effect:
  "bitmapIsSet (markFrames f k p) g \<longleftrightarrow> bitmapIsSet p g \<or> f \<le> g \<and> g < f + int k"
  "frameCnt (markFrames f k p) = frameCnt p"
  "usedframes (markFrames f k p) = usedframes p + int k"
  "elementCnt (markFrames f k p) = elementCnt p"
  by (induction k) (auto simp: Let_def)

lemma markFrames_inv:
  assumes "pmm_inv p" "{f..<f + int k} \<subseteq> free_frames p"
  shows "pmm_inv (markFrames f k p)"
  using assms(2)
proof (induction k)
  case 0
  show ?case using assms by simp
next
  case (Suc k)
  have "{f..<f + int k} \<subseteq> {f..<f + int (Suc k)}" by auto
  then have inv: "pmm_inv (markFrames f k p)" using Suc by blast
  have "f + int k \<in> {f..<f + int (Suc k)}" by simp
  then have "f + int k \<in> free_frames p" using Suc.prems by blast
  then have "f + int k \<in> free_frames (markFrames f k p)"
    by (simp add: free_frames_def markFrames_effect)
  from pmm_inv_set [OF inv this] show ?case by (simp add: Let_def)
qed

section \<open>Regions\<close>

lemma initFrames_effect:
  "bitmapIsSet (initFrames k f p) g \<longleftrightarrow> bitmapIsSet p g \<and> \<not> (f \<le> g \<and> g < f + int k)"
  "frameCnt (initFrames k f p) = frameCnt p" "bitmap (initFrames k f p) = bitmap p"
  by (induction k arbitrary: f p) (auto simp: Let_def)

lemma deinitFrames_effect:
  "bitmapIsSet (deinitFrames k f p) g \<longleftrightarrow> bitmapIsSet p g \<or> f \<le> g \<and> g < f + int k"
  "frameCnt (deinitFrames k f p) = frameCnt p" "bitmap (deinitFrames k f p) = bitmap p"
  by (induction k arbitrary: f p) (auto simp: Let_def)

lemma pmm_inv_unset_clear: "pmm_inv p \<Longrightarrow> \<not> bitmapIsSet p f \<Longrightarrow> pmm_inv (bitmapUnset f p)"
proof -
  assume p: "pmm_inv p" "\<not> bitmapIsSet p f"
  then have "(bitmapIsSet p g \<and> g \<noteq> f) = bitmapIsSet p g" for g by auto
  then show ?thesis using p by (simp add: pmm_inv_def)
qed

lemma pmm_inv_set_again: "pmm_inv p \<Longrightarrow> bitmapIsSet p f \<Longrightarrow> pmm_inv (bitmapSet f p)"
proof -
  assume p: "pmm_inv p" "bitmapIsSet p f"
  then have "(bitmapIsSet p g \<or> g = f) = bitmapIsSet p g" for g by auto
  then show ?thesis using p by (simp add: pmm_inv_def)
qed

lemma initFrames_inv:
  "pmm_inv p \<Longrightarrow> 0 \<le> f \<Longrightarrow> f + int k \<le> frameCnt p \<Longrightarrow> pmm_inv (initFrames k f p)"
proof (induction k arbitrary: f p)
  case (Suc k)
  then show ?case
    using pmm_inv_unset [of p f] pmm_inv_unset_clear [of p f] by (auto simp: Let_def)
qed simp

lemma deinitFrames_inv:
  "pmm_inv p \<Longrightarrow> 0 \<le> f \<Longrightarrow> f + int k \<le> frameCnt p \<Longrightarrow> pmm_inv (deinitFrames k f p)"
proof (induction k arbitrary: f p)
  case (Suc k)
  then have "\<not> bitmapIsSet p f \<Longrightarrow> f \<in> free_frames p" by (simp add: free_frames_def)
  then show ?case
    using Suc pmm_inv_set [of p f] pmm_inv_set_again [of p f] by (auto simp: Let_def)
qed simp

lemma regionFirst_aligned:
  assumes "uint start = 4096 * a" "a < 2 ^ 51"
  shows "regionFirst start = a"
proof -
  have "0 \<le> a" using assms(1) uint_ge_0 [of start] by simp
  then have "uint (start + 4096 - 1) = 4096 * a + 4095"
    using assms by (simp add: uint_word_ariths mod_pos_pos_trivial)
  then show ?thesis by (simp add: regionFirst_def uint_div_frame)
qed

lemma regionCnt_aligned:
  assumes "uint start = 4096 * a" "a < 2 ^ 51" "uint sz < 2 ^ 63"
  shows "regionCnt start sz = (uint sz + 4095) div 4096"
proof -
  have "start = word_of_int (a * 4096)" using assms(1) by (metis mult.commute word_of_int_uint)
  then have "sint (sz - (word_of_int (regionFirst start * 4096) - start)) = sint sz"
    using regionFirst_aligned [OF assms(1,2)] by simp
  also have "\<dots> = uint sz" using assms(3) 
    by (simp add: sint_uint signed_take_bit_int_eq_self order_trans [OF _ uint_ge_0])
  finally show ?thesis
    by (simp add: regionCnt_def Let_def signed_divide_int_def sgn_if add.commute)
qed

text \<open>
  What \<open>pmm.h\<close> asks of the memory map: 4 KiB aligned ranges inside the memory.
\<close>

definition range_frames :: "MemRange \<Rightarrow> int set" where
  "range_frames r = {uint (mr_start r) div 4096..<(uint (mr_start r) + uint (mr_size r) + 4095) div 4096}"

definition wf_range :: "PhysicalMemMap \<Rightarrow> MemRange \<Rightarrow> bool" where
  "wf_range mem r \<longleftrightarrow> 4096 dvd uint (mr_start r) \<and> 4096 dvd uint (mr_size r) \<and>
     uint (mr_start r) + uint (mr_size r) \<le> uint (totalSize mem)"

definition wf_memmap :: "PhysicalMemMap \<Rightarrow> bool" where
  "wf_memmap mem \<longleftrightarrow> 4096 dvd uint (totalSize mem) \<and> 0 < uint (totalSize mem) \<and> uint (totalSize mem) < 2 ^ 62 \<and>
     unat (availMemArrCnt mem) = length (availableMemArr mem) \<and>
     list_all (wf_range mem) (availableMemArr mem)"

lemma initRegion_frames:
  assumes "4096 dvd uint (mr_start r)" "uint (mr_start r) + uint (mr_size r) < 2 ^ 62"
  shows "bitmapIsSet (initRegion (mr_start r) (mr_size r) p) g \<longleftrightarrow> bitmapIsSet p g \<and> g \<notin> range_frames r"
    and "bitmapIsSet (deinitRegion (mr_start r) (mr_size r) p) g \<longleftrightarrow> bitmapIsSet p g \<or> g \<in> range_frames r"
    and "frameCnt (initRegion (mr_start r) (mr_size r) p) = frameCnt p"
    and "frameCnt (deinitRegion (mr_start r) (mr_size r) p) = frameCnt p"
    and "pmm_inv p \<Longrightarrow> uint (mr_start r) + uint (mr_size r) \<le> frameCnt p * 4096 \<Longrightarrow>
           pmm_inv (initRegion (mr_start r) (mr_size r) p)"
    and "pmm_inv p \<Longrightarrow> uint (mr_start r) + uint (mr_size r) \<le> frameCnt p * 4096 \<Longrightarrow>
           pmm_inv (deinitRegion (mr_start r) (mr_size r) p)"
proof -
  obtain a where a: "uint (mr_start r) = 4096 * a" using assms by (auto elim: dvdE)
  have pos: "0 \<le> uint (mr_start r)" "0 \<le> uint (mr_size r)" by simp_all
  moreover have "uint (mr_start r) + uint (mr_size r) < 4611686018427387904" using assms(2) by simp
  ultimately have "0 \<le> a" "a < 2251799813685248" "uint (mr_size r) < 9223372036854775808"
    using a by linarith+
  then have b: "0 \<le> a" "a < 2 ^ 51" "uint (mr_size r) < 2 ^ 63" by simp_all
  note first = regionFirst_aligned [OF a b(2)] and cnt = regionCnt_aligned [OF a b(2,3)]
  have rf: "range_frames r = {a..<a + (uint (mr_size r) + 4095) div 4096}"
    using a by (simp add: range_frames_def add.assoc)
  have cnt0: "0 \<le> (uint (mr_size r) + 4095) div 4096" by (intro pos_imp_zdiv_nonneg_iff [THEN iffD2]) simp_all
  show "bitmapIsSet (initRegion (mr_start r) (mr_size r) p) g \<longleftrightarrow> bitmapIsSet p g \<and> g \<notin> range_frames r"
    "bitmapIsSet (deinitRegion (mr_start r) (mr_size r) p) g \<longleftrightarrow> bitmapIsSet p g \<or> g \<in> range_frames r"
    "frameCnt (initRegion (mr_start r) (mr_size r) p) = frameCnt p"
    "frameCnt (deinitRegion (mr_start r) (mr_size r) p) = frameCnt p"
    using cnt0 by (auto simp: initRegion_def deinitRegion_def first cnt rf initFrames_effect deinitFrames_effect)
  have fit: "a + (uint (mr_size r) + 4095) div 4096 \<le> frameCnt p"
    if "uint (mr_start r) + uint (mr_size r) \<le> frameCnt p * 4096"
    using that a by simp
  show "pmm_inv p \<Longrightarrow> uint (mr_start r) + uint (mr_size r) \<le> frameCnt p * 4096 \<Longrightarrow>
           pmm_inv (initRegion (mr_start r) (mr_size r) p)"
    and "pmm_inv p \<Longrightarrow> uint (mr_start r) + uint (mr_size r) \<le> frameCnt p * 4096 \<Longrightarrow>
           pmm_inv (deinitRegion (mr_start r) (mr_size r) p)"
    using fit b cnt0 initFrames_inv [of p a] deinitFrames_inv [of p a]
    by (simp_all add: initRegion_def deinitRegion_def first cnt)
qed

lemma region_bitmap [simp]:
  "bitmap (initRegion start sz p) = bitmap p" "bitmap (deinitRegion start sz p) = bitmap p"
  by (simp_all add: initRegion_def deinitRegion_def initFrames_effect deinitFrames_effect)

lemma initRegions_effect:
  assumes "\<forall>i\<in>set is. i < length arr \<and> 4096 dvd uint (mr_start (arr ! i)) \<and>
      uint (mr_start (arr ! i)) + uint (mr_size (arr ! i)) \<le> frameCnt p * 4096"
    and "pmm_inv p" "frameCnt p * 4096 < 2 ^ 62"
  shows "\<exists>p'. initRegions arr is p = Inr p' \<and> pmm_inv p' \<and> frameCnt p' = frameCnt p \<and> bitmap p' = bitmap p \<and>
    (\<forall>g. bitmapIsSet p' g \<longleftrightarrow> bitmapIsSet p g \<and> (\<forall>i\<in>set is. g \<notin> range_frames (arr ! i)))"
  using assms
proof (induction "is" arbitrary: p)
  case (Cons i "is")
  let ?p = "initRegion (mr_start (arr ! i)) (mr_size (arr ! i)) p"
  have r: "4096 dvd uint (mr_start (arr ! i))"
    "uint (mr_start (arr ! i)) + uint (mr_size (arr ! i)) < 2 ^ 62" using Cons.prems by auto
  note eff = initRegion_frames [OF r, of p]
  have "pmm_inv ?p" "frameCnt ?p = frameCnt p" using Cons.prems eff by auto
  then obtain p' where "initRegions arr is ?p = Inr p'" "pmm_inv p'" "frameCnt p' = frameCnt p"
    "bitmap p' = bitmap p"
    "\<forall>g. bitmapIsSet p' g \<longleftrightarrow> bitmapIsSet ?p g \<and> (\<forall>i\<in>set is. g \<notin> range_frames (arr ! i))"
    using Cons.IH [of ?p] Cons.prems by auto
  then show ?case using Cons.prems eff(1) by auto
qed simp

definition bitmapBytes :: "PhysicalMemMap \<Rightarrow> int" where
  "bitmapBytes mem = (uint (totalSize mem) div 4096 + 63) div 64 * 8"

lemma findBitmapRange_found:
  assumes "i < length arr" "i < 2" "req \<le> mr_size (arr ! i)"
  shows "\<exists>j<2. j < length arr \<and> req \<le> mr_size (arr ! j) \<and>
    findBitmapRange req arr [0, 1] = Inr (Some \<lparr>mr_start = mr_start (arr ! j), mr_size = req\<rparr>)"
proof (cases "req \<le> mr_size (arr ! 0)")
  case True
  then show ?thesis using assms by (intro exI [of _ 0]) auto
next
  case False
  then have "i = 1" using assms(2,3) by (cases i) auto
  then show ?thesis using False assms by (intro exI [of _ 1]) auto
qed

lemma wf_memmapD:
  assumes "wf_memmap mem"
  obtains n where "uint (totalSize mem) = 4096 * n" "0 < n" "n < 2 ^ 50"
    "uint (totalSize mem div 4096) = n" "bitmapBytes mem = (n + 63) div 64 * 8"
    "uint (word_of_int (bitmapBytes mem) :: u64) = bitmapBytes mem"
proof -
  obtain n where n: "uint (totalSize mem) = 4096 * n"
    using assms by (auto simp: wf_memmap_def elim: dvdE)
  then have b: "0 < n" "n < 2 ^ 50" using assms by (auto simp: wf_memmap_def)
  have e: "bitmapBytes mem = (n + 63) div 64 * 8" using n by (simp add: bitmapBytes_def)
  have le: "(n + 63) div 64 * 64 \<le> n + 63" by (metis add.commute le_add_same_cancel1 div_mult_mod_eq pos_mod_sign zero_less_numeral)
  have "0 \<le> bitmapBytes mem" "bitmapBytes mem < 2 ^ 64" using b e le by auto
  then have "uint (word_of_int (bitmapBytes mem) :: u64) = bitmapBytes mem"
    by (simp add: uint_word_of_int)
  then show ?thesis using that n b e by (simp add: uint_div_frame)
qed

lemma deinit_whole_memory:
  fixes p :: PMM
  assumes "frameCnt p = n" "uint sz = 4096 * n" "0 < n" "n < 2 ^ 50"
  defines "q \<equiv> deinitRegion 0 sz p"
  shows "pmm_inv (q\<lparr>usedframes := frameCnt q\<rparr>)" "frameCnt q = n"
    "\<And>g. 0 \<le> g \<Longrightarrow> g < n \<Longrightarrow> bitmapIsSet q g"
proof -
  have small: "uint sz < 2 ^ 62" using assms by simp
  note eff = initRegion_frames(2,4) [of "\<lparr>mr_start = 0, mr_size = sz\<rparr>" p, simplified, OF small [simplified]]
  show fc: "frameCnt q = n" using eff assms by (simp add: q_def)
  show all: "bitmapIsSet q g" if "0 \<le> g" "g < n" for g
    using eff(1) [of g] that assms by (simp add: q_def range_frames_def)
  then have "{f. 0 \<le> f \<and> f < n \<and> bitmapIsSet q f} = {0..<n}" by auto
  then show "pmm_inv (q\<lparr>usedframes := frameCnt q\<rparr>)" using fc assms by (simp add: pmm_inv_def)
qed

lemma wf_range_frames:
  assumes "wf_range mem a" "uint (totalSize mem) = 4096 * n"
  shows "range_frames a \<subseteq> {0..<n}"
proof -
  obtain k m where k: "uint (mr_start a) = 4096 * k" "uint (mr_size a) = 4096 * m"
    using assms by (auto simp: wf_range_def elim!: dvdE)
  have "4096 * k + 4096 * m + 4095 = 4095 + (k + m) * 4096" by simp
  then have "(4096 * k + 4096 * m + 4095) div 4096 = k + m" by simp
  then have "range_frames a = {k..<k + m}" by (simp add: range_frames_def k)
  moreover have "0 \<le> k" using k(1) uint_ge_0 [of "mr_start a"] by linarith
  moreover have "k + m \<le> n" using assms k by (simp add: wf_range_def)
  ultimately show ?thesis by auto
qed

text \<open>The middle of \<open>init\<close>: from the all-used bitmap to the one with the available ranges freed.\<close>

lemma init_available:
  assumes wf: "wf_memmap mem" and n: "uint (totalSize mem) = 4096 * n" "0 < n" "n < 2 ^ 50"
    and p: "frameCnt p = n"
  defines "q \<equiv> deinitRegion 0 (totalSize mem) p"
  shows "\<exists>p4. initRegions (availableMemArr mem) [0..<unat (availMemArrCnt mem)]
      (q\<lparr>usedframes := frameCnt q\<rparr>) = Inr p4 \<and> pmm_inv p4 \<and> frameCnt p4 = n \<and> bitmap p4 = bitmap p \<and>
    free_frames p4 = (\<Union>a\<in>set (availableMemArr mem). range_frames a)"
proof -
  let ?arr = "availableMemArr mem" and ?p3 = "q\<lparr>usedframes := frameCnt q\<rparr>"
  note whole = deinit_whole_memory [OF p n, folded q_def]
  have cnt: "unat (availMemArrCnt mem) = length ?arr" using wf by (simp add: wf_memmap_def)
  have ranges: "wf_range mem a" if "a \<in> set ?arr" for a
    using that wf by (auto simp: wf_memmap_def list_all_iff)
  then have ranges': "wf_range mem (?arr ! i)" if "i < length ?arr" for i using that by simp
  have in_range: "\<forall>i\<in>set [0..<length ?arr]. i < length ?arr \<and> 4096 dvd uint (mr_start (?arr ! i)) \<and>
      uint (mr_start (?arr ! i)) + uint (mr_size (?arr ! i)) \<le> frameCnt ?p3 * 4096"
    using ranges' n(1) whole(2) by (simp add: wf_range_def mult.commute)
  obtain p4 where p4: "initRegions ?arr [0..<length ?arr] ?p3 = Inr p4" "pmm_inv p4" "frameCnt p4 = n"
    "bitmap p4 = bitmap p"
    "\<And>g. bitmapIsSet p4 g \<longleftrightarrow> bitmapIsSet q g \<and> (\<forall>i\<in>set [0..<length ?arr]. g \<notin> range_frames (?arr ! i))"
    using initRegions_effect [OF in_range whole(1)] whole(2) n(3) by (auto simp: q_def)
  have sub: "range_frames a \<subseteq> {0..<n}" if "a \<in> set ?arr" for a
    using wf_range_frames [OF ranges [OF that] n(1)] .
  have "free_frames p4 = {g. 0 \<le> g \<and> g < n \<and> (\<exists>a\<in>set ?arr. g \<in> range_frames a)}"
    using whole(3) by (auto simp: free_frames_def p4 set_conv_nth)
  also have "\<dots> = (\<Union>a\<in>set ?arr. range_frames a)" using sub by fastforce
  finally show ?thesis using p4 cnt by auto
qed

lemma deinitRegion_free:
  assumes "pmm_inv p" "4096 dvd uint (mr_start r)" "uint (mr_start r) + uint (mr_size r) \<le> frameCnt p * 4096"
    "frameCnt p < 2 ^ 50"
  shows "pmm_inv (deinitRegion (mr_start r) (mr_size r) p)"
    "free_frames (deinitRegion (mr_start r) (mr_size r) p) = free_frames p - range_frames r"
    "frameCnt (deinitRegion (mr_start r) (mr_size r) p) = frameCnt p"
proof -
  have "uint (mr_start r) + uint (mr_size r) < 2 ^ 62" using assms by simp
  note eff = initRegion_frames [OF assms(2) this, of p]
  show "pmm_inv (deinitRegion (mr_start r) (mr_size r) p)" using eff assms by simp
  show "free_frames (deinitRegion (mr_start r) (mr_size r) p) = free_frames p - range_frames r"
    and "frameCnt (deinitRegion (mr_start r) (mr_size r) p) = frameCnt p"
    using eff by (auto simp: free_frames_def)
qed

text \<open>Initialisation from a well-formed memory map succeeds, establishes the invariant, and
  leaves free exactly the frames of the available ranges, without the frames of the bitmap
  itself and without frame 0.
\<close>

theorem pmm_init_correct:
  assumes wf: "wf_memmap mem"
    and room: "i < 2" "i < length (availableMemArr mem)" "bitmapBytes mem \<le> uint (mr_size (availableMemArr mem ! i))"
    and mapped: "\<forall>a\<in>set (availableMemArr mem). mr_start a + hhdm \<noteq> 0"
  shows "\<exists>r p. pmm_init raw hhdm mem emptyPMM = Inr (r, p) \<and> pmm_inv p \<and>
    frameCnt p = uint (totalSize mem) div 4096 \<and> bitmap p = mr_start r + hhdm \<and>
    uint (mr_size r) = bitmapBytes mem \<and>
    free_frames p = (\<Union>a\<in>set (availableMemArr mem). range_frames a) - range_frames r - {0}"
proof -
  let ?arr = "availableMemArr mem"
  obtain n where n: "uint (totalSize mem) = 4096 * n" "0 < n" "n < 2 ^ 50"
    "uint (totalSize mem div 4096) = n" "bitmapBytes mem = (n + 63) div 64 * 8"
    "uint (word_of_int (bitmapBytes mem) :: u64) = bitmapBytes mem"
    using wf by (rule wf_memmapD)
  let ?p0 = "emptyPMM\<lparr>memorySize := totalSize mem, frameCnt := n\<rparr>"
  let ?req = "word_of_int (bitmapBytes mem) :: u64"
  have req: "word_of_int (elementCnt ?p0 * 8) = ?req" using n by (simp add: elementCnt_div)
  obtain j where j: "j < length ?arr" "?req \<le> mr_size (?arr ! j)"
    and found: "findBitmapRange ?req ?arr [0, 1] = Inr (Some \<lparr>mr_start = mr_start (?arr ! j), mr_size = ?req\<rparr>)"
    using findBitmapRange_found [OF room(2,1), of ?req] room(3) n(6) by (auto simp: word_le_def)
  define r where "r = \<lparr>mr_start = mr_start (?arr ! j), mr_size = ?req\<rparr>"
  have rj: "wf_range mem (?arr ! j)" using wf j by (simp add: wf_memmap_def list_all_length)
  let ?p1 = "?p0\<lparr>bitmap := mr_start r + hhdm, bitmapWords := raw (mr_start r + hhdm)\<rparr>"
  let ?q = "deinitRegion 0 (totalSize mem) ?p1"
  obtain p4 where p4: "initRegions ?arr [0..<unat (availMemArrCnt mem)] (?q\<lparr>usedframes := frameCnt ?q\<rparr>) = Inr p4"
    "pmm_inv p4" "frameCnt p4 = n" "bitmap p4 = mr_start r + hhdm"
    "free_frames p4 = (\<Union>a\<in>set ?arr. range_frames a)"
    using init_available [OF wf n(1-3), of ?p1] by auto
  let ?p5 = "deinitRegion (mr_start r) (mr_size r) p4"
  have p5: "pmm_inv ?p5" "free_frames ?p5 = free_frames p4 - range_frames r" "frameCnt ?p5 = n"
    using deinitRegion_free [of p4 r] p4 rj n j(2) by (simp_all add: r_def wf_range_def word_le_def)
  let ?p6 = "deinitRegion 0 4096 ?p5"
  have p6: "pmm_inv ?p6" "free_frames ?p6 = free_frames ?p5 - {0}" "frameCnt ?p6 = n"
    using deinitRegion_free [of ?p5 "\<lparr>mr_start = 0, mr_size = 4096\<rparr>"] p5 n by (auto simp: range_frames_def)
  have "pmm_init raw hhdm mem emptyPMM = Inr (r, ?p6)"
    using found mapped j(1) p4(1) req n(4)
    by (simp add: pmm_init_def Let_def emptyPMM_def r_def del: findBitmapRange.simps)
  then show ?thesis using p4 p5 p6 n by (intro exI conjI) (auto simp: r_def)
qed

text \<open>Without a bound on the ranges: what \<open>init\<close> does to every bit when ranges lie above \<open>totalSize\<close> or \<open>totalSize\<close> is no multiple of the
  size of a frame. The bits below \<open>frameCnt\<close> are as they should be; \<open>initRegion\<close> clears those of the frames above it too, behind the
  last frame of the manager.\<close>

definition aligned_map :: "PhysicalMemMap \<Rightarrow> bool" where
  "aligned_map mem \<longleftrightarrow> uint (totalSize mem) < 2 ^ 62 \<and> unat (availMemArrCnt mem) = length (availableMemArr mem) \<and>
     (\<forall>a\<in>set (availableMemArr mem). 4096 dvd uint (mr_start a) \<and> uint (mr_start a) + uint (mr_size a) < 2 ^ 62)"

lemma initRegions_bits:
  assumes "\<forall>i\<in>set is. i < length arr \<and> 4096 dvd uint (mr_start (arr ! i)) \<and>
      uint (mr_start (arr ! i)) + uint (mr_size (arr ! i)) < 2 ^ 62"
  shows "\<exists>p'. initRegions arr is p = Inr p' \<and> frameCnt p' = frameCnt p \<and> bitmap p' = bitmap p \<and>
    (\<forall>g. bitmapIsSet p' g \<longleftrightarrow> bitmapIsSet p g \<and> (\<forall>i\<in>set is. g \<notin> range_frames (arr ! i)))"
  using assms
proof (induction "is" arbitrary: p)
  case (Cons i "is")
  let ?p = "initRegion (mr_start (arr ! i)) (mr_size (arr ! i)) p"
  have r: "4096 dvd uint (mr_start (arr ! i))"
    "uint (mr_start (arr ! i)) + uint (mr_size (arr ! i)) < 2 ^ 62" using Cons.prems by auto
  note eff = initRegion_frames [OF r, of p]
  obtain p' where "initRegions arr is ?p = Inr p'" "frameCnt p' = frameCnt p" "bitmap p' = bitmap p"
    "\<forall>g. bitmapIsSet p' g \<longleftrightarrow> bitmapIsSet ?p g \<and> (\<forall>i\<in>set is. g \<notin> range_frames (arr ! i))"
    using Cons.IH [of ?p] Cons.prems eff(3) by auto
  then show ?case using Cons.prems eff(1) by auto
qed simp

lemma deinitRegion_zero:
  "bitmapIsSet (deinitRegion 0 4096 p) g \<longleftrightarrow> bitmapIsSet p g \<or> g = 0" "frameCnt (deinitRegion 0 4096 p) = frameCnt p"
proof -
  let ?r = "\<lparr>mr_start = 0, mr_size = 4096\<rparr>"
  have zero: "range_frames ?r = {0}" by (auto simp: range_frames_def)
  have "4096 dvd uint (mr_start ?r)" "uint (mr_start ?r) + uint (mr_size ?r) < 2 ^ 62" by simp_all
  note eff = initRegion_frames(2,4) [OF this, of p, unfolded zero MemRange.simps]
  show "bitmapIsSet (deinitRegion 0 4096 p) g \<longleftrightarrow> bitmapIsSet p g \<or> g = 0" using eff(1) [of g] by (simp only: singleton_iff)
  show "frameCnt (deinitRegion 0 4096 p) = frameCnt p" by (rule eff(2))
qed

lemma pmm_init_bits:
  assumes map: "aligned_map mem"
    and room: "i < 2" "i < length (availableMemArr mem)" "bitmapBytes mem \<le> uint (mr_size (availableMemArr mem ! i))"
    and mapped: "\<forall>a\<in>set (availableMemArr mem). mr_start a + hhdm \<noteq> 0"
  obtains r p a where "pmm_init raw hhdm mem emptyPMM = Inr (r, p)" "a \<in> set (availableMemArr mem)" "mr_start r = mr_start a"
    "uint (mr_size r) = bitmapBytes mem" "bitmapBytes mem \<le> uint (mr_size a)" "bitmap p = mr_start r + hhdm"
    "frameCnt p = uint (totalSize mem) div 4096"
    "free_frames p = (\<Union>a\<in>set (availableMemArr mem). range_frames a) \<inter> {0..<frameCnt p} - range_frames r - {0}"
    "\<forall>f\<in>(\<Union>a\<in>set (availableMemArr mem). range_frames a) - range_frames r - {0}. \<not> bitmapIsSet p f"
proof -
  let ?arr = "availableMemArr mem"
  define n where "n = uint (totalSize mem) div 4096"
  let ?p0 = "emptyPMM\<lparr>memorySize := totalSize mem, frameCnt := n\<rparr>"
  let ?req = "word_of_int (bitmapBytes mem) :: u64"
  have n: "0 \<le> n" "uint (totalSize mem div 4096) = n" by (simp_all add: n_def uint_div_frame pos_imp_zdiv_nonneg_iff)
  have req: "word_of_int (elementCnt ?p0 * 8) = ?req" using n by (simp add: elementCnt_div bitmapBytes_def n_def)
  have "uint (totalSize mem) < 4611686018427387904" using map by (simp add: aligned_map_def)
  then have "0 \<le> bitmapBytes mem" "bitmapBytes mem < 2 ^ 64" using n(1) by (simp_all add: bitmapBytes_def flip: n_def) (simp add: n_def)
  then have size: "uint ?req = bitmapBytes mem" by (simp add: uint_word_of_int)
  obtain j where j: "j < length ?arr" "?req \<le> mr_size (?arr ! j)"
    and found: "findBitmapRange ?req ?arr [0, 1] = Inr (Some \<lparr>mr_start = mr_start (?arr ! j), mr_size = ?req\<rparr>)"
    using findBitmapRange_found [OF room(2,1), of ?req] room(3) size by (auto simp: word_le_def)
  define r where "r = \<lparr>mr_start = mr_start (?arr ! j), mr_size = ?req\<rparr>"
  have arr: "4096 dvd uint (mr_start (?arr ! i)) \<and> uint (mr_start (?arr ! i)) + uint (mr_size (?arr ! i)) < 2 ^ 62"
    if "i < length ?arr" for i using that map by (simp add: aligned_map_def)
  have cnt: "unat (availMemArrCnt mem) = length ?arr" using map by (simp add: aligned_map_def)
  let ?p1 = "?p0\<lparr>bitmap := mr_start r + hhdm, bitmapWords := raw (mr_start r + hhdm)\<rparr>"
  let ?q = "deinitRegion 0 (totalSize mem) ?p1"
  have small: "uint (totalSize mem) < 2 ^ 62" using map by (simp add: aligned_map_def)
  note whole = initRegion_frames(2,4) [of "\<lparr>mr_start = 0, mr_size = totalSize mem\<rparr>" ?p1, simplified, OF small [simplified]]
  have all: "bitmapIsSet ?q g" if "0 \<le> g" "g < n" for g
    using whole(1) [of g] that by (auto simp: range_frames_def n_def)
  obtain p4 where p4: "initRegions ?arr [0..<unat (availMemArrCnt mem)] (?q\<lparr>usedframes := frameCnt ?q\<rparr>) = Inr p4"
    "frameCnt p4 = n" "bitmap p4 = mr_start r + hhdm"
    "\<And>g. bitmapIsSet p4 g \<longleftrightarrow> bitmapIsSet ?q g \<and> (\<forall>i\<in>set [0..<length ?arr]. g \<notin> range_frames (?arr ! i))"
    using initRegions_bits [of "[0..<length ?arr]" ?arr "?q\<lparr>usedframes := frameCnt ?q\<rparr>"] arr whole(2) cnt by auto
  let ?p5 = "deinitRegion (mr_start r) (mr_size r) p4"
  have "4096 dvd uint (mr_start r)" "uint (mr_start r) + uint (mr_size r) < 2 ^ 62"
    using arr [OF j(1)] j(2) by (simp_all add: r_def word_le_def)
  note p5 = initRegion_frames(2,4) [OF this, of p4]
  let ?p6 = "deinitRegion 0 4096 ?p5"
  have p6: "bitmapIsSet ?p6 g \<longleftrightarrow> bitmapIsSet ?p5 g \<or> g = 0" "frameCnt ?p6 = n" for g
    using p5(2) p4(2) by (simp_all add: deinitRegion_zero)
  have bits: "bitmapIsSet ?p6 g \<longleftrightarrow> bitmapIsSet ?q g \<and> g \<notin> (\<Union>a\<in>set ?arr. range_frames a) \<or> g \<in> range_frames r \<or> g = 0" for g
  proof -
    have "(\<forall>i\<in>set [0..<length ?arr]. g \<notin> range_frames (?arr ! i)) \<longleftrightarrow> (\<forall>a\<in>set ?arr. g \<notin> range_frames a)" by (auto simp: all_set_conv_all_nth)
    then show ?thesis unfolding p6(1) p5(1) p4(4) by simp
  qed
  have "pmm_init raw hhdm mem emptyPMM = Inr (r, ?p6)"
    using found mapped j(1) p4(1) req n(2)
    by (simp add: pmm_init_def Let_def emptyPMM_def r_def del: findBitmapRange.simps)
  moreover have "free_frames ?p6 = (\<Union>a\<in>set ?arr. range_frames a) \<inter> {0..<frameCnt ?p6} - range_frames r - {0}"
    using all by (auto simp: free_frames_def bits p6(2))
  ultimately show thesis using that [of r ?p6 "?arr ! j"] j size p4(3) p6(2) bits by (simp add: r_def n_def word_le_def)
qed

section \<open>The contract the virtual memory manager relies on\<close>

text \<open>
  \<open>VMM::allocPages\<close> takes frames one at a time from \<open>PMM::allocFrame\<close>. The interface: a set of
  available frame addresses, from which allocation takes one and to which release gives one back.
\<close>

fun repeat_alloc :: "('s \<Rightarrow> u64 \<times> 's) \<Rightarrow> nat \<Rightarrow> 's \<Rightarrow> u64 list \<times> 's" where
  "repeat_alloc a 0 s = ([], s)"
| "repeat_alloc a (Suc n) s =
     (let (x, s1) = a s; (xs, s2) = repeat_alloc a n s1 in (x # xs, s2))"

locale frame_allocator =
  fixes alloc :: "'s \<Rightarrow> u64 \<times> 's" and release :: "u64 \<Rightarrow> 's \<Rightarrow> 's"
    and avail :: "'s \<Rightarrow> u64 set" and managed :: "'s \<Rightarrow> u64 set" and inv :: "'s \<Rightarrow> bool"
  assumes finite_avail: "finite (avail s)"
    and avail_managed: "inv s \<Longrightarrow> avail s \<subseteq> managed s"
    and alloc_takes: "inv s \<Longrightarrow> avail s \<noteq> {} \<Longrightarrow> alloc s = (a, s') \<Longrightarrow>
      a \<in> avail s \<and> avail s' = avail s - {a} \<and> managed s' = managed s \<and> inv s'"
    and release_gives: "inv s \<Longrightarrow> a \<in> managed s \<Longrightarrow>
      avail (release a s) = insert a (avail s) \<and> managed (release a s) = managed s \<and> inv (release a s)"
begin

lemma repeat_alloc_takes:
  "inv s \<Longrightarrow> n \<le> card (avail s) \<Longrightarrow> repeat_alloc alloc n s = (xs, s') \<Longrightarrow>
    length xs = n \<and> distinct xs \<and> set xs \<subseteq> avail s \<and> avail s' = avail s - set xs \<and>
    managed s' = managed s \<and> inv s'"
proof (induction n arbitrary: s xs)
  case (Suc n)
  obtain x s1 where x: "alloc s = (x, s1)" by fastforce
  obtain ys where ys: "repeat_alloc alloc n s1 = (ys, s')" "xs = x # ys"
    using Suc.prems(3) x by (auto split: prod.splits)
  have ne: "avail s \<noteq> {}" using Suc.prems(2) by auto
  note t = alloc_takes [OF Suc.prems(1) ne x]
  have "n \<le> card (avail s1)" using t Suc.prems(2) finite_avail by simp
  then show ?case using Suc.IH [of s1 ys] t ys by auto
qed simp

lemma fold_release_gives:
  "inv s \<Longrightarrow> set xs \<subseteq> managed s \<Longrightarrow> avail (fold release xs s) = avail s \<union> set xs \<and> inv (fold release xs s)"
proof (induction xs arbitrary: s)
  case (Cons x xs)
  then show ?case using release_gives [of s x] by auto
qed simp

lemma alloc_release_restores:
  assumes "inv s" "n \<le> card (avail s)" "repeat_alloc alloc n s = (xs, s')"
  shows "avail (fold release xs s') = avail s"
proof -
  note t = repeat_alloc_takes [OF assms]
  then have "set xs \<subseteq> managed s'" using avail_managed [OF assms(1)] by auto
  then show ?thesis using fold_release_gives [of s' xs] t by auto
qed

end

definition avail_addrs :: "PMM \<Rightarrow> u64 set" where
  "avail_addrs p = frame_addr ` free_frames p"

definition managed_addrs :: "PMM \<Rightarrow> u64 set" where
  "managed_addrs p = frame_addr ` {0..<frameCnt p}"

lemma inj_frame_addr: "pmm_inv p \<Longrightarrow> inj_on frame_addr {0..<frameCnt p}"
  by (rule inj_onI) (auto simp: pmm_inv_def frame_addr_inj)

interpretation pmm: frame_allocator allocFrame freeFrame avail_addrs managed_addrs pmm_inv
proof
  fix p p' :: PMM and a :: u64
  show "finite (avail_addrs p)" by (simp add: avail_addrs_def)
  assume inv: "pmm_inv p"
  have sub: "free_frames p \<subseteq> {0..<frameCnt p}" by (auto simp: free_frames_def)
  show "avail_addrs p \<subseteq> managed_addrs p" using sub by (auto simp: avail_addrs_def managed_addrs_def)
  show "a \<in> avail_addrs p \<and> avail_addrs p' = avail_addrs p - {a} \<and> managed_addrs p' = managed_addrs p \<and> pmm_inv p'"
    if ne: "avail_addrs p \<noteq> {}" and al: "allocFrame p = (a, p')"
  proof -
    let ?f = "Min (free_frames p)"
    have ff: "free_frames p \<noteq> {}" using ne by (simp add: avail_addrs_def)
    have f: "?f \<in> free_frames p" using ff by simp
    have "a = frame_addr ?f" "p' = (bitmapSet ?f p)\<lparr>usedframes := usedframes p + 1\<rparr>"
      using al allocFrame_some [OF inv ff] by simp_all
    moreover have "frame_addr ` (free_frames p - {?f}) = frame_addr ` free_frames p - {frame_addr ?f}"
      using inj_on_subset [OF inj_frame_addr [OF inv] sub] f by (auto simp: inj_on_eq_iff)
    ultimately show ?thesis
      using f pmm_inv_set [OF inv f] by (auto simp: avail_addrs_def managed_addrs_def)
  qed
  show "avail_addrs (freeFrame a p) = insert a (avail_addrs p) \<and>
      managed_addrs (freeFrame a p) = managed_addrs p \<and> pmm_inv (freeFrame a p)"
    if "a \<in> managed_addrs p"
    using that freeFrame_effect [OF inv] by (auto simp: avail_addrs_def managed_addrs_def)
qed

section \<open>Properties\<close>

text \<open>\<open>allocFrame\<close> implements taking the least element of the set of free frames: with a free
  frame it returns the address of the lowest one, marks exactly that frame and keeps the
  invariant; without one it returns 0 and changes nothing. Clear padding bits behind the last
  frame are never handed out.
\<close>

theorem allocFrame_refines:
  assumes "pmm_inv p"
  shows "allocFrame p =
      (if free_frames p = {} then (0, p)
       else (frame_addr (Min (free_frames p)),
             (bitmapSet (Min (free_frames p)) p)\<lparr>usedframes := usedframes p + 1\<rparr>)) \<and>
    pmm_inv (snd (allocFrame p)) \<and>
    free_frames (snd (allocFrame p)) = free_frames p - {Min (free_frames p)}"
proof -
  have *: "allocFrame p =
      (if free_frames p = {} then (0, p)
       else (frame_addr (Min (free_frames p)),
             (bitmapSet (Min (free_frames p)) p)\<lparr>usedframes := usedframes p + 1\<rparr>))"
    using assms allocFrame_none allocFrame_some by simp
  moreover have "pmm_inv (snd (allocFrame p))"
    using assms * pmm_inv_set [OF assms firstFreeFrame_Min(2) [OF assms]] by simp
  ultimately show ?thesis by simp
qed

text \<open>A run of \<open>n\<close> calls of \<open>allocFrame\<close>, with \<open>n\<close> frames available, returns \<open>n\<close> pairwise
  different addresses of free frames, and giving all of them back with \<open>freeFrame\<close> restores
  the set of available addresses.
\<close>

theorem allocFrame_run:
  assumes "pmm_inv p" "n \<le> card (avail_addrs p)" "repeat_alloc allocFrame n p = (xs, p')"
  shows "length xs = n \<and> distinct xs \<and> set xs \<subseteq> avail_addrs p \<and>
    avail_addrs p' = avail_addrs p - set xs \<and> avail_addrs (fold freeFrame xs p') = avail_addrs p"
  using pmm.repeat_alloc_takes [OF assms] pmm.alloc_release_restores [OF assms] by simp

text \<open>
  C6: when \<open>allocNFrames\<close> succeeds it returns the lowest run of \<open>n\<close> clear bits of the bitmap
  and sets exactly these bits; it fails with 0 and no change when there is no such run. If the
  number of frames is a multiple of 64 (no padding bits), the run consists of frames of the
  memory and the invariant is kept.
\<close>

theorem allocNFrames_contract:
  assumes inv: "pmm_inv p" and n: "0 < n" "n \<le> elementCnt p" "usedframes p + n < frameCnt p"
  shows "(\<nexists>s. 0 \<le> s \<and> s + n \<le> elementCnt p * 64 \<and> all_free p s n) \<and> allocNFrames n p = (0, p) \<or>
    (\<exists>f p'. allocNFrames n p = (frame_addr f, p') \<and> 0 \<le> f \<and> f + n \<le> elementCnt p * 64 \<and>
       all_free p f n \<and> (\<forall>s. 0 \<le> s \<and> s < f \<longrightarrow> \<not> all_free p s n) \<and>
       (\<forall>g. bitmapIsSet p' g \<longleftrightarrow> bitmapIsSet p g \<or> f \<le> g \<and> g < f + n) \<and>
       (64 dvd frameCnt p \<longrightarrow> {f..<f + n} \<subseteq> free_frames p \<and> pmm_inv p'))"
proof -
  have nn: "0 \<le> frameCnt p" "0 \<le> n" using inv n by (simp_all add: pmm_inv_def)
  let ?f = "firstNFreeFrames p n"
  consider "?f = - 1" "\<nexists>s. 0 \<le> s \<and> s + n \<le> elementCnt p * 64 \<and> all_free p s n"
    | "0 \<le> ?f" "?f + n \<le> elementCnt p * 64" "all_free p ?f n" "\<forall>s. 0 \<le> s \<and> s < ?f \<longrightarrow> \<not> all_free p s n"
    using firstNFreeFrames_spec [OF nn n(2)] by blast
  then show ?thesis
  proof cases
    case 1
    then show ?thesis using n by (simp add: allocNFrames_def)
  next
    case 2
    let ?p = "markFrames ?f (nat n) p"
    have a: "allocNFrames n p = (frame_addr ?f, ?p)"
      using 2 n by (simp add: allocNFrames_def frame_addr_def Let_def)
    have sub: "{?f..<?f + n} \<subseteq> free_frames p" if "64 dvd frameCnt p"
    proof -
      have "elementCnt p * 64 = frameCnt p" using that nn by (auto simp: elementCnt_div elim!: dvdE)
      then show ?thesis using 2 by (auto simp: free_frames_def all_free_def)
    qed
    have "pmm_inv ?p" if "64 dvd frameCnt p"
      using markFrames_inv [OF inv, of ?f "nat n"] sub [OF that] n by simp
    then show ?thesis
      using 2 a sub n by (intro disjI2 exI [of _ ?f] exI [of _ ?p]) (simp add: markFrames_effect)
  qed
qed

section \<open>Concrete managers\<close>

text \<open>Small states on which the properties are evaluated.\<close>

definition pmm_of :: "int \<Rightarrow> int \<Rightarrow> (int \<Rightarrow> u64) \<Rightarrow> PMM" where
  "pmm_of used cnt ws = \<lparr>memorySize = word_of_int (cnt * 4096), usedframes = used, frameCnt = cnt,
     bitmap = 0xffff800000001000, bitmapWords = ws\<rparr>"

lemma pmm_inv_code:
  "pmm_inv p \<longleftrightarrow> 0 \<le> frameCnt p \<and> frameCnt p < 2 ^ 52 \<and>
     usedframes p = int (length (filter (bitmapIsSet p) [0..frameCnt p - 1]))"
proof -
  have "{f. 0 \<le> f \<and> f < frameCnt p \<and> bitmapIsSet p f} = set (filter (bitmapIsSet p) [0..frameCnt p - 1])"
    by auto
  then have "card {f. 0 \<le> f \<and> f < frameCnt p \<and> bitmapIsSet p f} = length (filter (bitmapIsSet p) [0..frameCnt p - 1])"
    by (simp only: distinct_card distinct_filter distinct_upto)
  then show ?thesis by (simp add: pmm_inv_def)
qed

lemma free_frames_code: "free_frames p = set (filter (\<lambda>f. \<not> bitmapIsSet p f) [0..frameCnt p - 1])"
  by (auto simp: free_frames_def)

definition pmm_small :: PMM where "pmm_small = pmm_of 2 5 (\<lambda>_. 0xa)"

lemma pmm_small_inv: "pmm_inv pmm_small"
  unfolding pmm_inv_code by code_simp

lemma pmm_small_free: "free_frames pmm_small = {0, 2, 4}"
  unfolding free_frames_code by code_simp

text \<open>66 frames, of which 1, 3 and 65 are free: the bits 66 to 127 are padding.\<close>

definition pmm_frag :: PMM where
  "pmm_frag = pmm_of 63 66 (\<lambda>i. if i = 0 then 0xfffffffffffffff5 else 1)"

lemma pmm_frag_inv: "pmm_inv pmm_frag"
  unfolding pmm_inv_code by code_simp

lemma pmm_frag_alloc: "firstNFreeFrames pmm_frag 2 = 65"
  by code_simp

text \<open>The witnesses of the properties above.\<close>

theorem allocFrame_refines_witness:
  "allocFrame pmm_small = (frame_addr 0, (bitmapSet 0 pmm_small)\<lparr>usedframes := usedframes pmm_small + 1\<rparr>) \<and>
   free_frames (snd (allocFrame pmm_small)) = {2, 4}"
  using allocFrame_refines [OF pmm_small_inv] by (simp add: pmm_small_free)

theorem allocFrame_run_witness:
  "distinct (fst (repeat_alloc allocFrame 3 pmm_small)) \<and>
   avail_addrs (fold freeFrame (fst (repeat_alloc allocFrame 3 pmm_small))
     (snd (repeat_alloc allocFrame 3 pmm_small))) = avail_addrs pmm_small"
proof -
  have "card (avail_addrs pmm_small) = 3"
    unfolding avail_addrs_def pmm_small_free by (simp add: frame_addr_def)
  then show ?thesis
    using allocFrame_run [OF pmm_small_inv, of 3 "fst (repeat_alloc allocFrame 3 pmm_small)"
      "snd (repeat_alloc allocFrame 3 pmm_small)"] by simp
qed

theorem allocNFrames_contract_witness:
  "\<exists>f p'. allocNFrames 2 pmm_frag = (frame_addr f, p') \<and> all_free pmm_frag f 2"
proof -
  have n: "(0 :: int) < 2" "2 \<le> elementCnt pmm_frag" "usedframes pmm_frag + 2 < frameCnt pmm_frag"
    by (simp, code_simp, code_simp)
  have "all_free pmm_frag 65 2"
    using firstNFreeFrames_spec [of pmm_frag 2] n pmm_frag_alloc pmm_frag_inv by (simp add: pmm_inv_def)
  moreover have "65 + 2 \<le> elementCnt pmm_frag * 64" by code_simp
  ultimately have "\<exists>s. 0 \<le> s \<and> s + 2 \<le> elementCnt pmm_frag * 64 \<and> all_free pmm_frag s 2"
    by (intro exI [of _ 65]) simp
  then show ?thesis using allocNFrames_contract [OF pmm_frag_inv n] by blast
qed

text \<open>Without the multiple-of-64 condition the contract fails: in a consistent state
  \<open>allocNFrames\<close> returns a run that contains frame 66 of a memory of 66 frames (numbered 0
  to 65), because \<open>firstNFreeFrames\<close> also scans the padding bits of the last element, and
  the invariant is lost.
\<close>

theorem allocNFrames_past_memory:
  "pmm_inv pmm_frag \<and> frameCnt pmm_frag = 66 \<and>
   fst (allocNFrames 2 pmm_frag) = frame_addr 65 \<and>
   bitmapIsSet (snd (allocNFrames 2 pmm_frag)) 66 \<and> \<not> pmm_inv (snd (allocNFrames 2 pmm_frag))"
proof -
  have fields: "usedframes pmm_frag = 63" "frameCnt pmm_frag = 66" by (simp_all add: pmm_frag_def pmm_of_def)
  have a: "allocNFrames 2 pmm_frag = (frame_addr 65, markFrames 65 2 pmm_frag)"
    using fields pmm_frag_alloc by (simp add: allocNFrames_def frame_addr_def)
  have free: "\<not> bitmapIsSet pmm_frag 65" by code_simp
  have "(bitmapIsSet pmm_frag f \<or> 65 \<le> f \<and> f < 67) = (bitmapIsSet pmm_frag f \<or> f = 65)"
    if "f < 66" for f using that by auto
  then have "card {f. 0 \<le> f \<and> f < 66 \<and> bitmapIsSet (markFrames 65 2 pmm_frag) f} = 64"
    using card_int_range_insert [of 65 66 "bitmapIsSet pmm_frag"] free pmm_frag_inv fields
    by (simp add: markFrames_effect pmm_inv_def cong: conj_cong)
  then have "\<not> pmm_inv (markFrames 65 2 pmm_frag)"
    using fields by (simp add: pmm_inv_def markFrames_effect)
  then show ?thesis using a fields pmm_frag_inv by (simp add: markFrames_effect)
qed

definition memmap_small :: PhysicalMemMap where
  "memmap_small = \<lparr>totalSize = 0x80000,
     availableMemArr = [\<lparr>mr_start = 0x1000, mr_size = 0x1f000\<rparr>, \<lparr>mr_start = 0x40000, mr_size = 0x40000\<rparr>],
     availMemArrCnt = 2, kernelStart = 0x20000, kernelSize = 0x10000\<rparr>"

theorem pmm_init_correct_witness:
  "\<exists>r p. pmm_init (\<lambda>_ _. 0) 0xffff800000000000 memmap_small emptyPMM = Inr (r, p) \<and> pmm_inv p \<and> frameCnt p = 128"
proof -
  have "wf_memmap memmap_small"
    by (simp add: wf_memmap_def wf_range_def memmap_small_def)
  moreover have "bitmapBytes memmap_small \<le> uint (mr_size (availableMemArr memmap_small ! 0))"
    by (simp add: bitmapBytes_def memmap_small_def)
  moreover have "\<forall>a\<in>set (availableMemArr memmap_small). mr_start a + 0xffff800000000000 \<noteq> 0"
    "0 < length (availableMemArr memmap_small)"
    by (simp_all add: memmap_small_def)
  moreover have "uint (totalSize memmap_small) div 4096 = 128" by (simp add: memmap_small_def)
  moreover have "(0 :: nat) < 2" by simp
  ultimately show ?thesis
    using pmm_init_correct [of memmap_small 0 "0xffff800000000000" "\<lambda>_ _. 0"] by (metis (no_types))
qed

end
