(* ===== verification/Cpp_Vector.thy ===== *)
theory Cpp_Vector
  imports Dimos_Prelude "HOL-Library.Multiset"
begin

text \<open>
  The growable array \<open>Vector<T>\<close> of \<open>kernel/include/kernel/cpp/vector.hpp\<close>: an array of
  \<open>capacity\<close> elements of which the first \<open>m_size\<close> are in use. \<open>T{}\<close>, the value a fresh slot
  holds, is the argument \<open>d\<close>. \<open>size_t\<close> counts are \<^typ>\<open>nat\<close>. A failed \<open>assert\<close> (a panic) and an
  access outside the array are \<^const>\<open>None\<close>.
\<close>

section \<open>Data and operations\<close>

record 'a Vector =
  vdata :: "'a list"
  m_size :: nat
  capacity :: nat

definition vec_empty :: "'a Vector" where
  "vec_empty = \<lparr>vdata = [], m_size = 0, capacity = 0\<rparr>"

definition vec_fill :: "'a \<Rightarrow> 'a Vector \<Rightarrow> 'a Vector" where
  "vec_fill val v = v\<lparr>vdata := fold (\<lambda>i a. a[i := val]) [0..<m_size v] (vdata v)\<rparr>"

definition vec_new :: "'a \<Rightarrow> nat \<Rightarrow> 'a \<Rightarrow> 'a Vector" where
  "vec_new d sz val = vec_fill val \<lparr>vdata = replicate sz d, m_size = sz, capacity = sz\<rparr>"

text \<open>The body of \<open>realloc\<close> behind its assertion: a new array, moved elements, fresh rest.\<close>

definition vec_move :: "'a \<Rightarrow> nat \<Rightarrow> nat \<Rightarrow> 'a Vector \<Rightarrow> 'a Vector" where
  "vec_move d newSize newCapacity v =
     (let newData = replicate newCapacity d;
          minSize = min (m_size v) newSize;
          moved = fold (\<lambda>i a. a[i := vdata v ! i]) [0..<minSize] newData;
          filled = fold (\<lambda>i a. a[i := d]) [minSize..<newSize] moved
      in \<lparr>vdata = filled, m_size = newSize, capacity = newCapacity\<rparr>)"

definition vec_realloc :: "'a \<Rightarrow> nat \<Rightarrow> nat \<Rightarrow> 'a Vector \<Rightarrow> 'a Vector option" where
  "vec_realloc d newSize newCapacity v =
     (if newSize \<le> newCapacity then Some (vec_move d newSize newCapacity v) else None)"

definition vec_resize :: "'a \<Rightarrow> nat \<Rightarrow> 'a Vector \<Rightarrow> 'a Vector option" where
  "vec_resize d newSize v =
     (let newCapacity = (if newSize > capacity v then capacity v * 2 + 1 else capacity v)
      in vec_realloc d newSize newCapacity v)"

text \<open>
  In \<open>push_back\<close> the assertion of \<open>realloc\<close> is \<open>m_size \<le> m_size * 2 + 1\<close>
  (\<open>vec_realloc_push\<close> below), so growing never panics and the operation is total.
\<close>

definition vec_push_back :: "'a \<Rightarrow> 'a \<Rightarrow> 'a Vector \<Rightarrow> 'a Vector" where
  "vec_push_back d val v =
     (let v1 = (if capacity v = m_size v then vec_move d (m_size v) (m_size v * 2 + 1) v else v)
      in v1\<lparr>vdata := (vdata v1)[m_size v1 := val], m_size := m_size v1 + 1\<rparr>)"

definition vec_pop_back :: "'a Vector \<Rightarrow> 'a Vector option" where
  "vec_pop_back v = (if m_size v > 0 then Some (v\<lparr>m_size := m_size v - 1\<rparr>) else None)"

definition vec_back :: "'a Vector \<Rightarrow> 'a option" where
  "vec_back v = (if m_size v = 0 then None else Some (vdata v ! (m_size v - 1)))"

definition vec_at :: "nat \<Rightarrow> 'a Vector \<Rightarrow> 'a option" where
  "vec_at idx v = (if idx < m_size v then Some (vdata v ! idx) else None)"

definition vec_eq :: "'a Vector \<Rightarrow> 'a Vector \<Rightarrow> bool" where
  "vec_eq v w \<longleftrightarrow> m_size v = m_size w \<and> list_all (\<lambda>i. vdata v ! i = vdata w ! i) [0..<m_size v]"

definition vec_copy :: "'a \<Rightarrow> 'a Vector \<Rightarrow> 'a Vector" where
  "vec_copy d v =
     \<lparr>vdata = fold (\<lambda>i a. a[i := vdata v ! i]) [0..<m_size v] (replicate (capacity v) d),
      m_size = m_size v, capacity = capacity v\<rparr>"

text \<open>\<open>npos\<close> is \<open>-1\<close>.\<close>

definition vec_find :: "'a \<Rightarrow> nat \<Rightarrow> 'a Vector \<Rightarrow> int" where
  "vec_find c begin_at v =
     (case List.find (\<lambda>i. vdata v ! i = c) [begin_at..<m_size v] of None \<Rightarrow> - 1 | Some i \<Rightarrow> int i)"

definition vec_fastErase :: "int \<Rightarrow> 'a Vector \<Rightarrow> 'a Vector option" where
  "vec_fastErase pos v =
     (if pos = - 1 then Some v
      else vec_pop_back
        (if pos \<noteq> int (m_size v) - 1
         then v\<lparr>vdata := swap_at (nat pos) (m_size v - 1) (vdata v)\<rparr> else v))"

definition vec_reverse :: "'a Vector \<Rightarrow> 'a Vector" where
  "vec_reverse v =
     v\<lparr>vdata := fold (\<lambda>i. swap_at i (m_size v - Suc i)) [0..<m_size v div 2] (vdata v)\<rparr>"

section \<open>Abstraction and invariant\<close>

definition vlist :: "'a Vector \<Rightarrow> 'a list" where
  "vlist v = take (m_size v) (vdata v)"

definition vec_inv :: "'a Vector \<Rightarrow> bool" where
  "vec_inv v \<longleftrightarrow> capacity v = length (vdata v) \<and> m_size v \<le> capacity v"

lemma length_vlist [simp]: "vec_inv v \<Longrightarrow> length (vlist v) = m_size v"
  by (simp add: vlist_def vec_inv_def)

lemma vec_empty_spec [simp]: "vec_inv vec_empty" "vlist vec_empty = []"
  by (simp_all add: vec_inv_def vlist_def vec_empty_def)

lemma vec_new_fields [simp]:
  "vdata (vec_new d n x) = replicate n x" "m_size (vec_new d n x) = n" "capacity (vec_new d n x) = n"
  by (simp_all add: vec_new_def vec_fill_def fold_fill)

lemma vec_new_spec: "vec_inv (vec_new d n x)" "vlist (vec_new d n x) = replicate n x"
  by (simp_all add: vec_inv_def vlist_def)

lemma vec_move_spec:
  assumes "vec_inv v" "newSize \<le> newCapacity"
  shows "vdata (vec_move d newSize newCapacity v) =
      take (min (m_size v) newSize) (vdata v) @ replicate (newCapacity - min (m_size v) newSize) d"
proof -
  let ?m = "min (m_size v) newSize"
  have m: "?m \<le> length (vdata v)" "?m \<le> newCapacity" "?m \<le> newSize"
    using assms by (auto simp: vec_inv_def)
  have "vdata (vec_move d newSize newCapacity v) =
      take ?m (vdata v) @ replicate (newSize - ?m) d @ replicate (newCapacity - newSize) d"
    using m assms by (simp add: vec_move_def Let_def fold_copy fold_fill drop_replicate)
  then show ?thesis using m assms by (simp add: replicate_add [symmetric])
qed

lemma vec_realloc_push: "vec_realloc d (m_size v) (m_size v * 2 + 1) v = Some (vec_move d (m_size v) (m_size v * 2 + 1) v)"
  by (simp add: vec_realloc_def)

lemma vec_push_back_spec [vec_simps]:
  assumes "vec_inv v"
  shows "vec_inv (vec_push_back d x v)" "vlist (vec_push_back d x v) = vlist v @ [x]"
proof -
  let ?v = "if capacity v = m_size v then vec_move d (m_size v) (m_size v * 2 + 1) v else v"
  have len: "m_size ?v = m_size v" "capacity ?v = length (vdata ?v)" "m_size v < length (vdata ?v)"
    "take (m_size v) (vdata ?v) = vlist v"
    using assms by (auto simp: vec_inv_def vlist_def vec_move_spec) (auto simp: vec_move_def Let_def)
  show "vec_inv (vec_push_back d x v)" using len by (simp add: vec_push_back_def vec_inv_def Let_def)
  show "vlist (vec_push_back d x v) = vlist v @ [x]"
    using len unfolding vec_push_back_def Let_def vlist_def
    by (simp add: take_Suc_conv_app_nth)
qed

lemma vec_pop_back_spec [vec_simps]:
  assumes "vec_inv v"
  shows "vec_pop_back v = None \<longleftrightarrow> vlist v = []"
    and "vec_pop_back v = Some v' \<Longrightarrow> vec_inv v' \<and> vlist v' = butlast (vlist v)"
  using assms
  by (auto simp: vec_pop_back_def vlist_def vec_inv_def butlast_take min_def split: if_splits)

lemma vec_back_spec [vec_simps]:
  "vec_inv v \<Longrightarrow> vec_back v = (if vlist v = [] then None else Some (last (vlist v)))"
  by (auto simp: vec_back_def vlist_def vec_inv_def last_conv_nth min_def)

lemma vec_at_spec [vec_simps]:
  "vec_inv v \<Longrightarrow> vec_at i v = (if i < length (vlist v) then Some (vlist v ! i) else None)"
  by (auto simp: vec_at_def vlist_def vec_inv_def min_def)

lemma vec_eq_spec [vec_simps]: "vec_inv v \<Longrightarrow> vec_inv w \<Longrightarrow> vec_eq v w \<longleftrightarrow> vlist v = vlist w"
  by (auto simp: vec_eq_def vlist_def vec_inv_def list_eq_iff_nth_eq list_all_iff)

lemma vec_copy_spec [vec_simps]: "vec_inv v \<Longrightarrow> vec_inv (vec_copy d v) \<and> vlist (vec_copy d v) = vlist v"
  by (auto simp: vec_copy_def vlist_def vec_inv_def fold_copy)

lemma vec_resize_spec:
  assumes "vec_inv v"
  shows "vec_resize d n v = None \<longleftrightarrow> capacity v * 2 + 1 < n"
    and "vec_resize d n v = Some v' \<Longrightarrow>
      vec_inv v' \<and> vlist v' = take n (vlist v) @ replicate (n - length (vlist v)) d"
proof -
  show "vec_resize d n v = None \<longleftrightarrow> capacity v * 2 + 1 < n"
    by (auto simp: vec_resize_def vec_realloc_def Let_def)
  assume r: "vec_resize d n v = Some v'"
  then obtain c where c: "n \<le> c" "v' = vec_move d n c v"
    by (auto simp: vec_resize_def vec_realloc_def Let_def split: if_splits)
  note data = vec_move_spec [OF assms c(1), of d]
  have "m_size v' = n" "capacity v' = c" using c by (simp_all add: vec_move_def Let_def)
  then show "vec_inv v' \<and> vlist v' = take n (vlist v) @ replicate (n - length (vlist v)) d"
    using data c assms by (auto simp: vec_inv_def vlist_def min_def)
qed

lemma vec_find_spec [vec_simps]:
  assumes "vec_inv v"
  shows "vec_find c b v =
    (if \<exists>i. b \<le> i \<and> i < length (vlist v) \<and> vlist v ! i = c
     then int (LEAST i. b \<le> i \<and> i < length (vlist v) \<and> vlist v ! i = c) else - 1)"
proof -
  let ?P = "\<lambda>i. b \<le> i \<and> i < length (vlist v) \<and> vlist v ! i = c"
  have P: "?P i \<longleftrightarrow> i \<in> set [b..<m_size v] \<and> vdata v ! i = c" for i
    using assms by (auto simp: vlist_def vec_inv_def)
  show ?thesis
  proof (cases "List.find (\<lambda>i. vdata v ! i = c) [b..<m_size v]")
    case None
    then have "\<nexists>i. ?P i" unfolding P find_None_iff by auto
    then show ?thesis using None by (auto simp: vec_find_def)
  next
    case (Some i)
    then obtain k where k: "k < m_size v - b" "i = b + k" "vdata v ! i = c"
      "\<forall>j<k. vdata v ! (b + j) \<noteq> c"
      unfolding find_Some_iff by auto
    have "(LEAST i. ?P i) = i"
    proof (rule Least_equality)
      show "?P i" unfolding P using k by simp
      fix j assume "?P j"
      then have "b \<le> j" "vdata v ! (b + (j - b)) = c" unfolding P by auto
      then have "\<not> j - b < k" using k(4) by blast
      then show "i \<le> j" using k \<open>b \<le> j\<close> by simp
    qed
    moreover have "?P i" unfolding P using k by simp
    ultimately show ?thesis using Some by (auto simp: vec_find_def)
  qed
qed

lemma vec_reverse_spec [vec_simps]: "vec_inv v \<Longrightarrow> vec_inv (vec_reverse v) \<and> vlist (vec_reverse v) = rev (vlist v)"
  by (simp add: vec_reverse_def vec_inv_def vlist_def fold_reverse)

lemma vec_fastErase_spec:
  assumes "vec_inv v" "0 \<le> pos" "pos < int (length (vlist v))"
  shows "\<exists>v'. vec_fastErase pos v = Some v' \<and> vec_inv v' \<and>
    vlist v' = butlast ((vlist v)[nat pos := last (vlist v)])"
proof -
  let ?n = "m_size v"
  have n: "0 < ?n" "nat pos < ?n" "?n \<le> length (vdata v)" "capacity v = length (vdata v)"
    using assms by (auto simp: vec_inv_def)
  have "vlist v \<noteq> []" using assms(2,3) by (cases "vlist v") simp_all
  then have last: "last (vlist v) = vdata v ! (?n - 1)"
    using n by (simp add: vlist_def last_conv_nth min_def)
  let ?w = "if pos \<noteq> int ?n - 1 then v\<lparr>vdata := swap_at (nat pos) (?n - 1) (vdata v)\<rparr> else v"
  have w: "vec_inv ?w" "m_size ?w = ?n" using assms by (auto simp: vec_inv_def)
  obtain v' where v': "vec_pop_back ?w = Some v'" using w n by (simp add: vec_pop_back_def)
  have "butlast (vlist ?w) = butlast ((vlist v)[nat pos := last (vlist v)])"
    using n last by (auto simp: vlist_def swap_at_def butlast_take butlast_list_update take_update_swap
        list_update_beyond)
  then show ?thesis using vec_pop_back_spec(2) [OF w(1) v'] v' assms by (auto simp: vec_fastErase_def)
qed

lemma mset_butlast_update:
  assumes "i < length xs"
  shows "mset (butlast (xs[i := last xs])) = mset xs - {#xs ! i#}"
proof (cases "i = length xs - 1")
  case True
  have ne: "xs \<noteq> []" using assms by auto
  then have "xs[i := last xs] = xs" using True by (simp add: last_conv_nth)
  moreover have "mset xs = add_mset (last xs) (mset (butlast xs))"
    using ne by (metis append_butlast_last_id mset_append mset_single_iff_right union_mset_add_mset_right add_0_right)
  ultimately show ?thesis using True ne by (simp add: last_conv_nth)
next
  case False
  then obtain ys z where xs: "xs = ys @ [z]" using assms by (cases xs rule: rev_cases) auto
  then have i: "i < length ys" using assms False by auto
  have "mset (ys[i := z]) = add_mset z (mset ys - {#ys ! i#})" using i by (simp add: mset_update)
  then show ?thesis using xs i by (simp add: list_update_append nth_append)
qed

section \<open>The sequence interface\<close>

text \<open>
  Strings, wait queues and thread tables use a Vector through the contract of a stack of values:
  each operation is the list operation on the represented sequence.
\<close>

locale stack_seq =
  fixes empty :: 's and push :: "'a \<Rightarrow> 's \<Rightarrow> 's" and pop :: "'s \<Rightarrow> 's option" and top :: "'s \<Rightarrow> 'a option"
    and items :: "'s \<Rightarrow> 'a list" and inv :: "'s \<Rightarrow> bool"
  assumes empty_law: "inv empty \<and> items empty = []"
    and push_law: "inv s \<Longrightarrow> inv (push x s) \<and> items (push x s) = items s @ [x]"
    and pop_none: "inv s \<Longrightarrow> pop s = None \<longleftrightarrow> items s = []"
    and pop_some: "inv s \<Longrightarrow> pop s = Some s' \<Longrightarrow> inv s' \<and> items s' = butlast (items s)"
    and top_law: "inv s \<Longrightarrow> top s = (if items s = [] then None else Some (last (items s)))"
begin

lemma fold_push: "inv s \<Longrightarrow> inv (fold push xs s) \<and> items (fold push xs s) = items s @ xs"
  by (induction xs arbitrary: s) (simp_all add: push_law)

lemma pop_push:
  assumes "inv s"
  obtains s' where "pop (push x s) = Some s'" "inv s'" "items s' = items s" "top (push x s) = Some x"
proof -
  have p: "inv (push x s)" "items (push x s) = items s @ [x]" using push_law [OF assms] by auto
  then obtain s' where s': "pop (push x s) = Some s'" using pop_none [OF p(1)] by (cases "pop (push x s)") auto
  show thesis using that [OF s'] pop_some [OF p(1) s'] p top_law [OF p(1)] by simp
qed

end

interpretation vec: stack_seq vec_empty "vec_push_back d" vec_pop_back vec_back vlist vec_inv
  by unfold_locales (use vec_pop_back_spec in \<open>auto simp: vec_push_back_spec vec_back_spec\<close>)

section \<open>Properties\<close>

text \<open>
  C39: \<open>push_back\<close> appends to the represented sequence whatever the capacity is (growing the
  array first when it is full), and \<open>pop_back\<close> after it succeeds and gives the former sequence
  back, with \<open>back\<close> reading the pushed element in between.
\<close>

theorem vec_push_back_correct:
  assumes "vec_inv v"
  shows "vec_inv (vec_push_back d x v) \<and> vlist (vec_push_back d x v) = vlist v @ [x] \<and>
    vec_back (vec_push_back d x v) = Some x \<and>
    (\<exists>v'. vec_pop_back (vec_push_back d x v) = Some v' \<and> vec_inv v' \<and> vlist v' = vlist v)"
  using vec.push_law [OF assms] by (metis vec.pop_push [OF assms])

text \<open>\<open>fastErase\<close> at the position \<open>find\<close> returns removes exactly one occurrence of the element
  (as a multiset of elements) and fails never; where \<open>find\<close> returns \<open>npos\<close> nothing changes.
\<close>

theorem vec_erase_found:
  assumes "vec_inv v"
  shows "\<exists>v'. vec_fastErase (vec_find x 0 v) v = Some v' \<and> vec_inv v' \<and>
    mset (vlist v') = mset (vlist v) - {#x#}"
proof (cases "x \<in> set (vlist v)")
  case True
  let ?P = "\<lambda>i. i < length (vlist v) \<and> vlist v ! i = x"
  have "\<exists>i. ?P i" using True by (simp add: in_set_conv_nth)
  then have L: "?P (Least ?P)" by (rule LeastI_ex)
  have f: "vec_find x 0 v = int (Least ?P)" using \<open>\<exists>i. ?P i\<close> by (simp add: vec_find_spec [OF assms])
  obtain v' where v': "vec_fastErase (vec_find x 0 v) v = Some v'" "vec_inv v'"
    "vlist v' = butlast ((vlist v)[Least ?P := last (vlist v)])"
    using vec_fastErase_spec [OF assms, of "int (Least ?P)"] L f by auto
  then show ?thesis using mset_butlast_update [of "Least ?P" "vlist v"] L by auto
next
  case False
  then have "vec_find x 0 v = - 1" by (auto simp: vec_find_spec [OF assms])
  then show ?thesis using False assms by (auto simp: vec_fastErase_def)
qed

text \<open>\<open>resize\<close> panics exactly when the requested size exceeds twice the capacity plus one
  (the doubled capacity is not raised to the requested size); otherwise it keeps the first
  elements and pads with default values.
\<close>

theorem vec_resize_panics:
  assumes "vec_inv v"
  shows "(vec_resize d n v = None \<longleftrightarrow> capacity v * 2 + 1 < n) \<and>
    (\<forall>v'. vec_resize d n v = Some v' \<longrightarrow>
       vec_inv v' \<and> vlist v' = take n (vlist v) @ replicate (n - length (vlist v)) d)"
  using vec_resize_spec [OF assms] by blast

definition vec_example :: "nat Vector" where
  "vec_example = \<lparr>vdata = [7, 8, 9, 0], m_size = 3, capacity = 4\<rparr>"

lemma vec_example_inv: "vec_inv vec_example" "vlist vec_example = [7, 8, 9]"
  by (simp_all add: vec_inv_def vec_example_def vlist_def)

theorem vec_push_back_correct_witness:
  "vlist (vec_push_back 0 5 vec_example) = [7, 8, 9, 5] \<and> vec_back (vec_push_back 0 5 vec_example) = Some 5"
  using vec_push_back_correct [OF vec_example_inv(1), of 0 5] by (simp add: vec_example_inv)

theorem vec_erase_found_witness:
  "\<exists>v'. vec_fastErase (vec_find 7 0 vec_example) vec_example = Some v' \<and> mset (vlist v') = {#8, 9#}"
  using vec_erase_found [OF vec_example_inv(1), of 7] by (simp add: vec_example_inv) blast

theorem vec_resize_panics_witness: "vec_resize 0 10 vec_example = None \<and> vec_resize 0 9 vec_example \<noteq> None"
  using vec_resize_panics [OF vec_example_inv(1), of 0 10] vec_resize_panics [OF vec_example_inv(1), of 0 9]
  by (simp add: vec_example_def)

end
