(* ===== verification/Cpp_String.thy ===== *)
theory Cpp_String
  imports Cpp_Vector
begin

text \<open>
  The zero-terminated \<open>String\<close> of \<open>kernel/include/kernel/cpp/string.hpp\<close>, a \<open>Vector<char>\<close> whose
  last element is the terminator. Operations that reach an assertion of the Vector or an element
  outside its array return \<^const>\<open>None\<close>.
\<close>

section \<open>Operations\<close>

type_synonym Str = "char Vector"

abbreviation NUL :: char where "NUL \<equiv> CHR 0x00"

definition str_set_back :: "char \<Rightarrow> Str \<Rightarrow> Str option" where
  "str_set_back c v = (if m_size v = 0 then None else Some (v\<lparr>vdata := (vdata v)[m_size v - 1 := c]\<rparr>))"

definition str_blank :: "nat \<Rightarrow> Str option" where
  "str_blank sz = str_set_back NUL (vec_new NUL (sz + 1) NUL)"

definition str_of :: "string \<Rightarrow> Str option" where
  "str_of s =
     (let v = vec_new NUL (length s + 1) NUL
      in str_set_back NUL (v\<lparr>vdata := fold (\<lambda>i a. a[i := s ! i]) [0..<length s] (vdata v)\<rparr>))"

text \<open>\<open>size()\<close> is \<open>data.size() - 1\<close> in \<open>size_t\<close>, which wraps for an empty Vector.\<close>

definition str_size :: "Str \<Rightarrow> nat" where
  "str_size v = (if m_size v = 0 then 2 ^ 64 - 1 else m_size v - 1)"

definition str_push_back :: "char \<Rightarrow> Str \<Rightarrow> Str option" where
  "str_push_back c v = map_option (vec_push_back NUL NUL) (str_set_back c v)"

definition str_pop_back :: "Str \<Rightarrow> Str option" where
  "str_pop_back v = Option.bind (vec_pop_back v) (str_set_back NUL)"

definition str_append :: "Str \<Rightarrow> Str \<Rightarrow> Str option" where
  "str_append v rhs =
     map_option
       (\<lambda>v1. vec_push_back NUL NUL (fold (vec_push_back NUL) (take (str_size rhs) (vdata rhs)) v1))
       (vec_pop_back v)"

definition str_plus :: "Str \<Rightarrow> Str \<Rightarrow> Str option" where
  "str_plus v rhs = str_append (vec_copy NUL v) rhs"

definition str_eq :: "Str \<Rightarrow> Str \<Rightarrow> bool" where
  "str_eq v w = vec_eq v w"

definition str_back :: "Str \<Rightarrow> char option" where
  "str_back v = (if str_size v - 1 < length (vdata v) \<and> 0 < str_size v then Some (vdata v ! (str_size v - 1)) else None)"

definition str_substr :: "nat \<Rightarrow> nat \<Rightarrow> Str \<Rightarrow> Str option" where
  "str_substr offset sz v =
     (if length (vdata v) < offset + sz then None
      else map_option
        (\<lambda>res. res\<lparr>vdata := fold (\<lambda>i a. a[i := vdata v ! (i + offset)]) [0..<sz] (vdata res)\<rparr>)
        (str_blank sz))"

definition str_find :: "char \<Rightarrow> nat \<Rightarrow> Str \<Rightarrow> int" where
  "str_find c begin_at v =
     (let pos = vec_find c begin_at v
      in if pos = - 1 \<or> int (str_size v) \<le> pos then - 1 else pos)"

partial_function (option) str_split_loop ::
  "char \<Rightarrow> Str \<Rightarrow> nat \<Rightarrow> int \<Rightarrow> Str Vector \<Rightarrow> (nat \<times> Str Vector) option" where
  "str_split_loop delim v l r res =
     (if r = - 1 then Some (l, res)
      else Option.bind (str_substr l (nat r - l) v)
        (\<lambda>t. str_split_loop delim v (nat r + 1) (str_find delim (nat r + 1) v) (vec_push_back vec_empty t res)))"

definition str_split :: "char \<Rightarrow> Str \<Rightarrow> Str Vector option" where
  "str_split delim v =
     Option.bind (str_split_loop delim v 0 (str_find delim 0 v) vec_empty)
       (\<lambda>(l, res). if str_size v = 0 \<or> l \<noteq> str_size v
          then map_option (\<lambda>t. vec_push_back vec_empty t res) (str_substr l (str_size v - l) v)
          else Some res)"

definition str_reverse :: "Str \<Rightarrow> Str" where
  "str_reverse v = v\<lparr>vdata := fold (\<lambda>i. swap_at i (str_size v - Suc i)) [0..<str_size v div 2] (vdata v)\<rparr>"

function stoi_loop :: "int \<Rightarrow> Str \<Rightarrow> Str option" where
  "stoi_loop n res =
     (if n > 0 then
        case str_push_back (char_of (48 + nat (n mod 10))) res of
          None \<Rightarrow> None
        | Some res' \<Rightarrow> stoi_loop (n div 10) res'
      else Some res)"
  by pat_completeness auto
termination
  by (relation "measure (\<lambda>(n, res). nat n)") auto

declare stoi_loop.simps [simp del]

definition stoi :: "int \<Rightarrow> Str option" where
  "stoi n = map_option str_reverse (Option.bind (str_of []) (stoi_loop n))"

section \<open>Abstraction\<close>

definition str :: "Str \<Rightarrow> string" where
  "str v = butlast (vlist v)"

definition str_inv :: "Str \<Rightarrow> bool" where
  "str_inv v \<longleftrightarrow> vec_inv v \<and> vlist v = str v @ [NUL]"

lemma str_invD:
  assumes "str_inv v"
  shows "vec_inv v" "vlist v = str v @ [NUL]" "m_size v = Suc (length (str v))"
    "str_size v = length (str v)" "take (length (str v)) (vdata v) = str v" "length (str v) < length (vdata v)"
proof -
  show v: "vec_inv v" "vlist v = str v @ [NUL]" using assms by (auto simp: str_inv_def)
  have "length (vlist v) = Suc (length (str v))" by (subst v(2)) simp
  then show m: "m_size v = Suc (length (str v))" using v(1) by (metis length_vlist)
  then show "str_size v = length (str v)" by (simp add: str_size_def)
  have "take (length (str v)) (vlist v) = str v" by (subst v(2)) simp
  then show "take (length (str v)) (vdata v) = str v" using m by (simp add: vlist_def min_def)
  show "length (str v) < length (vdata v)" using v m by (simp add: vec_inv_def)
qed

lemma str_invI: "vec_inv v \<Longrightarrow> vlist v = s @ [NUL] \<Longrightarrow> str_inv v \<and> str v = s"
  by (simp add: str_inv_def str_def)

lemma str_set_back_spec:
  assumes "vec_inv v" "vlist v \<noteq> []"
  shows "\<exists>w. str_set_back c v = Some w \<and> vec_inv w \<and> vlist w = butlast (vlist v) @ [c]"
proof -
  have n: "0 < m_size v" "m_size v \<le> length (vdata v)" using assms by (auto simp: vec_inv_def vlist_def)
  then have "take (m_size v) ((vdata v)[m_size v - 1 := c]) = take (m_size v - 1) (vdata v) @ [c]"
    by (cases "m_size v") (simp_all add: take_Suc_conv_app_nth)
  then show ?thesis using assms n
    by (auto simp: str_set_back_def vec_inv_def vlist_def butlast_take)
qed

lemma str_of_spec: "\<exists>v. str_of s = Some v \<and> str_inv v \<and> str v = s"
proof -
  let ?v = "vec_new NUL (length s + 1) NUL"
  let ?w = "?v\<lparr>vdata := fold (\<lambda>i a. a[i := s ! i]) [0..<length s] (vdata ?v)\<rparr>"
  have "drop (length s) (NUL # replicate (length s) NUL) = [NUL]" by (simp flip: replicate_append_same)
  then have w: "vec_inv ?w" "vlist ?w = s @ [NUL]"
    by (simp_all add: vec_inv_def vlist_def fold_copy)
  then obtain v where "str_set_back NUL ?w = Some v" "vec_inv v" "vlist v = s @ [NUL]"
    using str_set_back_spec [OF w(1)] by auto
  then show ?thesis using str_invI by (auto simp: str_of_def Let_def)
qed

lemma str_push_back_spec:
  assumes "str_inv v"
  shows "\<exists>w. str_push_back c v = Some w \<and> str_inv w \<and> str w = str v @ [c]"
proof -
  note v = str_invD [OF assms]
  obtain u where u: "str_set_back c v = Some u" "vec_inv u" "vlist u = str v @ [c]"
    using str_set_back_spec [of v c] v(1,2) by auto
  then show ?thesis
    using str_invI [of "vec_push_back NUL NUL u"] vec.push_law [OF u(2), of NUL NUL]
    by (auto simp: str_push_back_def)
qed

lemma str_pop_back_spec:
  assumes "str_inv v"
  shows "str_pop_back v = None \<longleftrightarrow> str v = []"
    and "str_pop_back v = Some w \<Longrightarrow> str_inv w \<and> str w = butlast (str v)"
proof -
  note v = str_invD [OF assms]
  obtain u where u: "vec_pop_back v = Some u" using vec.pop_none [OF v(1)] v(2) by (cases "vec_pop_back v") auto
  then have uu: "vec_inv u" "vlist u = str v" using vec.pop_some [OF v(1) u] v(2) by auto
  show "str_pop_back v = None \<longleftrightarrow> str v = []"
  proof (cases "str v = []")
    case True
    then have "m_size u = 0" using uu by (metis length_vlist list.size(3))
    then show ?thesis using True u by (simp add: str_pop_back_def str_set_back_def)
  next
    case False
    then show ?thesis using u uu str_set_back_spec [of u NUL] by (auto simp: str_pop_back_def)
  qed
  assume "str_pop_back v = Some w"
  then have s: "str_set_back NUL u = Some w" using u by (simp add: str_pop_back_def)
  then have "vlist u \<noteq> []" using uu(1) by (auto simp: str_set_back_def vlist_def vec_inv_def split: if_splits)
  then show "str_inv w \<and> str w = butlast (str v)"
    using str_set_back_spec [OF uu(1), of NUL] uu s str_invI [of w] by auto
qed

lemma str_append_spec:
  assumes "str_inv v" "str_inv r"
  shows "\<exists>w. str_append v r = Some w \<and> str_inv w \<and> str w = str v @ str r"
proof -
  note v = str_invD [OF assms(1)] and r = str_invD [OF assms(2)]
  obtain u where u: "vec_pop_back v = Some u" using vec.pop_none [OF v(1)] v(2) by (cases "vec_pop_back v") auto
  then have uu: "vec_inv u" "vlist u = str v" using vec.pop_some [OF v(1) u] v(2) by auto
  let ?w = "fold (vec_push_back NUL) (str r) u"
  have w: "vec_inv ?w" "vlist ?w = str v @ str r" using vec.fold_push [OF uu(1)] uu by auto
  then show ?thesis using u r vec.push_law [OF w(1)] str_invI [of "vec_push_back NUL NUL ?w"]
    by (auto simp: str_append_def)
qed

lemma str_plus_spec:
  assumes "str_inv v" "str_inv r"
  shows "\<exists>w. str_plus v r = Some w \<and> str_inv w \<and> str w = str v @ str r"
proof -
  have "str_inv (vec_copy NUL v)" "str (vec_copy NUL v) = str v"
    using vec_copy_spec [OF str_invD(1) [OF assms(1)], of NUL] assms(1) by (auto simp: str_inv_def str_def)
  then show ?thesis by (metis str_append_spec assms(2) str_plus_def)
qed

lemma str_eq_spec: "str_inv v \<Longrightarrow> str_inv w \<Longrightarrow> str_eq v w \<longleftrightarrow> str v = str w"
  by (metis append_same_eq str_eq_def str_inv_def vec_eq_spec)

lemma str_reverse_spec:
  assumes "str_inv v"
  shows "str_inv (str_reverse v) \<and> str (str_reverse v) = rev (str v)"
proof -
  note v = str_invD [OF assms]
  let ?n = "length (str v)"
  have d: "vdata (str_reverse v) = rev (str v) @ drop ?n (vdata v)"
    using fold_reverse [of ?n "vdata v"] v by (simp add: str_reverse_def)
  have f: "m_size (str_reverse v) = Suc ?n" "capacity (str_reverse v) = capacity v"
    using v by (simp_all add: str_reverse_def)
  have "take (Suc ?n) (vdata v) = str v @ [NUL]" using v by (simp add: vlist_def)
  then have "take 1 (drop ?n (vdata v)) = [NUL]" using v(5,6) by (simp add: take_Suc_conv_app_nth take_drop)
  then have "vlist (str_reverse v) = rev (str v) @ [NUL]" using f d by (simp add: vlist_def)
  moreover have "vec_inv (str_reverse v)" using v f d by (simp add: vec_inv_def)
  ultimately show ?thesis using str_invI by blast
qed

lemma str_blank_spec: "\<exists>v. str_blank n = Some v \<and> str_inv v \<and> str v = replicate n NUL \<and> length (vdata v) = Suc n"
proof -
  have r: "(NUL # replicate n NUL)[n := NUL] = replicate n NUL @ [NUL]"
    by (metis list_update_same_conv length_replicate nth_replicate replicate_Suc lessI replicate_append_same)
  show ?thesis
    using str_invI [of "(vec_new NUL (n + 1) NUL)\<lparr>vdata := (vdata (vec_new NUL (n + 1) NUL))[n := NUL]\<rparr>"] r
    by (auto simp: str_blank_def str_set_back_def vec_inv_def vlist_def)
qed

lemma str_substr_spec:
  assumes "str_inv v" "l + n \<le> length (str v)"
  shows "\<exists>t. str_substr l n v = Some t \<and> str_inv t \<and> str t = take n (drop l (str v))"
proof -
  note v = str_invD [OF assms(1)]
  obtain b where b: "str_blank n = Some b" "str_inv b" "str b = replicate n NUL" "length (vdata b) = Suc n"
    using str_blank_spec by blast
  let ?xs = "drop l (vdata v)"
  have f: "fold (\<lambda>i a. a[i := vdata v ! (i + l)]) [0..<n] (vdata b) = take n ?xs @ drop n (vdata b)"
    using fold_copy [of n ?xs "vdata b"] b(4) v(6) assms(2) by (simp add: add.commute)
  have tk: "take n ?xs = take n (drop l (str v))"
    using v(5) assms(2) by (metis add_le_imp_le_diff drop_take min.absorb1 take_take add.commute)
  let ?t = "b\<lparr>vdata := take n ?xs @ drop n (vdata b)\<rparr>"
  have len: "length (take n ?xs) = n" using v(6) assms(2) by simp
  have bb: "m_size b = Suc n" "capacity b = Suc n" "take (Suc n) (vdata b) = replicate n NUL @ [NUL]"
    using str_invD [OF b(2)] b(3,4) by (simp_all add: vec_inv_def vlist_def)
  then have "drop n (vdata b) = [NUL]" using b(4) by simp
  then have "vec_inv ?t" "vlist ?t = take n (drop l (str v)) @ [NUL]"
    using bb len tk b(4) by (simp_all add: vec_inv_def vlist_def)
  then show ?thesis using str_invI [of ?t] b(1) f v(6) assms(2) by (auto simp: str_substr_def)
qed

section \<open>Splitting\<close>

text \<open>The reference: the pieces between delimiters, where an empty last piece is left out.\<close>

function split_on :: "char \<Rightarrow> string \<Rightarrow> string list" where
  "split_on d s =
     (case dropWhile (\<lambda>c. c \<noteq> d) s of
        [] \<Rightarrow> [s]
      | _ # rest \<Rightarrow> takeWhile (\<lambda>c. c \<noteq> d) s # split_on d rest)"
  by pat_completeness auto
termination
proof (relation "measure (\<lambda>(d, s). length s)")
  fix d s x rest
  assume "dropWhile (\<lambda>c. c \<noteq> d) s = x # rest"
  then show "((d, rest), d, s) \<in> measure (\<lambda>(d, s). length s)"
    using length_dropWhile_le [of "\<lambda>c. c \<noteq> d" s] by simp
qed simp

declare split_on.simps [simp del]

definition path_split :: "char \<Rightarrow> string \<Rightarrow> string list" where
  "path_split d s =
     (let ts = split_on d s in if s \<noteq> [] \<and> last ts = [] then butlast ts else ts)"

definition pieces :: "char \<Rightarrow> string \<Rightarrow> string list" where
  "pieces d s = (let ts = split_on d s in if last ts = [] then butlast ts else ts)"

lemma split_on_nonempty: "split_on d s \<noteq> []"
  by (subst split_on.simps) (simp split: list.split)

lemma pieces_last: "d \<notin> set s \<Longrightarrow> pieces d s = (if s = [] then [] else [s])"
proof -
  assume "d \<notin> set s"
  then have "dropWhile (\<lambda>c. c \<noteq> d) s = []" by (auto simp: dropWhile_eq_Nil_conv)
  then have "split_on d s = [s]" using split_on.simps [of d s] by (simp only: list.case)
  then show ?thesis by (simp add: pieces_def)
qed

lemma pieces_cons:
  assumes "d \<notin> set u"
  shows "pieces d (u @ d # t) = u # pieces d t"
proof -
  have "dropWhile (\<lambda>c. c \<noteq> d) (u @ d # t) = d # t" "takeWhile (\<lambda>c. c \<noteq> d) (u @ d # t) = u"
    using assms by (induction u) auto
  then have "split_on d (u @ d # t) = u # split_on d t" by (subst split_on.simps) simp
  then show ?thesis using split_on_nonempty [of d t] by (simp add: pieces_def Let_def)
qed

lemma str_find_spec:
  assumes "str_inv v" "l \<le> length (str v)"
  shows "str_find d l v = - 1 \<and> d \<notin> set (drop l (str v)) \<or>
    (\<exists>i. str_find d l v = int i \<and> l \<le> i \<and> i < length (str v) \<and>
       d \<notin> set (take (i - l) (drop l (str v))) \<and> str v ! i = d)"
proof -
  note v = str_invD [OF assms(1)]
  let ?Q = "\<lambda>i. l \<le> i \<and> i < length (vlist v) \<and> vlist v ! i = d"
  have len: "length (vlist v) = Suc (length (str v))" by (subst v(2)) simp
  have nth: "vlist v ! i = str v ! i" if "i < length (str v)" for i by (subst v(2)) (simp add: that nth_append)
  show ?thesis
  proof (cases "\<exists>i. ?Q i")
    case True
    let ?i = "Least ?Q"
    have i: "?Q ?i" using True by (rule LeastI_ex)
    have least: "\<not> ?Q j" if "j < ?i" for j using that not_less_Least by blast
    have f: "vec_find d l v = int ?i" using True by (simp add: vec_find_spec [OF v(1)])
    have before: "d \<notin> set (take (?i - l) (drop l (str v)))"
    proof
      assume "d \<in> set (take (?i - l) (drop l (str v)))"
      then obtain j where j: "j < ?i - l" "l + j < length (str v)" "str v ! (l + j) = d"
        by (auto simp: in_set_conv_nth)
      then have "l + j < ?i" by linarith
      then show False using least j len nth by (metis le_add1 less_SucI)
    qed
    show ?thesis
    proof (cases "?i < length (str v)")
      case True
      then show ?thesis using i f before nth v(4) by (auto simp: str_find_def)
    next
      case False
      then have "d \<notin> set (drop l (str v))" using before by (simp add: take_all)
      then show ?thesis using False f v(4) by (simp add: str_find_def)
    qed
  next
    case False
    then have "vec_find d l v = - 1" by (simp add: vec_find_spec [OF v(1)])
    moreover have "d \<notin> set (drop l (str v))"
    proof
      assume "d \<in> set (drop l (str v))"
      then obtain j where "l + j < length (str v)" "str v ! (l + j) = d"
        by (auto simp: in_set_conv_nth less_diff_conv add.commute) blast
      then show False using False len nth by (metis le_add1 less_SucI)
    qed
    ultimately show ?thesis by (simp add: str_find_def)
  qed
qed

lemma str_split_loop_spec:
  assumes "str_inv v" "l \<le> length (str v)" "vec_inv res"
  shows "\<exists>l' res' u. str_split_loop d v l (str_find d l v) res = Some (l', res') \<and> vec_inv res' \<and>
    l' \<le> length (str v) \<and> d \<notin> set (drop l' (str v)) \<and> vlist res' = vlist res @ u \<and> list_all str_inv u \<and>
    pieces d (drop l (str v)) = map str u @ pieces d (drop l' (str v))"
  using assms(2,3)
proof (induction "length (str v) - l" arbitrary: l res rule: less_induct)
  case less
  from str_find_spec [OF assms(1) less.prems(1), of d] show ?case
  proof (elim disjE exE conjE)
    assume "str_find d l v = - 1" "d \<notin> set (drop l (str v))"
    then show ?thesis using less.prems by (subst str_split_loop.simps) simp
  next
    fix i
    assume i: "str_find d l v = int i" "l \<le> i" "i < length (str v)"
      "d \<notin> set (take (i - l) (drop l (str v)))" "str v ! i = d"
    obtain t where t: "str_substr l (i - l) v = Some t" "str_inv t" "str t = take (i - l) (drop l (str v))"
      using str_substr_spec [OF assms(1), of l "i - l"] i by auto
    let ?res = "vec_push_back vec_empty t res"
    have r: "vec_inv ?res" "vlist ?res = vlist res @ [t]" using vec.push_law [OF less.prems(2)] by auto
    have unf: "str_split_loop d v l (str_find d l v) res = str_split_loop d v (i + 1) (str_find d (i + 1) v) ?res"
      using i t by (subst str_split_loop.simps) simp
    have shorter: "length (str v) - (i + 1) < length (str v) - l" using i(2,3) by linarith
    obtain l' res' u where IH: "str_split_loop d v (i + 1) (str_find d (i + 1) v) ?res = Some (l', res')"
      "vec_inv res'" "l' \<le> length (str v)" "d \<notin> set (drop l' (str v))" "vlist res' = vlist ?res @ u"
      "list_all str_inv u" "pieces d (drop (i + 1) (str v)) = map str u @ pieces d (drop l' (str v))"
      using less.hyps [OF shorter _ r(1)] i(3) by auto
    have "drop l (str v) = take (i - l) (drop l (str v)) @ drop (i - l) (drop l (str v))"
      by (simp only: append_take_drop_id)
    also have "drop (i - l) (drop l (str v)) = d # drop (i + 1) (str v)"
      using i(2,3,5) Cons_nth_drop_Suc [OF i(3)] by simp
    finally have "pieces d (drop l (str v)) = str t # pieces d (drop (i + 1) (str v))"
      using pieces_cons [OF i(4)] t(3) by metis
    then show ?thesis using unf IH r t(2)
      by (intro exI [of _ l'] exI [of _ res'] exI [of _ "t # u"]) simp
  qed
qed

lemma str_split_spec:
  assumes "str_inv v"
  shows "\<exists>w. str_split d v = Some w \<and> vec_inv w \<and> list_all str_inv (vlist w) \<and>
    map str (vlist w) = path_split d (str v)"
proof -
  note v = str_invD [OF assms]
  obtain l res u where L: "str_split_loop d v 0 (str_find d 0 v) vec_empty = Some (l, res)" "vec_inv res"
    "l \<le> length (str v)" "d \<notin> set (drop l (str v))" "vlist res = u" "list_all str_inv u"
    "pieces d (str v) = map str u @ pieces d (drop l (str v))"
    using str_split_loop_spec [OF assms, of 0 vec_empty d] by auto
  obtain t where t: "str_substr l (length (str v) - l) v = Some t" "str_inv t" "str t = drop l (str v)"
    using str_substr_spec [OF assms, of l "length (str v) - l"] L(3) by auto
  let ?w = "vec_push_back vec_empty t res"
  have w: "vec_inv ?w" "vlist ?w = u @ [t]" using vec.push_law [OF L(2)] L(5) by auto
  show ?thesis
  proof (cases "str v = [] \<or> l \<noteq> length (str v)")
    case True
    then have "str_split d v = Some ?w" using L(1) v(4) t(1) by (auto simp: str_split_def)
    moreover have "map str (u @ [t]) = path_split d (str v)"
    proof (cases "str v = []")
      case True
      then have "l = 0" "u = []" using L by (auto simp: pieces_last)
      then show ?thesis using True t(3) by (simp add: path_split_def split_on.simps)
    next
      case False
      then have "path_split d (str v) = pieces d (str v)" by (simp add: path_split_def pieces_def)
      moreover have "pieces d (drop l (str v)) = [drop l (str v)]"
        using False \<open>str v = [] \<or> l \<noteq> length (str v)\<close> L(3) pieces_last [OF L(4)] by auto
      ultimately show ?thesis using L(7) t(3) by simp
    qed
    ultimately show ?thesis using w L(6) t(2) by auto
  next
    case False
    then have "str_split d v = Some res" using L(1) v(4) by (simp add: str_split_def)
    moreover have "pieces d (drop l (str v)) = []" using False pieces_last [OF L(4)] by simp
    moreover have "path_split d (str v) = pieces d (str v)" using False by (simp add: path_split_def pieces_def)
    ultimately show ?thesis using L by auto
  qed
qed

section \<open>Decimal numerals\<close>

fun dec_digits :: "nat \<Rightarrow> string" where
  "dec_digits n = (if n = 0 then [] else dec_digits (n div 10) @ [char_of (48 + n mod 10)])"

declare dec_digits.simps [simp del]

definition dec_value :: "string \<Rightarrow> nat" where
  "dec_value s = foldl (\<lambda>a c. 10 * a + (of_char c - 48)) 0 s"

lemma stoi_loop_spec:
  "str_inv res \<Longrightarrow> 0 \<le> n \<Longrightarrow>
    \<exists>w. stoi_loop n res = Some w \<and> str_inv w \<and> str w = str res @ rev (dec_digits (nat n))"
proof (induction n res rule: stoi_loop.induct)
  case (1 n res)
  show ?case
  proof (cases "n > 0")
    case True
    let ?c = "char_of (48 + nat (n mod 10)) :: char"
    obtain u where u: "str_push_back ?c res = Some u" "str_inv u" "str u = str res @ [?c]"
      using str_push_back_spec [OF "1.prems"(1)] by blast
    obtain w where w: "stoi_loop (n div 10) u = Some w" "str_inv w" "str w = str u @ rev (dec_digits (nat (n div 10)))"
      using "1.IH" [OF True u(1,2)] True by (auto simp: pos_imp_zdiv_nonneg_iff)
    have "dec_digits (nat n) = dec_digits (nat (n div 10)) @ [?c]"
      using True by (subst dec_digits.simps) (simp add: nat_div_distrib nat_mod_distrib)
    then show ?thesis using True u w by (simp add: stoi_loop.simps [of n res])
  next
    case False
    then have "stoi_loop n res = Some res" "dec_digits (nat n) = []"
      by (simp_all add: stoi_loop.simps dec_digits.simps)
    then show ?thesis using "1.prems" by simp
  qed
qed

lemma stoi_spec: "0 \<le> n \<Longrightarrow> \<exists>w. stoi n = Some w \<and> str_inv w \<and> str w = dec_digits (nat n)"
proof -
  assume n: "0 \<le> n"
  obtain e where e: "str_of [] = Some e" "str_inv e" "str e = []" using str_of_spec by blast
  obtain w where w: "stoi_loop n e = Some w" "str_inv w" "str w = rev (dec_digits (nat n))"
    using stoi_loop_spec [OF e(2) n] e(3) by auto
  then show ?thesis using e(1) str_reverse_spec [OF w(2)] by (auto simp: stoi_def)
qed

lemma dec_value_digits: "dec_value (dec_digits n) = n"
proof (induction n rule: dec_digits.induct)
  case (1 n)
  show ?case
  proof (cases "n = 0")
    case False
    then have "dec_value (dec_digits n) = 10 * dec_value (dec_digits (n div 10)) + n mod 10"
      by (subst dec_digits.simps) (simp add: dec_value_def)
    then show ?thesis using 1 False by simp
  qed (simp add: dec_digits.simps dec_value_def)
qed

section \<open>Properties\<close>

text \<open>
  C40: \<open>split\<close> always returns, and returns the pieces of the text between delimiters in order,
  where an empty piece behind a final delimiter is left out; every piece is a well-formed
  string. (\<open>"/proc/stdin_1"\<close> gives the empty root name, \<open>proc\<close> and \<open>stdin_1\<close>; \<open>"/"\<close> gives the
  root name alone.)
\<close>

theorem str_split_correct:
  assumes "str_inv v"
  shows "\<exists>w. str_split d v = Some w \<and> vec_inv w \<and> list_all str_inv (vlist w) \<and>
    map str (vlist w) = path_split d (str v)"
  using str_split_spec [OF assms] .

text \<open>\<open>stoi\<close> (number to text) returns for every non-negative number the decimal numeral of it,
  which reads back as the number; for 0 the numeral is the empty string.
\<close>

theorem stoi_roundtrip:
  assumes "0 \<le> n"
  shows "\<exists>w. stoi n = Some w \<and> str_inv w \<and> dec_value (str w) = nat n \<and> (n = 0 \<longleftrightarrow> str w = [])"
proof -
  obtain w where w: "stoi n = Some w" "str_inv w" "str w = dec_digits (nat n)" using stoi_spec [OF assms] by blast
  moreover have "dec_digits (nat n) = [] \<longleftrightarrow> n = 0" using assms by (subst dec_digits.simps) auto
  ultimately show ?thesis by (auto simp: dec_value_digits)
qed

text \<open>\<open>pop_back\<close> removes the last character of a non-empty string and undoes \<open>push_back\<close>; on
  an empty string it reaches an element before the array (the shell's \<open>readLine\<close> does that on
  a backspace at the start of a line).
\<close>

theorem str_pop_back_correct:
  assumes "str_inv v"
  shows "(str_pop_back v = None \<longleftrightarrow> str v = []) \<and>
    (\<exists>w u. str_push_back c v = Some w \<and> str_pop_back w = Some u \<and> str_inv u \<and> str u = str v)"
proof -
  obtain w where w: "str_push_back c v = Some w" "str_inv w" "str w = str v @ [c]"
    using str_push_back_spec [OF assms] by blast
  obtain u where u: "str_pop_back w = Some u" using str_pop_back_spec(1) [OF w(2)] w(3) by (cases "str_pop_back w") auto
  then show ?thesis using w str_pop_back_spec(2) [OF w(2) u] str_pop_back_spec(1) [OF assms] by auto
qed

definition str_example :: Str where
  "str_example = \<lparr>vdata = ''/proc/a'' @ [NUL, CHR ''z''], m_size = 8, capacity = 9\<rparr>"

lemma str_example_inv: "str_inv str_example" "str str_example = ''/proc/a''"
  by (simp_all add: str_inv_def str_def vec_inv_def vlist_def str_example_def)

theorem str_split_correct_witness:
  "\<exists>w. str_split CHR ''/'' str_example = Some w \<and> map str (vlist w) = [[], ''proc'', ''a'']"
proof -
  have "path_split CHR ''/'' ''/proc/a'' = [[], ''proc'', ''a'']" by code_simp
  then show ?thesis using str_split_correct [OF str_example_inv(1), of "CHR ''/''"] by (auto simp: str_example_inv)
qed

theorem stoi_roundtrip_witness: "\<exists>w. stoi 907 = Some w \<and> dec_value (str w) = 907"
  using stoi_roundtrip [of 907] by auto

theorem str_pop_back_correct_witness:
  "\<exists>w u. str_push_back CHR ''b'' str_example = Some w \<and> str_pop_back w = Some u \<and> str u = ''/proc/a''"
  using str_pop_back_correct [OF str_example_inv(1), of "CHR ''b''"] by (auto simp: str_example_inv)

end
