(* ===== verification/Scheduler.thy ===== *)
theory Scheduler
  imports Dimos_Prelude "HOL-Library.Multiset"
begin

text \<open>
  Kernel threads and their round-robin scheduler (\<open>kernel/include/kernel/process/kthread.h\<close>,
  \<open>scheduler.h\<close>, \<open>kernel/kernel/process/kthread.cpp\<close>, with the register frames of \<open>cpu.h\<close> and \<open>isr.h\<close>).
  The vector of threads is its list of elements; \<open>Thread&\<close> references into it are indices, so that the
  aliasing of \<open>prevTask\<close> with an element of \<open>tasks\<close> in \<open>getNext\<close> is explicit. A panic, and an access
  outside the vector, is \<^const>\<open>None\<close>.
\<close>

section \<open>State\<close>

record GenRegisters =
  r15 :: u64
  r14 :: u64
  r13 :: u64
  r12 :: u64
  r11 :: u64
  r10 :: u64
  r9 :: u64
  r8 :: u64
  rbp :: u64
  rdi :: u64
  rsi :: u64
  rdx :: u64
  rcx :: u64
  rbx :: u64
  rax :: u64

record InterruptFrame =
  if_rip :: u64
  if_cs :: u64
  if_rflags :: u64
  if_rsp :: u64
  if_ss :: u64

record ISRFrame =
  genRegisters :: GenRegisters
  isrNumber :: u64
  errorCode :: u64
  interruptFrame :: InterruptFrame

datatype TaskState = NOT_STARTED | RUNNING | SLEEPING | BLOCKED | COMPLETED | DO_NOT_DISTURB

fun isRunnableState :: "TaskState \<Rightarrow> bool" where
  "isRunnableState s \<longleftrightarrow> s = NOT_STARTED \<or> s = RUNNING"

declare isRunnableState.simps [simp del]

record ExecContext =
  rsp :: u64
  rip :: u64
  ctxRegisters :: GenRegisters
  rflags :: u64

datatype Method = NORMALLY_INTERRUPTED | YIELDED

record Thread =
  execContext :: ExecContext
  contextSwitchMethod :: Method
  tid :: u64
  stackMem :: u64
  tstate :: TaskState
  runFunc :: u64

text \<open>The globals \<open>kthreads\<close> and \<open>currKThreadIdx\<close>, and the static id counter of the constructor.\<close>

record KState =
  kthreads :: "Thread list"
  currKThreadIdx :: nat
  currId :: u64

section \<open>Threads\<close>

definition zeroRegisters :: GenRegisters where
  "zeroRegisters = \<lparr>r15 = 0, r14 = 0, r13 = 0, r12 = 0, r11 = 0, r10 = 0, r9 = 0, r8 = 0,
     rbp = 0, rdi = 0, rsi = 0, rdx = 0, rcx = 0, rbx = 0, rax = 0\<rparr>"

abbreviation (input) stackSize :: u64 where "stackSize \<equiv> 64 * 1024"

text \<open>The constructor \<open>Thread(func)\<close>; \<open>stack\<close> is the address of the new \<open>StackSpace\<close> and \<open>wrapper\<close> the
  address of \<open>threadRunWrapper\<close>. A thread is started by pushing it onto \<open>kthreads\<close>.\<close>

definition new_Thread :: "u64 \<Rightarrow> u64 \<Rightarrow> u64 \<Rightarrow> u64 \<Rightarrow> Thread" where
  "new_Thread wrapper func stack newId =
     \<lparr>execContext = \<lparr>rsp = stack + stackSize - 4096, rip = wrapper, ctxRegisters = zeroRegisters, rflags = 514\<rparr>,
      contextSwitchMethod = NORMALLY_INTERRUPTED, tid = newId, stackMem = stack,
      tstate = NOT_STARTED, runFunc = func\<rparr>"

definition spawn :: "u64 \<Rightarrow> u64 \<Rightarrow> u64 \<Rightarrow> KState \<Rightarrow> KState" where
  "spawn wrapper func stack k =
     k\<lparr>kthreads := kthreads k @ [new_Thread wrapper func stack (currId k)], currId := currId k + 1\<rparr>"

definition copyFromISRFrame :: "ISRFrame \<Rightarrow> Thread \<Rightarrow> Thread" where
  "copyFromISRFrame f t = t\<lparr>execContext :=
     \<lparr>rsp = if_rsp (interruptFrame f), rip = if_rip (interruptFrame f),
      ctxRegisters = genRegisters f, rflags = if_rflags (interruptFrame f)\<rparr>\<rparr>"

definition resetContextSwitchInfo :: "Thread \<Rightarrow> Thread" where
  "resetContextSwitchInfo t = t\<lparr>contextSwitchMethod := NORMALLY_INTERRUPTED\<rparr>"

definition updThread :: "nat \<Rightarrow> (Thread \<Rightarrow> Thread) \<Rightarrow> KState \<Rightarrow> KState" where
  "updThread i f k = k\<lparr>kthreads := (kthreads k)[i := f (kthreads k ! i)]\<rparr>"

text \<open>\<open>getThread(id)\<close>: the first thread with that id; none is a panic.\<close>

fun findTask :: "u64 \<Rightarrow> Thread list \<Rightarrow> nat" where
  "findTask x [] = 0"
| "findTask x (t # ts) = (if tid t = x then 0 else Suc (findTask x ts))"

definition getThread :: "u64 \<Rightarrow> Thread list \<Rightarrow> nat option" where
  "getThread x ts = (if findTask x ts < length ts then Some (findTask x ts) else None)"

section \<open>Round robin\<close>

text \<open>The search loop of \<open>getNext\<close>: \<open>(nextIdx, tried)\<close> when it stops.\<close>

function nextRunnable :: "Thread list \<Rightarrow> nat \<Rightarrow> nat \<Rightarrow> nat \<times> nat" where
  "nextRunnable ts nextIdx tried =
     (if \<not> isRunnableState (tstate (ts ! nextIdx)) \<and> tried < length ts
      then nextRunnable ts ((nextIdx + 1) mod length ts) (tried + 1)
      else (nextIdx, tried))"
  by auto
termination by (relation "measure (\<lambda>(ts, _, tried). length ts - tried)") auto

declare nextRunnable.simps [simp del]

text \<open>\<open>p\<close> is the element of \<open>tasks\<close> that \<open>prevTask\<close> refers to.\<close>

definition removeTask :: "nat \<Rightarrow> Thread list \<Rightarrow> Thread list" where
  "removeTask prevIndex ts =
     butlast (if prevIndex \<noteq> length ts - 1 then swap_at prevIndex (length ts - 1) ts else ts)"

definition getNext :: "nat \<Rightarrow> Thread list \<Rightarrow> nat \<times> Thread list" where
  "getNext p ts =
     (let prevIndex = findTask (tid (ts ! p)) ts;
          isIdxValid = prevIndex < length ts
      in if isIdxValid \<and> tstate (ts ! p) = DO_NOT_DISTURB then (prevIndex, ts)
         else
           let ts1 = (if tstate (ts ! p) \<noteq> COMPLETED then ts[p := (ts ! p)\<lparr>tstate := RUNNING\<rparr>] else ts);
               ts2 = (if tstate (ts1 ! p) = COMPLETED \<and> isIdxValid then removeTask prevIndex ts1 else ts1)
           in if length ts2 = 0 then (0, ts2)
              else let (nextIdx, tried) = nextRunnable ts2 ((prevIndex + 1) mod length ts2) 0
                   in (if tried = length ts2 then length ts2 else nextIdx, ts2))"

section \<open>Context switches\<close>

text \<open>\<open>return_from_interrupt\<close> (\<open>arch/x86_64/kthread.S\<close>) rebuilds the frame that \<open>iretq\<close> pops, from the
  context of the thread and the current \<open>cs\<close> and \<open>ss\<close>; it signals the end of the interrupt when the pointer
  it gets in \<open>rsi\<close> is 0.\<close>

definition return_from_interrupt :: "u64 \<Rightarrow> u64 \<Rightarrow> u64 \<Rightarrow> Thread \<Rightarrow> ISRFrame \<times> bool" where
  "return_from_interrupt cs ss infoPtr t =
     (\<lparr>genRegisters = ctxRegisters (execContext t), isrNumber = 0, errorCode = 0,
       interruptFrame = \<lparr>if_rip = rip (execContext t), if_cs = cs, if_rflags = rflags (execContext t),
         if_rsp = rsp (execContext t), if_ss = ss\<rparr>\<rparr>, infoPtr = 0)"

text \<open>\<open>scheduleKernelThread(kthreads, kthreads[p])\<close>; the result is the new state and the thread resumed.\<close>

definition scheduleKernelThread :: "nat \<Rightarrow> KState \<Rightarrow> (KState \<times> Thread) option" where
  "scheduleKernelThread p k =
     (let k1 = updThread p resetContextSwitchInfo k;
          (nextIdx, ts) = getNext p (kthreads k1)
      in if nextIdx = length ts then None
         else Some (k1\<lparr>kthreads := ts, currKThreadIdx := nextIdx\<rparr>, ts ! nextIdx))"

definition premptiveScheduler :: "ISRFrame \<Rightarrow> KState \<Rightarrow> (KState \<times> Thread) option" where
  "premptiveScheduler f k =
     (if currKThreadIdx k < length (kthreads k)
      then scheduleKernelThread (currKThreadIdx k) (updThread (currKThreadIdx k) (copyFromISRFrame f) k)
      else None)"

text \<open>\<open>yield\<close> raises interrupt 32, whose frame is \<open>f\<close>; \<open>park\<close>, \<open>setpark\<close>, \<open>unpark\<close> and the end of
  \<open>threadRunWrapper\<close>. \<open>thisThread()\<close> is \<open>kthreads[currKThreadIdx]\<close>.\<close>

definition thisThread :: "(Thread \<Rightarrow> Thread) \<Rightarrow> KState \<Rightarrow> KState option" where
  "thisThread f k = (if currKThreadIdx k < length (kthreads k) then Some (updThread (currKThreadIdx k) f k) else None)"

definition yield_thread :: "ISRFrame \<Rightarrow> KState \<Rightarrow> (KState \<times> Thread) option" where
  "yield_thread f k = Option.bind (thisThread (contextSwitchMethod_update (\<lambda>_. YIELDED)) k) (premptiveScheduler f)"

definition park :: "ISRFrame \<Rightarrow> KState \<Rightarrow> (KState \<times> Thread) option" where
  "park f k = Option.bind (thisThread (tstate_update (\<lambda>_. SLEEPING)) k) (yield_thread f)"

definition setpark :: "KState \<Rightarrow> KState option" where
  "setpark k = thisThread (tstate_update (\<lambda>_. DO_NOT_DISTURB)) k"

definition unpark :: "u64 \<Rightarrow> KState \<Rightarrow> KState option" where
  "unpark x k = map_option (\<lambda>i. updThread i (tstate_update (\<lambda>_. RUNNING)) k) (getThread x (kthreads k))"

definition thread_exit :: "ISRFrame \<Rightarrow> KState \<Rightarrow> (KState \<times> Thread) option" where
  "thread_exit f k = Option.bind (thisThread (tstate_update (\<lambda>_. COMPLETED)) k) (yield_thread f)"

section \<open>Search\<close>

lemma findTask_le: "findTask x ts \<le> length ts"
  by (induction ts) auto

lemma findTask_own:
  assumes "distinct (map tid ts)" "p < length ts"
  shows "findTask (tid (ts ! p)) ts = p"
  using assms
proof (induction ts arbitrary: p)
  case (Cons t ts)
  then show ?case by (cases p) (auto simp: image_iff)
qed simp

lemma findTask_found: "findTask x ts < length ts \<Longrightarrow> tid (ts ! findTask x ts) = x"
  by (induction ts) auto

text \<open>\<open>picks b ts r\<close>: \<open>r\<close> is the first runnable index in cyclic order from \<open>b\<close>.\<close>

abbreviation runs :: "Thread list \<Rightarrow> nat \<Rightarrow> bool" where
  "runs ts i \<equiv> isRunnableState (tstate (ts ! i))"

definition picks :: "nat \<Rightarrow> Thread list \<Rightarrow> nat \<Rightarrow> bool" where
  "picks b ts r \<longleftrightarrow> (\<exists>t<length ts. r = (b + t) mod length ts \<and> runs ts r \<and>
     (\<forall>k<t. \<not> runs ts ((b + k) mod length ts)))"

lemma nextRunnable_spec:
  assumes "tried \<le> length ts" "\<forall>k<tried. \<not> runs ts ((b + k) mod length ts)"
  shows "\<exists>t. nextRunnable ts ((b + tried) mod length ts) tried = ((b + t) mod length ts, t) \<and> t \<le> length ts \<and>
    (\<forall>k<t. \<not> runs ts ((b + k) mod length ts)) \<and> (t < length ts \<longrightarrow> runs ts ((b + t) mod length ts))"
  using assms
proof (induction "length ts - tried" arbitrary: tried)
  case 0
  then show ?case by (subst nextRunnable.simps) auto
next
  case (Suc m)
  show ?case
  proof (cases "runs ts ((b + tried) mod length ts)")
    case True
    then show ?thesis using Suc.prems by (subst nextRunnable.simps) auto
  next
    case False
    have step: "nextRunnable ts ((b + tried) mod length ts) tried =
        nextRunnable ts ((b + (tried + 1)) mod length ts) (tried + 1)"
    proof -
      have "tried < length ts" using Suc.hyps(2) by linarith
      then show ?thesis using False by (subst nextRunnable.simps) (simp add: mod_Suc_eq)
    qed
    have "\<forall>k<tried + 1. \<not> runs ts ((b + k) mod length ts)"
      using Suc.prems(2) False by (auto simp: less_Suc_eq)
    then show ?thesis unfolding step using Suc.hyps(2) by (intro Suc.hyps(1)) auto
  qed
qed

lemma next_found:
  fixes b :: nat
  assumes "ts \<noteq> []"
  defines "r \<equiv> (let (nextIdx, tried) = nextRunnable ts (b mod length ts) 0 in if tried = length ts then length ts else nextIdx)"
  shows "if \<exists>t\<in>set ts. isRunnableState (tstate t) then r < length ts \<and> picks b ts r else r = length ts"
proof -
  let ?n = "length ts"
  obtain t where t: "nextRunnable ts (b mod ?n) 0 = ((b + t) mod ?n, t)" "t \<le> ?n"
    "\<forall>k<t. \<not> runs ts ((b + k) mod ?n)" "t < ?n \<longrightarrow> runs ts ((b + t) mod ?n)"
    using nextRunnable_spec [of 0 ts b] by auto
  have all: "\<not> runs ts i" if "t = ?n" "i < ?n" for i
  proof -
    define k where "k = (i + (?n - b mod ?n)) mod ?n"
    have "k < ?n" using assms(1) by (simp add: k_def)
    moreover have "(b + k) mod ?n = i"
    proof -
      have "(b + k) mod ?n = (b mod ?n + (i + (?n - b mod ?n))) mod ?n" unfolding k_def by (simp add: mod_simps)
      also have "b mod ?n + (i + (?n - b mod ?n)) = i + ?n"
      proof -
        have "b mod ?n < ?n" using assms(1) by simp
        then show ?thesis by linarith
      qed
      finally show ?thesis using that by simp
    qed
    ultimately show ?thesis using t(3) that by auto
  qed
  show ?thesis
  proof (cases "t = ?n")
    case True
    then show ?thesis using all t(1) by (auto simp: r_def in_set_conv_nth)
  next
    case False
    then have "picks b ts r" "r < ?n" using t assms(1) by (auto simp: r_def picks_def intro!: exI [of _ t])
    moreover then have "ts ! r \<in> set ts" "runs ts r" by (auto simp: picks_def)
    ultimately show ?thesis by auto
  qed
qed

section \<open>Contract of \<open>getNext\<close>\<close>

lemma mset_removeTask:
  assumes "p < length ts"
  shows "mset (removeTask p ts) = mset ts - {#ts ! p#}" "length (removeTask p ts) = length ts - 1"
proof -
  define us where "us = (if p \<noteq> length ts - 1 then swap_at p (length ts - 1) ts else ts)"
  have ne: "us \<noteq> []" using assms by (auto simp: us_def swap_at_def)
  have rm: "removeTask p ts = butlast us" by (simp only: removeTask_def us_def)
  have "last us = ts ! p" "mset us = mset ts" "length us = length ts"
    using assms ne by (auto simp: us_def last_conv_nth nth_swap_at) (auto simp: swap_at_def mset_swap)
  moreover have "mset us = mset (butlast us) + {#last us#}"
    using append_butlast_last_id [OF ne] by (metis mset_append mset_single_iff_right)
  ultimately have "mset ts = add_mset (ts ! p) (mset (butlast us))" "length us = length ts" by simp_all
  then show "mset (removeTask p ts) = mset ts - {#ts ! p#}" "length (removeTask p ts) = length ts - 1"
    by (simp_all add: rm)
qed

lemma getNext_running:
  assumes "p < length ts" "distinct (map tid ts)" "tstate (ts ! p) \<noteq> COMPLETED" "tstate (ts ! p) \<noteq> DO_NOT_DISTURB"
  shows "\<exists>r. getNext p ts = (r, ts[p := (ts ! p)\<lparr>tstate := RUNNING\<rparr>]) \<and> r < length ts \<and>
    picks (p + 1) (ts[p := (ts ! p)\<lparr>tstate := RUNNING\<rparr>]) r"
proof -
  define us where "us = ts[p := (ts ! p)\<lparr>tstate := RUNNING\<rparr>]"
  have us: "length us = length ts" "us \<noteq> []" "tstate (us ! p) = RUNNING" using assms(1) by (auto simp: us_def)
  define r where "r = (let (nextIdx, tried) = nextRunnable us ((p + 1) mod length us) 0 in if tried = length us then length us else nextIdx)"
  have "us ! p \<in> set us" using us assms(1) by (intro nth_mem) simp
  then have "\<exists>t\<in>set us. isRunnableState (tstate t)" using us by (auto simp: isRunnableState.simps)
  then have "r < length us \<and> picks (p + 1) us r" using next_found [OF us(2), of "p + 1"] unfolding r_def by presburger
  moreover have "getNext p ts = (r, us)"
    using assms us findTask_own [OF assms(2,1)]
    by (simp add: getNext_def Let_def us_def [symmetric] r_def split: prod.splits)
  ultimately show ?thesis unfolding us_def by simp
qed

lemma getNext_completed:
  assumes "p < length ts" "distinct (map tid ts)" "tstate (ts ! p) = COMPLETED"
  defines "us \<equiv> removeTask p ts"
  shows "\<exists>r. getNext p ts = (r, us) \<and>
    (if \<exists>t\<in>set us. isRunnableState (tstate t) then r < length us \<and> picks (p + 1) us r else r = length us)"
proof (cases "us = []")
  case True
  then show ?thesis using assms findTask_own [OF assms(2,1)]
    by (simp add: getNext_def us_def Let_def)
next
  case False
  define r where "r = (let (nextIdx, tried) = nextRunnable us ((p + 1) mod length us) 0 in if tried = length us then length us else nextIdx)"
  have "getNext p ts = (r, us)"
    using assms(1-3) False findTask_own [OF assms(2,1)]
    by (simp add: getNext_def Let_def us_def [symmetric] r_def split: prod.splits)
  then show ?thesis using next_found [OF False, of "p + 1"] unfolding r_def by blast
qed

lemma getNext_dnd:
  "p < length ts \<Longrightarrow> distinct (map tid ts) \<Longrightarrow> tstate (ts ! p) = DO_NOT_DISTURB \<Longrightarrow> getNext p ts = (p, ts)"
  by (simp add: getNext_def findTask_own)

text \<open>What \<open>getNext\<close> keeps: ids stay distinct, no thread but \<open>prevTask\<close> changes or disappears, and no
  saved context changes.\<close>

definition same_ids :: "Thread list \<Rightarrow> Thread list \<Rightarrow> bool" where
  "same_ids us ts \<longleftrightarrow> (\<forall>t\<in>set us. \<exists>t'\<in>set ts. tid t = tid t' \<and> execContext t = execContext t')"

lemma set_state_keeps:
  fixes st :: TaskState
  assumes "p < length ts"
  defines "us \<equiv> ts[p := (ts ! p)\<lparr>tstate := st\<rparr>]"
  shows "map tid us = map tid ts" "same_ids us ts" "same_ids ts us"
    "\<forall>t\<in>set ts. tid t \<noteq> tid (ts ! p) \<longrightarrow> t \<in> set us"
proof -
  have len: "length us = length ts" by (simp add: us_def)
  have nth: "tid (us ! i) = tid (ts ! i)" "execContext (us ! i) = execContext (ts ! i)" if "i < length ts" for i
    using that assms(1) by (simp_all add: us_def nth_list_update)
  show "map tid us = map tid ts" using len nth(1) by (intro nth_equalityI) simp_all
  show "same_ids us ts" "same_ids ts us" using nth len unfolding same_ids_def by (metis in_set_conv_nth)+
  show "\<forall>t\<in>set ts. tid t \<noteq> tid (ts ! p) \<longrightarrow> t \<in> set us"
  proof (intro ballI impI)
    fix t assume t: "t \<in> set ts" "tid t \<noteq> tid (ts ! p)"
    obtain i where i: "i < length ts" "t = ts ! i" using t(1) by (auto simp: in_set_conv_nth)
    then have "us ! i = t" using t(2) by (cases "i = p") (auto simp: us_def)
    then show "t \<in> set us" using i(1) len by (metis nth_mem)
  qed
qed

lemma getNext_keeps:
  assumes "p < length ts" "distinct (map tid ts)" "getNext p ts = (r, us)"
  shows "distinct (map tid us)" "same_ids us ts" "\<forall>t\<in>set ts. tid t \<noteq> tid (ts ! p) \<longrightarrow> t \<in> set us"
    "r \<noteq> length us \<Longrightarrow> r < length us" "tstate (ts ! p) \<noteq> COMPLETED \<Longrightarrow> same_ids ts us"
proof -
  have self: "same_ids ts ts" by (auto simp: same_ids_def)
  consider "tstate (ts ! p) = DO_NOT_DISTURB" | "tstate (ts ! p) = COMPLETED"
    | "tstate (ts ! p) \<noteq> COMPLETED" "tstate (ts ! p) \<noteq> DO_NOT_DISTURB" by blast
  then have "distinct (map tid us) \<and> same_ids us ts \<and> (\<forall>t\<in>set ts. tid t \<noteq> tid (ts ! p) \<longrightarrow> t \<in> set us) \<and>
    (r \<noteq> length us \<longrightarrow> r < length us) \<and> (tstate (ts ! p) \<noteq> COMPLETED \<longrightarrow> same_ids ts us)"
  proof cases
    case 1
    then show ?thesis using getNext_dnd [OF assms(1,2)] assms self by simp
  next
    case 2
    then have us: "us = removeTask p ts" "r \<noteq> length us \<longrightarrow> r < length us"
      using getNext_completed [OF assms(1,2)] assms(3) by (auto split: if_splits)
    have m: "mset us = mset ts - {#ts ! p#}" "mset ts = add_mset (ts ! p) (mset us)"
      using mset_removeTask [OF assms(1)] us assms(1) by simp_all
    then have "set us \<subseteq> set ts" "set ts = insert (ts ! p) (set us)"
      by (metis set_mset_mset in_diffD subsetI, metis set_mset_mset set_mset_add_mset_insert)
    moreover have "distinct (map tid us)"
    proof -
      have "mset (map tid ts) = add_mset (tid (ts ! p)) (mset (map tid us))" using m(2) by simp
      then have "distinct (tid (ts ! p) # map tid us)"
        using assms(2) by (metis mset.simps(2) mset_eq_imp_distinct_iff)
      then show ?thesis by simp
    qed
    ultimately show ?thesis using us 2 by (auto simp: same_ids_def)
  next
    case 3
    then have us: "us = ts[p := (ts ! p)\<lparr>tstate := RUNNING\<rparr>]" "r < length ts"
      using getNext_running [OF assms(1,2)] assms(3) by auto
    then show ?thesis using set_state_keeps [OF assms(1), of RUNNING] assms(2) by auto
  qed
  then show "distinct (map tid us)" "same_ids us ts" "\<forall>t\<in>set ts. tid t \<noteq> tid (ts ! p) \<longrightarrow> t \<in> set us"
    "r \<noteq> length us \<Longrightarrow> r < length us" "tstate (ts ! p) \<noteq> COMPLETED \<Longrightarrow> same_ids ts us" by auto
qed

section \<open>Steps of the kernel\<close>

text \<open>What the running thread or an interrupt can do to the threads. The id counter is assumed not to wrap.\<close>

inductive kstep :: "KState \<Rightarrow> KState \<Rightarrow> bool" where
  tick: "premptiveScheduler f k = Some (k', t) \<Longrightarrow> kstep k k'"
| yield: "yield_thread f k = Some (k', t) \<Longrightarrow> kstep k k'"
| parked: "park f k = Some (k', t) \<Longrightarrow> kstep k k'"
| set_park: "setpark k = Some k' \<Longrightarrow> kstep k k'"
| unparked: "unpark x k = Some k' \<Longrightarrow> kstep k k'"
| exited: "thread_exit f k = Some (k', t) \<Longrightarrow> kstep k k'"
| spawned: "currId k \<noteq> - 1 \<Longrightarrow> kstep k (spawn w f s k)"

definition k_inv :: "KState \<Rightarrow> bool" where
  "k_inv k \<longleftrightarrow> distinct (map tid (kthreads k)) \<and> currKThreadIdx k < length (kthreads k) \<and>
     (\<forall>t\<in>set (kthreads k). tid t < currId k)"

abbreviation current :: "KState \<Rightarrow> Thread" where "current k \<equiv> kthreads k ! currKThreadIdx k"

text \<open>\<open>keeps x k k'\<close>: thread \<open>x\<close> is still there, with the same saved context.\<close>

definition saved :: "KState \<Rightarrow> u64 \<Rightarrow> ExecContext \<Rightarrow> bool" where
  "saved k x c \<longleftrightarrow> (\<exists>t\<in>set (kthreads k). tid t = x \<and> execContext t = c)"

lemma updThread_map:
  "(\<And>t. g (f t) = g t) \<Longrightarrow> map g (kthreads (updThread i f k)) = map g (kthreads k)"
  by (simp add: updThread_def map_update) (metis list_update_id map_update)

lemma updThread_tid:
  assumes "\<And>t. tid (f t) = tid t"
  shows "map tid (kthreads (updThread i f k)) = map tid (kthreads k)" "length (kthreads (updThread i f k)) = length (kthreads k)"
    "currKThreadIdx (updThread i f k) = currKThreadIdx k" "currId (updThread i f k) = currId k"
  by (rule updThread_map [of tid f, OF assms]) (simp_all add: updThread_def)

lemma updThread_inv:
  assumes "k_inv k" "\<And>t. tid (f t) = tid t"
  shows "k_inv (updThread i f k)"
proof -
  have "tid ` set (kthreads (updThread i f k)) = tid ` set (kthreads k)"
    using updThread_tid(1) [OF assms(2)] by (metis set_map)
  then have "\<forall>t\<in>set (kthreads (updThread i f k)). tid t < currId k"
    using assms(1) unfolding k_inv_def by (metis (no_types, lifting) image_iff)
  then show ?thesis using assms(1) updThread_tid [OF assms(2)] by (simp add: k_inv_def)
qed

lemma updThread_saved:
  assumes "saved k x c" "x \<noteq> tid (kthreads k ! i) \<or> (\<forall>t. tid (f t) = tid t \<and> execContext (f t) = execContext t)"
  shows "saved (updThread i f k) x c"
proof -
  obtain j where j: "j < length (kthreads k)" "tid (kthreads k ! j) = x" "execContext (kthreads k ! j) = c"
    using assms(1) by (auto simp: saved_def in_set_conv_nth)
  have "kthreads (updThread i f k) ! j \<in> set (kthreads (updThread i f k))" using j by (simp add: updThread_def)
  moreover have "tid (kthreads (updThread i f k) ! j) = x" "execContext (kthreads (updThread i f k) ! j) = c"
    using j assms(2) by (cases "i = j"; auto simp: updThread_def)+
  ultimately show ?thesis unfolding saved_def by blast
qed

lemma schedule_keeps:
  assumes "k_inv k" "scheduleKernelThread (currKThreadIdx k) k = Some (k', t)"
  shows "k_inv k'" "t = current k'"
    "x \<noteq> tid (current k) \<or> tstate (current k) \<noteq> COMPLETED \<Longrightarrow> saved k x c \<Longrightarrow> saved k' x c"
proof -
  let ?p = "currKThreadIdx k"
  define k1 where "k1 = updThread ?p resetContextSwitchInfo k"
  have same: "\<And>t. tid (resetContextSwitchInfo t) = tid t" "\<And>t. execContext (resetContextSwitchInfo t) = execContext t"
    "\<And>t. tstate (resetContextSwitchInfo t) = tstate t"
    by (simp_all add: resetContextSwitchInfo_def)
  have k1: "k_inv k1" "currKThreadIdx k1 = ?p" "tid (kthreads k1 ! ?p) = tid (current k)"
    "tstate (kthreads k1 ! ?p) = tstate (current k)"
    using updThread_inv [OF assms(1) same(1)] updThread_tid [OF same(1)] assms(1)
    by (simp_all add: k1_def k_inv_def updThread_def same)
  obtain r us where g: "getNext ?p (kthreads k1) = (r, us)" by fastforce
  have k': "r \<noteq> length us" "k' = k1\<lparr>kthreads := us, currKThreadIdx := r\<rparr>" "t = us ! r"
    using assms(2) g by (auto simp: scheduleKernelThread_def k1_def [symmetric] Let_def split: if_splits)
  have p: "?p < length (kthreads k1)" "distinct (map tid (kthreads k1))" using k1 by (simp_all add: k_inv_def)
  note gk = getNext_keeps [OF p g]
  have "tid u < currId k1" if "u \<in> set us" for u
    using gk(2) that k1(1) unfolding same_ids_def k_inv_def by metis
  then show "k_inv k'" using gk k' by (simp add: k_inv_def)
  show "t = current k'" using k' by simp
  show "saved k' x c" if "x \<noteq> tid (current k) \<or> tstate (current k) \<noteq> COMPLETED" "saved k x c"
  proof -
    have "saved k1 x c" unfolding k1_def using that(2) same by (intro updThread_saved) auto
    then show ?thesis using gk(3,5) that(1) k1(3,4) k'(2) by (fastforce simp: saved_def same_ids_def)
  qed
qed

lemma premptive_keeps:
  assumes "k_inv k" "premptiveScheduler f k = Some (k', t)"
  shows "k_inv k'" "t = current k'"
    "x \<noteq> tid (current k) \<Longrightarrow> saved k x c \<Longrightarrow> saved k' x c"
    "tstate (current k) \<noteq> COMPLETED \<Longrightarrow> saved k' (tid (current k)) (execContext (copyFromISRFrame f (current k)))"
proof -
  let ?p = "currKThreadIdx k"
  define k1 where "k1 = updThread ?p (copyFromISRFrame f) k"
  have same: "\<And>t. tid (copyFromISRFrame f t) = tid t" by (simp add: copyFromISRFrame_def)
  have p: "?p < length (kthreads k)" using assms(1) by (simp add: k_inv_def)
  have k1: "k_inv k1" "currKThreadIdx k1 = ?p" "current k1 = copyFromISRFrame f (current k)"
    using updThread_inv [OF assms(1) same] p by (simp_all add: k1_def updThread_def)
  have s: "scheduleKernelThread (currKThreadIdx k1) k1 = Some (k', t)"
    using assms(2) p k1(2) by (simp add: premptiveScheduler_def k1_def)
  note sk = schedule_keeps [OF k1(1) s]
  show "k_inv k'" "t = current k'" by fact+
  have id: "tid (current k1) = tid (current k)" "tstate (current k1) = tstate (current k)"
    using k1(3) by (simp_all add: copyFromISRFrame_def)
  show "saved k' x c" if "x \<noteq> tid (current k)" "saved k x c"
    using sk(3) [of x c] updThread_saved [of k x c ?p "copyFromISRFrame f"] that id by (simp add: k1_def)
  show "saved k' (tid (current k)) (execContext (copyFromISRFrame f (current k)))" if "tstate (current k) \<noteq> COMPLETED"
  proof -
    have "current k1 \<in> set (kthreads k1)" using k1(1) by (simp add: k_inv_def)
    then have "saved k1 (tid (current k)) (execContext (copyFromISRFrame f (current k)))"
      unfolding saved_def using id(1) k1(3) by metis
    then show ?thesis using sk(3) id that by simp
  qed
qed

lemma thisThread_keeps:
  assumes "k_inv k" "thisThread f k = Some k1" "\<And>t. tid (f t) = tid t"
  shows "k_inv k1" "tid (current k1) = tid (current k)" "x \<noteq> tid (current k) \<Longrightarrow> saved k x c \<Longrightarrow> saved k1 x c"
  using assms updThread_inv [OF assms(1,3)] updThread_saved [of k x c "currKThreadIdx k" f]
  by (auto simp: thisThread_def updThread_def split: if_splits)

definition keeps :: "KState \<Rightarrow> KState \<Rightarrow> bool" where
  "keeps k k' \<longleftrightarrow> k_inv k' \<and> (\<forall>x c. x \<noteq> tid (current k) \<longrightarrow> saved k x c \<longrightarrow> saved k' x c)"

lemma keeps_premptive: "k_inv k \<Longrightarrow> premptiveScheduler f k = Some (k', t) \<Longrightarrow> keeps k k'"
  using premptive_keeps unfolding keeps_def by blast

lemma keeps_this:
  assumes "k_inv k" "Option.bind (thisThread f k) g = Some z" "\<And>t. tid (f t) = tid t"
    and "\<And>k1. k_inv k1 \<Longrightarrow> g k1 = Some z \<Longrightarrow> keeps k1 k'"
  shows "keeps k k'"
proof -
  obtain k1 where k1: "thisThread f k = Some k1" "g k1 = Some z" using assms(2) by (auto simp: bind_eq_Some_conv)
  note t = thisThread_keeps [OF assms(1) k1(1) assms(3)]
  show ?thesis using t(3) assms(4) [OF t(1) k1(2)] unfolding keeps_def t(2) by blast
qed

lemma keeps_yield: "k_inv k \<Longrightarrow> yield_thread f k = Some (k', t) \<Longrightarrow> keeps k k'"
  unfolding yield_thread_def by (erule (1) keeps_this) (auto intro: keeps_premptive)

lemma kstep_keeps:
  assumes "kstep k k'" "k_inv k"
  shows "keeps k k'"
  using assms
proof (induction rule: kstep.induct)
  case (tick f k k' t)
  then show ?case by (blast intro: keeps_premptive)
next
  case (yield f k k' t)
  then show ?case by (blast intro: keeps_yield)
next
  case (parked f k k' t)
  then show ?case unfolding park_def by (elim keeps_this [rotated]) (auto intro: keeps_yield)
next
  case (set_park k k')
  then show ?case unfolding setpark_def keeps_def using thisThread_keeps [OF set_park(2)] by auto
next
  case (unparked x k k')
  then obtain i where "k' = updThread i (tstate_update (\<lambda>_. RUNNING)) k" by (auto simp: unpark_def)
  then show ?case unfolding keeps_def using updThread_inv [OF unparked(2)] updThread_saved by auto
next
  case (exited f k k' t)
  then show ?case unfolding thread_exit_def by (elim keeps_this [rotated]) (auto intro: keeps_yield)
next
  case (spawned k w f s)
  have "1 + currId k \<noteq> 0" using spawned(1) by (simp add: eq_neg_iff_add_eq_0 add.commute)
  then have m: "currId k < currId k + 1" using unatSuc [of "currId k"] by (simp add: word_less_nat_alt add.commute)
  then have "tid t < currId k + 1" if "t \<in> set (kthreads k)" for t
    using that spawned(2) by (auto simp: k_inv_def intro: less_trans)
  then have "k_inv (spawn w f s k)" using spawned(2) m by (auto simp: k_inv_def spawn_def new_Thread_def)
  then show ?case by (auto simp: keeps_def saved_def spawn_def)
qed

section \<open>Correctness of scheduling\<close>

text \<open>C8: \<open>getNext\<close> is round robin: when the previous task has not completed and is not in
  \<open>DO_NOT_DISTURB\<close>, it is made \<open>RUNNING\<close> and the result is the index of the first runnable task in cyclic
  order after it (so always an index of the vector); a \<open>DO_NOT_DISTURB\<close> task keeps the processor; a completed
  task is removed from the vector, nothing else is, and the result is the size of the vector only if no
  runnable task is left.\<close>

theorem getNext_round_robin:
  assumes "p < length ts" "distinct (map tid ts)"
  shows "(tstate (ts ! p) = DO_NOT_DISTURB \<longrightarrow> getNext p ts = (p, ts)) \<and>
    (tstate (ts ! p) = COMPLETED \<longrightarrow> (\<exists>r us. getNext p ts = (r, us) \<and> mset us = mset ts - {#ts ! p#} \<and>
        (if \<exists>t\<in>set us. isRunnableState (tstate t) then r < length us \<and> picks (p + 1) us r else r = length us))) \<and>
    (tstate (ts ! p) \<notin> {COMPLETED, DO_NOT_DISTURB} \<longrightarrow> (\<exists>r us. getNext p ts = (r, us) \<and>
        us = ts[p := (ts ! p)\<lparr>tstate := RUNNING\<rparr>] \<and> r < length us \<and> picks (p + 1) us r))"
proof (intro conjI impI)
  assume c: "tstate (ts ! p) = COMPLETED"
  show "\<exists>r us. getNext p ts = (r, us) \<and> mset us = mset ts - {#ts ! p#} \<and>
        (if \<exists>t\<in>set us. isRunnableState (tstate t) then r < length us \<and> picks (p + 1) us r else r = length us)"
    using getNext_completed [OF assms c] mset_removeTask(1) [OF assms(1)] by blast
qed (use getNext_running [OF assms] getNext_dnd [OF assms] in auto)

definition demo_thread :: "u64 \<Rightarrow> TaskState \<Rightarrow> Thread" where
  "demo_thread i st = (new_Thread 0x1000 0x2000 0 i)\<lparr>tstate := st\<rparr>"

theorem getNext_round_robin_witness:
  "\<exists>r us. getNext 0 [demo_thread 1 RUNNING, demo_thread 2 SLEEPING, demo_thread 3 NOT_STARTED] = (r, us) \<and> r < 3 \<and>
     picks 1 us r"
  using getNext_round_robin [of 0 "[demo_thread 1 RUNNING, demo_thread 2 SLEEPING, demo_thread 3 NOT_STARTED]"]
  by (auto simp: demo_thread_def new_Thread_def)

text \<open>C10: scheduling invariant: from a state with distinct thread ids below the id counter and a valid
  current index, every sequence of timer interrupts, yields, parks, unparks, exits and new threads leads to such
  a state again; the kernel never resumes a thread outside its vector and \<open>getThread\<close> is never ambiguous.\<close>

theorem kernel_steps_invariant:
  assumes "k_inv k" "kstep\<^sup>*\<^sup>* k k'"
  shows "currKThreadIdx k' < length (kthreads k') \<and> distinct (map tid (kthreads k')) \<and>
    (\<forall>i<length (kthreads k'). getThread (tid (kthreads k' ! i)) (kthreads k') = Some i)"
proof -
  have "k_inv k'" using assms(2,1) by (induction rule: rtranclp_induct) (auto dest: kstep_keeps simp: keeps_def)
  then show ?thesis by (simp add: k_inv_def getThread_def findTask_own)
qed

definition demo_kernel :: KState where
  "demo_kernel = \<lparr>kthreads = [demo_thread 1 RUNNING, demo_thread 2 RUNNING], currKThreadIdx = 0, currId = 3\<rparr>"

lemma demo_kernel_inv: "k_inv demo_kernel"
  by (simp add: k_inv_def demo_kernel_def demo_thread_def new_Thread_def)

theorem kernel_steps_invariant_witness:
  "kstep\<^sup>*\<^sup>* demo_kernel (spawn 1 2 3 demo_kernel) \<and>
   distinct (map tid (kthreads (spawn 1 2 3 demo_kernel)))"
proof -
  have "kstep demo_kernel (spawn 1 2 3 demo_kernel)" by (rule kstep.spawned) (simp add: demo_kernel_def)
  then have s: "kstep\<^sup>*\<^sup>* demo_kernel (spawn 1 2 3 demo_kernel)" by (rule r_into_rtranclp)
  then show ?thesis using kernel_steps_invariant [OF demo_kernel_inv s] by simp
qed

text \<open>C7: context switches restore what was interrupted: a thread interrupted with register frame \<open>f\<close> that
  is current again after any number of steps of other threads is resumed with exactly the general registers,
  instruction pointer, stack pointer and flags of \<open>f\<close>.\<close>

theorem context_restored:
  assumes "k_inv k" "tstate (current k) \<noteq> COMPLETED" "premptiveScheduler f k = Some (k1, t)"
    and "(\<lambda>a b. kstep a b \<and> tid (current a) \<noteq> tid (current k))\<^sup>*\<^sup>* k1 k2" "tid (current k2) = tid (current k)"
  shows "let g = fst (return_from_interrupt cs ss info (current k2)) in
    genRegisters g = genRegisters f \<and> if_rip (interruptFrame g) = if_rip (interruptFrame f) \<and>
    if_rsp (interruptFrame g) = if_rsp (interruptFrame f) \<and> if_rflags (interruptFrame g) = if_rflags (interruptFrame f)"
proof -
  let ?x = "tid (current k)" and ?c = "execContext (copyFromISRFrame f (current k))"
  have "k_inv k2 \<and> saved k2 ?x ?c"
    using assms(4)
  proof (induction rule: rtranclp_induct)
    case base
    then show ?case using premptive_keeps [OF assms(1,3)] assms(2) by simp
  next
    case (step a b)
    then show ?case using kstep_keeps [of a b] by (auto simp: keeps_def)
  qed
  then obtain i where i: "i < length (kthreads k2)" "tid (kthreads k2 ! i) = ?x" "execContext (kthreads k2 ! i) = ?c"
    and inv: "k_inv k2" by (auto simp: saved_def in_set_conv_nth)
  then have "i = currKThreadIdx k2"
    using assms(5) by (auto simp: k_inv_def distinct_conv_nth) (metis length_map nth_map)
  then show ?thesis using i(3) by (simp add: return_from_interrupt_def copyFromISRFrame_def Let_def)
qed

definition demo_frame :: ISRFrame where
  "demo_frame = \<lparr>genRegisters = zeroRegisters\<lparr>rax := 7\<rparr>, isrNumber = 32, errorCode = 0,
     interruptFrame = \<lparr>if_rip = 0x5000, if_cs = 8, if_rflags = 514, if_rsp = 0x9000, if_ss = 16\<rparr>\<rparr>"

theorem context_restored_witness:
  "\<exists>k1 t1 k2. premptiveScheduler demo_frame demo_kernel = Some (k1, t1) \<and> tid t1 = 2 \<and> tid (current k2) = 1 \<and>
     rax (genRegisters (fst (return_from_interrupt 8 16 0 (current k2)))) = 7"
proof -
  have "map_option (\<lambda>(k, t). (tid t, tid (current k))) (premptiveScheduler demo_frame demo_kernel) = Some (2, 2)"
    by code_simp
  then obtain k1 t1 where k1: "premptiveScheduler demo_frame demo_kernel = Some (k1, t1)" "tid t1 = 2" "tid (current k1) = 2"
    by auto
  have "map_option (\<lambda>(k, t). tid (current k))
      (Option.bind (premptiveScheduler demo_frame demo_kernel) (\<lambda>(k, t). premptiveScheduler demo_frame k)) = Some 1"
    by code_simp
  then obtain k2 t2 where k2: "premptiveScheduler demo_frame k1 = Some (k2, t2)" "tid (current k2) = 1"
    using k1(1) by auto
  have c: "tid (current demo_kernel) = 1" "tstate (current demo_kernel) \<noteq> COMPLETED"
    by (simp_all add: demo_kernel_def demo_thread_def new_Thread_def)
  have "kstep k1 k2" using k2(1) by (rule kstep.tick)
  then have "(\<lambda>a b. kstep a b \<and> tid (current a) \<noteq> tid (current demo_kernel))\<^sup>*\<^sup>* k1 k2" using k1(3) c(1) by auto
  from context_restored [OF demo_kernel_inv c(2) k1(1) this, of 8 16 0] k2(2) c(1) k1 show ?thesis
    by (auto simp: Let_def demo_frame_def)
qed

text \<open>Consecutive timer interrupts with the given frames.\<close>

fun ticks :: "ISRFrame list \<Rightarrow> KState \<Rightarrow> KState option" where
  "ticks [] k = Some k"
| "ticks (f # fs) k = Option.bind (premptiveScheduler f k) (\<lambda>(k', _). ticks fs k')"

definition all_runnable :: "KState \<Rightarrow> bool" where
  "all_runnable k \<longleftrightarrow> (\<forall>t\<in>set (kthreads k). isRunnableState (tstate t))"

lemma picks_next: "picks b ts r \<Longrightarrow> runs ts (b mod length ts) \<Longrightarrow> r = b mod length ts"
  unfolding picks_def by (metis add_0_right gr_zeroI)

lemma tick_all_runnable:
  assumes "k_inv k" "all_runnable k"
  shows "\<exists>k' t. premptiveScheduler f k = Some (k', t) \<and> k_inv k' \<and> all_runnable k' \<and>
    currKThreadIdx k' = (currKThreadIdx k + 1) mod length (kthreads k) \<and> map tid (kthreads k') = map tid (kthreads k)"
proof -
  let ?p = "currKThreadIdx k" and ?n = "length (kthreads k)"
  define k0 where "k0 = updThread ?p (copyFromISRFrame f) k"
  define k1 where "k1 = updThread ?p resetContextSwitchInfo k0"
  have same: "tid (copyFromISRFrame f t) = tid t" "tid (resetContextSwitchInfo t) = tid t"
    "tstate (copyFromISRFrame f t) = tstate t" "tstate (resetContextSwitchInfo t) = tstate t" for t
    by (simp_all add: copyFromISRFrame_def resetContextSwitchInfo_def)
  have p: "?p < ?n" using assms(1) by (simp add: k_inv_def)
  have k1: "k_inv k1" "map tid (kthreads k1) = map tid (kthreads k)" "map tstate (kthreads k1) = map tstate (kthreads k)"
    using updThread_inv [OF updThread_inv [OF assms(1)]] same
    by (simp_all add: k1_def k0_def updThread_map)
  then have len: "length (kthreads k1) = ?n" by (metis length_map)
  define us where "us = (kthreads k1)[?p := (kthreads k1 ! ?p)\<lparr>tstate := RUNNING\<rparr>]"
  have run: "isRunnableState (tstate t)" if "t \<in> set us" for t
  proof -
    have "tstate ` set (kthreads k1) = tstate ` set (kthreads k)" using k1(3) by (metis set_map)
    then have "\<forall>t\<in>set (kthreads k1). isRunnableState (tstate t)"
      using assms(2) unfolding all_runnable_def by (metis (no_types, lifting) image_iff)
    then show ?thesis using that unfolding us_def
      by (auto simp: isRunnableState.simps dest!: set_update_subset_insert [THEN subsetD])
  qed
  have st: "isRunnableState (tstate (kthreads k1 ! ?p))"
    using assms(2) p k1(3) len by (metis all_runnable_def nth_map nth_mem)
  obtain r where r: "getNext ?p (kthreads k1) = (r, us)" "r < ?n" "picks (?p + 1) us r"
    using getNext_running [of ?p "kthreads k1"] st k1(1) p len unfolding us_def
    by (auto simp: isRunnableState.simps k_inv_def)
  have len': "length us = ?n" using len by (simp add: us_def)
  moreover have "(?p + 1) mod ?n < ?n" using p by (intro mod_less_divisor) linarith
  ultimately have "us ! ((?p + 1) mod ?n) \<in> set us" by (intro nth_mem) simp
  then have rr: "r = (?p + 1) mod ?n" using picks_next [OF r(3)] run len' by simp
  define k' where "k' = k1\<lparr>kthreads := us, currKThreadIdx := r\<rparr>"
  have pr: "premptiveScheduler f k = Some (k', us ! r)"
    using p r(1,2) len' by (simp add: premptiveScheduler_def scheduleKernelThread_def k0_def [symmetric] k1_def [symmetric] k'_def)
  moreover have "map tid us = map tid (kthreads k)"
    using set_state_keeps(1) [of ?p "kthreads k1" RUNNING] p len k1(2) by (simp add: us_def)
  ultimately show ?thesis
    using premptive_keeps(1) [OF assms(1) pr] run rr by (auto simp: k'_def all_runnable_def)
qed

text \<open>C9: fairness: as long as every thread is runnable, \<open>n\<close> timer interrupts always succeed and the
  running thread is the one \<open>n\<close> places further in the cyclic order; in particular every thread of a vector of
  \<open>m\<close> threads runs once in any \<open>m\<close> consecutive time slices.\<close>

theorem round_robin_fair:
  assumes "k_inv k" "all_runnable k"
  shows "\<exists>k'. ticks fs k = Some k' \<and> map tid (kthreads k') = map tid (kthreads k) \<and>
    currKThreadIdx k' = (currKThreadIdx k + length fs) mod length (kthreads k) \<and>
    (i < length (kthreads k) \<longrightarrow> (\<exists>n<length (kthreads k). (currKThreadIdx k + n) mod length (kthreads k) = i))"
proof -
  have "\<exists>k'. ticks fs k = Some k' \<and> map tid (kthreads k') = map tid (kthreads k) \<and>
    currKThreadIdx k' = (currKThreadIdx k + length fs) mod length (kthreads k)"
    using assms
  proof (induction fs arbitrary: k)
    case Nil
    then show ?case by (simp add: k_inv_def)
  next
    case (Cons f fs)
    obtain k1 t where k1: "premptiveScheduler f k = Some (k1, t)" "k_inv k1" "all_runnable k1"
      "currKThreadIdx k1 = (currKThreadIdx k + 1) mod length (kthreads k)" "map tid (kthreads k1) = map tid (kthreads k)"
      using tick_all_runnable [OF Cons.prems] by blast
    have len: "length (kthreads k1) = length (kthreads k)" using k1(5) by (metis length_map)
    show ?case using Cons.IH [OF k1(2,3)] k1 len by (simp add: mod_simps)
  qed
  moreover have "\<exists>n<length (kthreads k). (currKThreadIdx k + n) mod length (kthreads k) = i" if i: "i < length (kthreads k)"
  proof -
    let ?m = "length (kthreads k)" and ?c = "currKThreadIdx k"
    have c: "?c < ?m" using assms(1) by (simp add: k_inv_def)
    have "(?c + (if ?c \<le> i then i - ?c else ?m - ?c + i)) mod ?m = i" using i c by auto
    then show ?thesis using i c by (intro exI [of _ "if ?c \<le> i then i - ?c else ?m - ?c + i"]) auto
  qed
  ultimately show ?thesis by blast
qed

theorem round_robin_fair_witness:
  "\<exists>k'. ticks [demo_frame, demo_frame, demo_frame] demo_kernel = Some k' \<and> currKThreadIdx k' = 1"
proof -
  have "all_runnable demo_kernel"
    by (simp add: all_runnable_def demo_kernel_def demo_thread_def isRunnableState.simps)
  moreover have "currKThreadIdx demo_kernel = 0" "length (kthreads demo_kernel) = 2" by (simp_all add: demo_kernel_def)
  ultimately show ?thesis
    using round_robin_fair [OF demo_kernel_inv, of "[demo_frame, demo_frame, demo_frame]" 0] by auto
qed

text \<open>\<open>park\<close> does not put a thread to sleep: \<open>getNext\<close> resets the state of the previous task to
  \<open>RUNNING\<close>, so after a park the parked thread is in state \<open>RUNNING\<close> without any \<open>unpark\<close>, and it gets the
  processor again in its next turn.\<close>

theorem park_does_not_sleep:
  assumes "k_inv k"
  shows "\<exists>k' t. park f k = Some (k', t) \<and>
    (\<forall>u\<in>set (kthreads k'). tid u = tid (current k) \<longrightarrow> tstate u = RUNNING)"
proof -
  let ?p = "currKThreadIdx k"
  define g where "g t = resetContextSwitchInfo (copyFromISRFrame f (t\<lparr>tstate := SLEEPING, contextSwitchMethod := YIELDED\<rparr>))" for t
  define ts where "ts = (kthreads k)[?p := g (kthreads k ! ?p)]"
  have p: "?p < length ts" "?p < length (kthreads k)" using assms by (simp_all add: k_inv_def ts_def)
  have g: "tid (g t) = tid t" "tstate (g t) = SLEEPING" for t
    by (simp_all add: g_def resetContextSwitchInfo_def copyFromISRFrame_def)
  have d: "map tid ts = map tid (kthreads k)" "distinct (map tid ts)"
    using updThread_map [of tid g ?p k] g assms by (simp_all add: ts_def updThread_def k_inv_def)
  define us where "us = ts[?p := (ts ! ?p)\<lparr>tstate := RUNNING\<rparr>]"
  obtain r where r: "getNext ?p ts = (r, us)" "r < length ts"
    using getNext_running [OF p(1) d(2)] g p by (auto simp: us_def ts_def)
  have pk: "park f k = Some (k\<lparr>kthreads := us, currKThreadIdx := r\<rparr>, us ! r)"
    using p r by (simp add: park_def thisThread_def yield_thread_def premptiveScheduler_def scheduleKernelThread_def
        updThread_def ts_def g_def us_def Let_def)
  have "tstate u = RUNNING" if u: "u \<in> set us" "tid u = tid (current k)" for u
  proof -
    obtain i where i: "i < length us" "u = us ! i" using u(1) by (auto simp: in_set_conv_nth)
    have "map tid us = map tid (kthreads k)" using set_state_keeps(1) [OF p(1)] d(1) by (simp add: us_def)
    then have "i = ?p" using i u(2) p assms unfolding k_inv_def
      by (metis distinct_conv_nth length_map nth_map)
    then show ?thesis using i p by (simp add: us_def)
  qed
  then show ?thesis using pk by auto
qed

theorem park_does_not_sleep_witness:
  "\<exists>k' t. park demo_frame demo_kernel = Some (k', t) \<and>
    (\<forall>u\<in>set (kthreads k'). tid u = 1 \<longrightarrow> tstate u = RUNNING)"
  using park_does_not_sleep [OF demo_kernel_inv, of demo_frame]
  by (simp add: demo_kernel_def demo_thread_def new_Thread_def)

end
