(* ===== verification/Mutex.thy ===== *)
theory Mutex
  imports Scheduler
begin

text \<open>
  \<open>MutexLock\<close> (\<open>kernel/include/kernel/concurrency/primitives.h\<close>, \<open>kernel/kernel/concurrency/primitives.cpp\<close>)
  under arbitrary interleaving. Every thread has a program counter in \<open>acquireLock\<close> or \<open>releaseLock\<close>;
  a step of a thread is one access to the shared fields \<open>flag\<close>, \<open>lock\<close> and \<open>queue\<close>, or one call of
  \<open>setpark\<close>, \<open>park\<close> or \<open>unpark\<close>. A parked thread continues with the loop of \<open>acquireLock\<close> whenever it is
  scheduled again. A panic is \<^const>\<open>None\<close>.
\<close>

section \<open>State\<close>

record MutexLock =
  flag :: int
  lock :: int
  queue :: "u64 list"

datatype Pc = Idle
  | AcqSpin | AcqTest | AcqTake | AcqUnlock | AcqPush | AcqSetpark | AcqUnguard | AcqPark
  | Held
  | RelSpin | RelTest | RelClear | RelPop | RelUnpark u64 | RelUnguard

record MSys =
  mutex :: MutexLock
  pcs :: "u64 \<Rightarrow> Pc"
  kern :: KState

definition initialMutex :: MutexLock where
  "initialMutex = \<lparr>flag = 0, lock = 0, queue = []\<rparr>"

definition goto :: "u64 \<Rightarrow> Pc \<Rightarrow> MSys \<Rightarrow> MSys" where
  "goto t pc s = s\<lparr>pcs := (pcs s)(t := pc)\<rparr>"

definition setState :: "u64 \<Rightarrow> TaskState \<Rightarrow> KState \<Rightarrow> KState option" where
  "setState x st k = map_option (\<lambda>i. updThread i (tstate_update (\<lambda>_. st)) k) (getThread x (kthreads k))"

text \<open>\<open>while (__sync_val_compare_and_swap(&lock, 0, 1) == 1) continue;\<close>\<close>

definition spin :: "u64 \<Rightarrow> Pc \<Rightarrow> MSys \<Rightarrow> MSys" where
  "spin t pc s =
     (let old = lock (mutex s);
          s1 = (if old = 0 then s\<lparr>mutex := (mutex s)\<lparr>lock := 1\<rparr>\<rparr> else s)
      in if old = 1 then s1 else goto t pc s1)"

section \<open>Operations\<close>

fun acquireLock :: "u64 \<Rightarrow> Pc \<Rightarrow> MSys \<Rightarrow> MSys option" where
  "acquireLock t AcqSpin s = Some (spin t AcqTest s)"
| "acquireLock t AcqTest s = Some (goto t (if flag (mutex s) = 0 then AcqTake else AcqPush) s)"
| "acquireLock t AcqTake s = Some (goto t AcqUnlock (s\<lparr>mutex := (mutex s)\<lparr>flag := 1\<rparr>\<rparr>))"
| "acquireLock t AcqUnlock s = Some (goto t Held (s\<lparr>mutex := (mutex s)\<lparr>lock := 0\<rparr>\<rparr>))"
| "acquireLock t AcqPush s = Some (goto t AcqSetpark (s\<lparr>mutex := (mutex s)\<lparr>queue := queue (mutex s) @ [t]\<rparr>\<rparr>))"
| "acquireLock t AcqSetpark s = map_option (\<lambda>k. goto t AcqUnguard (s\<lparr>kern := k\<rparr>)) (setState t DO_NOT_DISTURB (kern s))"
| "acquireLock t AcqUnguard s = Some (goto t AcqPark (s\<lparr>mutex := (mutex s)\<lparr>lock := 0\<rparr>\<rparr>))"
| "acquireLock t AcqPark s = map_option (\<lambda>k. goto t AcqSpin (s\<lparr>kern := k\<rparr>)) (setState t RUNNING (kern s))"
| "acquireLock t _ s = Some s"

fun releaseLock :: "u64 \<Rightarrow> Pc \<Rightarrow> MSys \<Rightarrow> MSys option" where
  "releaseLock t RelSpin s = Some (spin t RelTest s)"
| "releaseLock t RelTest s = Some (goto t (if length (queue (mutex s)) = 0 then RelClear else RelPop) s)"
| "releaseLock t RelClear s = Some (goto t RelUnguard (s\<lparr>mutex := (mutex s)\<lparr>flag := 0\<rparr>\<rparr>))"
| "releaseLock t RelPop s =
     Some (goto t (RelUnpark (last (queue (mutex s)))) (s\<lparr>mutex := (mutex s)\<lparr>queue := butlast (queue (mutex s))\<rparr>\<rparr>))"
| "releaseLock t (RelUnpark x) s = map_option (\<lambda>k. goto t RelUnguard (s\<lparr>kern := k\<rparr>)) (unpark x (kern s))"
| "releaseLock t RelUnguard s = Some (goto t Idle (s\<lparr>mutex := (mutex s)\<lparr>lock := 0\<rparr>\<rparr>))"
| "releaseLock t _ s = Some s"

text \<open>A step of thread \<open>t\<close>: outside the mutex it may call \<open>acquireLock\<close>, a holder may call \<open>releaseLock\<close>.\<close>

definition mutex_step :: "u64 \<Rightarrow> MSys \<Rightarrow> MSys option" where
  "mutex_step t s =
     (case pcs s t of
        Idle \<Rightarrow> Some (goto t AcqSpin s)
      | Held \<Rightarrow> Some (goto t RelSpin s)
      | pc \<Rightarrow> if pc \<in> {AcqSpin, AcqTest, AcqTake, AcqUnlock, AcqPush, AcqSetpark, AcqUnguard, AcqPark}
              then acquireLock t pc s else releaseLock t pc s)"

inductive mstep :: "MSys \<Rightarrow> MSys \<Rightarrow> bool" where
  "mutex_step t s = Some s' \<Longrightarrow> mstep s s'"

section \<open>Invariant\<close>

fun in_guard :: "Pc \<Rightarrow> bool" where
  "in_guard Idle = False" | "in_guard Held = False" | "in_guard AcqSpin = False" | "in_guard AcqPark = False"
| "in_guard RelSpin = False" | "in_guard _ = True"

fun owns :: "Pc \<Rightarrow> bool" where
  "owns AcqUnlock = True" | "owns Held = True" | "owns RelSpin = True" | "owns RelTest = True"
| "owns RelClear = True" | "owns RelPop = True" | "owns (RelUnpark _) = True" | "owns _ = False"

definition m_inv :: "MSys \<Rightarrow> bool" where
  "m_inv s \<longleftrightarrow> lock (mutex s) \<in> {0, 1} \<and> flag (mutex s) \<in> {0, 1} \<and>
     (\<forall>t. in_guard (pcs s t) \<longrightarrow> lock (mutex s) = 1) \<and>
     (\<forall>t u. in_guard (pcs s t) \<longrightarrow> in_guard (pcs s u) \<longrightarrow> t = u) \<and>
     (\<forall>t. owns (pcs s t) \<longrightarrow> flag (mutex s) = 1) \<and>
     (\<forall>t u. owns (pcs s t) \<longrightarrow> owns (pcs s u) \<longrightarrow> t = u) \<and>
     (\<forall>t. pcs s t = AcqTake \<longrightarrow> flag (mutex s) = 0)"

lemma goto_simps [simp]:
  "mutex (goto t pc s) = mutex s" "kern (goto t pc s) = kern s" "pcs (goto t pc s) = (pcs s)(t := pc)"
  by (simp_all add: goto_def)

text \<open>What has to be checked when thread \<open>t\<close> moves to \<open>p\<close>.\<close>

lemma m_inv_move:
  assumes inv: "m_inv s" and p: "pcs s' = (pcs s)(t := p)"
    and "lock (mutex s') \<in> {0, 1}" "flag (mutex s') \<in> {0, 1}"
    and "in_guard p \<Longrightarrow> lock (mutex s') = 1 \<and> (\<forall>u. u \<noteq> t \<longrightarrow> \<not> in_guard (pcs s u))"
    and "\<And>u. u \<noteq> t \<Longrightarrow> in_guard (pcs s u) \<Longrightarrow> lock (mutex s') = 1"
    and "owns p \<Longrightarrow> flag (mutex s') = 1 \<and> (\<forall>u. u \<noteq> t \<longrightarrow> \<not> owns (pcs s u))"
    and "\<And>u. u \<noteq> t \<Longrightarrow> owns (pcs s u) \<Longrightarrow> flag (mutex s') = 1"
    and "p = AcqTake \<Longrightarrow> flag (mutex s') = 0"
    and "\<And>u. u \<noteq> t \<Longrightarrow> pcs s u = AcqTake \<Longrightarrow> flag (mutex s') = 0"
  shows "m_inv s'"
  using assms(3-) inv unfolding m_inv_def p by (simp add: fun_upd_apply) metis

lemma m_inv_others:
  assumes "m_inv s"
  shows "in_guard (pcs s t) \<Longrightarrow> u \<noteq> t \<Longrightarrow> \<not> in_guard (pcs s u)" "in_guard (pcs s t) \<Longrightarrow> lock (mutex s) = 1"
    "owns (pcs s t) \<Longrightarrow> u \<noteq> t \<Longrightarrow> \<not> owns (pcs s u)" "owns (pcs s t) \<Longrightarrow> flag (mutex s) = 1"
    "lock (mutex s) \<in> {0, 1}" "flag (mutex s) \<in> {0, 1}" "pcs s t = AcqTake \<Longrightarrow> flag (mutex s) = 0"
  using assms by (auto simp: m_inv_def)

lemma in_guard_take: "in_guard AcqTake" by simp

lemma spin_inv:
  assumes "m_inv s" "\<not> in_guard (pcs s t)" "in_guard pc" "owns pc = owns (pcs s t)" "pc \<noteq> AcqTake"
  shows "m_inv (spin t pc s)"
proof (cases "lock (mutex s) = 1")
  case True
  then show ?thesis using assms(1) by (simp add: spin_def Let_def)
next
  case False
  then have l: "lock (mutex s) = 0" using m_inv_others(5) [OF assms(1)] by simp
  then have g: "\<not> in_guard (pcs s u)" for u using m_inv_others(2) [OF assms(1), of u] by auto
  have sp: "pcs (spin t pc s) = (pcs s)(t := pc)" "lock (mutex (spin t pc s)) = 1" "flag (mutex (spin t pc s)) = flag (mutex s)"
    using l by (simp_all add: spin_def Let_def)
  show ?thesis
    using m_inv_others [OF assms(1)] assms(3-5) g sp by (intro m_inv_move [OF assms(1) sp(1)]) auto
qed

text \<open>Moves inside the guard: no other thread is in it, and \<open>flag\<close> only changes with its owner.\<close>

lemma m_inv_guarded:
  assumes inv: "m_inv s" and t: "in_guard (pcs s t)" and p: "pcs s' = (pcs s)(t := p)"
    and l: "lock (mutex s') = (if in_guard p then 1 else 0)" and f: "flag (mutex s') \<in> {0, 1}"
    and o: "owns p \<Longrightarrow> flag (mutex s') = 1 \<and> (owns (pcs s t) \<or> flag (mutex s) = 0)"
    and k: "flag (mutex s') = flag (mutex s) \<or> owns (pcs s t) \<or> flag (mutex s) = 0"
    and a: "p = AcqTake \<Longrightarrow> flag (mutex s') = 0"
  shows "m_inv s'"
proof (rule m_inv_move [OF inv p])
  note mo = m_inv_others [OF inv]
  have g: "\<not> in_guard (pcs s u)" if "u \<noteq> t" for u using mo(1) [OF t that] .
  have noown: "\<not> owns (pcs s u)" if "u \<noteq> t" "owns (pcs s t) \<or> flag (mutex s) = 0" for u
    using mo(3) [of t u] mo(4) [of u] that by auto
  show "lock (mutex s') \<in> {0, 1}" using l by simp
  show "flag (mutex s') \<in> {0, 1}" by fact
  show "lock (mutex s') = 1 \<and> (\<forall>u. u \<noteq> t \<longrightarrow> \<not> in_guard (pcs s u))" if "in_guard p" using l that g by simp
  show "lock (mutex s') = 1" if "u \<noteq> t" "in_guard (pcs s u)" for u using g that by blast
  show "flag (mutex s') = 1 \<and> (\<forall>u. u \<noteq> t \<longrightarrow> \<not> owns (pcs s u))" if "owns p" using o [OF that] noown by blast
  show "flag (mutex s') = 1" if "u \<noteq> t" "owns (pcs s u)" for u using k noown that mo(4) [of u] by auto
  show "flag (mutex s') = 0" if "p = AcqTake" using a that .
  show "flag (mutex s') = 0" if "u \<noteq> t" "pcs s u = AcqTake" for u using g [OF that(1)] that(2) by simp
qed

text \<open>Moves outside the guard change no shared field.\<close>

lemma m_inv_outside:
  assumes inv: "m_inv s" and p: "pcs s' = (pcs s)(t := p)" and m: "mutex s' = mutex s"
    and g: "\<not> in_guard p" and o: "owns p \<Longrightarrow> owns (pcs s t)"
  shows "m_inv s'"
proof (rule m_inv_move [OF inv p])
  note mo = m_inv_others [OF inv]
  show "lock (mutex s') \<in> {0, 1}" "flag (mutex s') \<in> {0, 1}" using m mo(5,6) by simp_all
  show "lock (mutex s') = 1 \<and> (\<forall>u. u \<noteq> t \<longrightarrow> \<not> in_guard (pcs s u))" if "in_guard p" using g that by simp
  show "lock (mutex s') = 1" if "u \<noteq> t" "in_guard (pcs s u)" for u using m mo(2) that by simp
  show "flag (mutex s') = 1 \<and> (\<forall>u. u \<noteq> t \<longrightarrow> \<not> owns (pcs s u))" if "owns p"
    using m mo(3,4) o [OF that] by simp
  show "flag (mutex s') = 1" if "u \<noteq> t" "owns (pcs s u)" for u using m mo(4) that by simp
  show "flag (mutex s') = 0" if "p = AcqTake" using g that by simp
  show "flag (mutex s') = 0" if "u \<noteq> t" "pcs s u = AcqTake" for u using m mo(7) that by simp
qed

lemma m_inv_step:
  assumes inv: "m_inv s" and step: "mutex_step t s = Some s'"
  shows "m_inv s'"
proof -
  note o = m_inv_others [OF inv]
  consider "pcs s t = AcqSpin" | "pcs s t = RelSpin" | "in_guard (pcs s t)" | "pcs s t \<in> {Idle, Held, AcqPark}"
    by (cases "pcs s t") auto
  then show ?thesis
  proof cases
    case 1
    then show ?thesis using step spin_inv [OF inv, of t AcqTest] by (simp add: mutex_step_def)
  next
    case 2
    then show ?thesis using step spin_inv [OF inv, of t RelTest] by (simp add: mutex_step_def)
  next
    case 3
    then have l: "lock (mutex s) = 1" using o(2) by blast
    show ?thesis
      by (cases "pcs s t"; rule m_inv_guarded [OF inv 3, of s' "pcs s' t"])
        (use step l o(4) [of t] o(7) [of t] o(6) 3 in \<open>auto simp: mutex_step_def split: if_splits\<close>)
  next
    case 4
    then show ?thesis
      by (intro m_inv_outside [OF inv, of s' t "pcs s' t"]) (use step in \<open>auto simp: mutex_step_def\<close>)
  qed
qed

section \<open>Correctness\<close>

definition mutex_start :: "KState \<Rightarrow> MSys" where
  "mutex_start k = \<lparr>mutex = initialMutex, pcs = \<lambda>_. Idle, kern = k\<rparr>"

lemma mutex_reach_inv: "mstep\<^sup>*\<^sup>* (mutex_start k) s \<Longrightarrow> m_inv s"
proof (induction rule: rtranclp_induct)
  case base
  then show ?case by (simp add: m_inv_def mutex_start_def initialMutex_def)
next
  case (step s s')
  then show ?case using m_inv_step by (auto elim!: mstep.cases)
qed

text \<open>Running a given schedule; used to evaluate concrete interleavings.\<close>

fun run_schedule :: "u64 list \<Rightarrow> MSys \<Rightarrow> MSys option" where
  "run_schedule [] s = Some s"
| "run_schedule (t # ts) s = Option.bind (mutex_step t s) (run_schedule ts)"

lemma run_schedule_reach: "run_schedule ts s = Some s' \<Longrightarrow> mstep\<^sup>*\<^sup>* s s'"
proof (induction ts arbitrary: s)
  case (Cons t ts)
  then obtain s1 where "mutex_step t s = Some s1" "run_schedule ts s1 = Some s'" by (auto simp: bind_eq_Some_conv)
  then show ?case using Cons.IH [of s1] mstep.intros by (meson converse_rtranclp_into_rtranclp)
qed simp

text \<open>C11: mutual exclusion: in every interleaving of any number of threads that call \<open>acquireLock\<close> and, as
  holders, \<open>releaseLock\<close>, at most one thread is between the return of \<open>acquireLock\<close> and the end of its
  release, and the guard \<open>lock\<close> is held by at most one thread.\<close>

theorem mutex_mutual_exclusion:
  assumes "mstep\<^sup>*\<^sup>* (mutex_start k) s"
  shows "(pcs s t = Held \<and> owns (pcs s u) \<longrightarrow> t = u) \<and> (in_guard (pcs s t) \<and> in_guard (pcs s u) \<longrightarrow> t = u)"
  using m_inv_others(1,3) [OF mutex_reach_inv [OF assms]] by fastforce

definition two_threads :: KState where
  "two_threads = \<lparr>kthreads = [demo_thread 1 RUNNING, demo_thread 2 RUNNING], currKThreadIdx = 0, currId = 3\<rparr>"

theorem mutex_mutual_exclusion_witness:
  "\<exists>s. run_schedule [1, 2, 1, 2, 1, 1, 1, 2] (mutex_start two_threads) = Some s \<and> pcs s 1 = Held \<and> pcs s 2 \<noteq> Held"
proof -
  have "map_option (\<lambda>s. pcs s 1) (run_schedule [1, 2, 1, 2, 1, 1, 1, 2] (mutex_start two_threads)) = Some Held"
    by code_simp
  then obtain s where s: "run_schedule [1, 2, 1, 2, 1, 1, 1, 2] (mutex_start two_threads) = Some s" "pcs s 1 = Held" by auto
  then have "pcs s 2 \<noteq> Held"
    using mutex_mutual_exclusion [OF run_schedule_reach [OF s(1)], of 1 2] by auto
  then show ?thesis using s by blast
qed

text \<open>Without contention the mutex works: a thread that finds guard and flag clear holds the mutex
  after its five steps of \<open>acquireLock\<close> (nothing else changed), and its release with no waiter frees it again.\<close>

theorem mutex_uncontended:
  assumes "pcs s t = Idle" "mutex s = initialMutex"
  shows "run_schedule [t, t, t, t, t] s = Some (s\<lparr>mutex := initialMutex\<lparr>flag := 1\<rparr>, pcs := (pcs s)(t := Held)\<rparr>) \<and>
    run_schedule [t, t, t, t, t, t, t, t, t, t] s = Some s"
proof -
  have s: "s\<lparr>mutex := initialMutex, pcs := pcs s\<rparr> = s" "(pcs s)(t := Idle) = pcs s"
    using assms by auto
  show ?thesis using assms s
    by (simp add: mutex_step_def spin_def goto_def initialMutex_def)
qed

theorem mutex_uncontended_witness:
  "run_schedule [1, 1, 1, 1, 1, 1, 1, 1, 1, 1] (mutex_start two_threads) = Some (mutex_start two_threads)"
  using mutex_uncontended [of "mutex_start two_threads" 1] by (simp add: mutex_start_def)

text \<open>The mutex is lost: marked as held, with no thread that will ever clear the mark.\<close>

definition lost :: "MSys \<Rightarrow> bool" where
  "lost s \<longleftrightarrow> flag (mutex s) = 1 \<and> (\<forall>t. \<not> owns (pcs s t) \<and> pcs s t \<noteq> AcqTake)"

lemma lost_step:
  assumes "lost s" "mutex_step t s = Some s'"
  shows "lost s'"
proof -
  have "\<not> owns (pcs s t)" "pcs s t \<noteq> AcqTake" and f: "flag (mutex s) = 1" using assms(1) by (simp_all add: lost_def)
  then have "flag (mutex s') = 1 \<and> (\<forall>u. u \<noteq> t \<longrightarrow> pcs s' u = pcs s u) \<and> \<not> owns (pcs s' t) \<and> pcs s' t \<noteq> AcqTake"
    using assms(2) by (cases "pcs s t") (auto simp: mutex_step_def spin_def Let_def split: if_splits)
  then show ?thesis using assms(1) unfolding lost_def by metis
qed

lemma lost_forever: "mstep\<^sup>*\<^sup>* s s' \<Longrightarrow> lost s \<Longrightarrow> lost s'"
  by (induction rule: rtranclp_induct) (auto elim!: mstep.cases dest: lost_step)

text \<open>C12: hand-over loses the mutex: a release that finds a waiter wakes it but leaves \<open>flag\<close> at 1, while the
  woken thread tests \<open>flag\<close> again. From then on, in every continuation, no thread ever holds the mutex.\<close>

theorem mutex_handover_deadlock:
  assumes "mstep\<^sup>*\<^sup>* (mutex_start k) s" "pcs s t = RelUnpark x" "mutex_step t s = Some s1" "mstep\<^sup>*\<^sup>* s1 s2"
  shows "\<forall>u. pcs s2 u \<noteq> Held"
proof -
  note o = m_inv_others [OF mutex_reach_inv [OF assms(1)]]
  have f: "flag (mutex s) = 1" and ow: "\<not> owns (pcs s u)" and g: "pcs s u \<noteq> AcqTake" if "u \<noteq> t" for u
    using o(1,3,4) [of t] assms(2) that by fastforce+
  obtain k' where s1: "s1 = goto t RelUnguard (s\<lparr>kern := k'\<rparr>)" using assms(2,3) by (auto simp: mutex_step_def)
  have "flag (mutex s) = 1" using o(4) [of t] assms(2) by simp
  then have "lost s1" using ow g by (auto simp: lost_def s1)
  then have "lost s2" using lost_forever [OF assms(4)] by blast
  then show ?thesis unfolding lost_def by (metis owns.simps(2))
qed

theorem mutex_handover_deadlock_witness:
  "\<exists>s s1 s2. run_schedule [1, 1, 1, 1, 1, 2, 2, 2, 2, 2, 2, 1, 1, 1, 1] (mutex_start two_threads) = Some s \<and>
     pcs s 1 = RelUnpark 2 \<and> mutex_step 1 s = Some s1 \<and> run_schedule [1, 2, 2, 2] s1 = Some s2 \<and> pcs s2 2 = AcqPush \<and>
     (\<forall>u. pcs s2 u \<noteq> Held)"
proof -
  define sched :: "u64 list" where "sched = [1, 1, 1, 1, 1, 2, 2, 2, 2, 2, 2, 1, 1, 1, 1]"
  have "map_option (\<lambda>s. pcs s 1) (run_schedule [1, 1, 1, 1, 1, 2, 2, 2, 2, 2, 2, 1, 1, 1, 1] (mutex_start two_threads)) = Some (RelUnpark 2)"
    by code_simp
  then obtain s where s: "run_schedule sched (mutex_start two_threads) = Some s" "pcs s 1 = RelUnpark 2" by (auto simp: sched_def)
  have "map_option (\<lambda>s. pcs s 2) (Option.bind (run_schedule [1, 1, 1, 1, 1, 2, 2, 2, 2, 2, 2, 1, 1, 1, 1] (mutex_start two_threads))
      (\<lambda>s. Option.bind (mutex_step 1 s) (run_schedule [1, 2, 2, 2]))) = Some AcqPush"
    by code_simp
  then obtain s1 s2 where s1: "mutex_step 1 s = Some s1" "run_schedule [1, 2, 2, 2] s1 = Some s2" "pcs s2 2 = AcqPush"
    using s(1) unfolding sched_def by (auto simp: bind_eq_Some_conv simp del: run_schedule.simps)
  have "\<forall>u. pcs s2 u \<noteq> Held"
    by (rule mutex_handover_deadlock [OF run_schedule_reach [OF s(1)] s(2) s1(1) run_schedule_reach [OF s1(2)]])
  then show ?thesis using s s1 unfolding sched_def by blast
qed

end
