(* ===== verification/Keyboard.thy ===== *)
theory Keyboard
  imports Dimos_Prelude
begin

text \<open>
  The PS/2 keyboard driver (\<open>kernel/include/kernel/devices/keyboard.h\<close>,
  \<open>kernel/kernel/devices/keyboard.cpp\<close>): decoding of scan codes in the interrupt handler, the modifier
  state, and the translation of key codes to ASCII. A key code is the integer value of its enumerator
  (several enumerators share a value). The bytes read from the controller ports are arguments of the
  handler, and the key it writes to the standard input of the running thread is part of its result.
  Reading outside \<open>scancodeToKeyCode\<close> is \<^const>\<open>None\<close>.
\<close>

section \<open>Key codes\<close>

abbreviation (input) KEY_SPACE :: int where "KEY_SPACE \<equiv> 32"
abbreviation (input) KEY_0 :: int where "KEY_0 \<equiv> 48"
abbreviation (input) KEY_1 :: int where "KEY_1 \<equiv> 49"
abbreviation (input) KEY_2 :: int where "KEY_2 \<equiv> 50"
abbreviation (input) KEY_3 :: int where "KEY_3 \<equiv> 51"
abbreviation (input) KEY_4 :: int where "KEY_4 \<equiv> 52"
abbreviation (input) KEY_5 :: int where "KEY_5 \<equiv> 53"
abbreviation (input) KEY_6 :: int where "KEY_6 \<equiv> 54"
abbreviation (input) KEY_7 :: int where "KEY_7 \<equiv> 55"
abbreviation (input) KEY_8 :: int where "KEY_8 \<equiv> 56"
abbreviation (input) KEY_9 :: int where "KEY_9 \<equiv> 57"
abbreviation (input) KEY_A :: int where "KEY_A \<equiv> 97"
abbreviation (input) KEY_B :: int where "KEY_B \<equiv> 98"
abbreviation (input) KEY_C :: int where "KEY_C \<equiv> 99"
abbreviation (input) KEY_D :: int where "KEY_D \<equiv> 100"
abbreviation (input) KEY_E :: int where "KEY_E \<equiv> 101"
abbreviation (input) KEY_F :: int where "KEY_F \<equiv> 102"
abbreviation (input) KEY_G :: int where "KEY_G \<equiv> 103"
abbreviation (input) KEY_H :: int where "KEY_H \<equiv> 104"
abbreviation (input) KEY_I :: int where "KEY_I \<equiv> 105"
abbreviation (input) KEY_J :: int where "KEY_J \<equiv> 106"
abbreviation (input) KEY_K :: int where "KEY_K \<equiv> 107"
abbreviation (input) KEY_L :: int where "KEY_L \<equiv> 108"
abbreviation (input) KEY_M :: int where "KEY_M \<equiv> 109"
abbreviation (input) KEY_N :: int where "KEY_N \<equiv> 110"
abbreviation (input) KEY_O :: int where "KEY_O \<equiv> 111"
abbreviation (input) KEY_P :: int where "KEY_P \<equiv> 112"
abbreviation (input) KEY_Q :: int where "KEY_Q \<equiv> 113"
abbreviation (input) KEY_R :: int where "KEY_R \<equiv> 114"
abbreviation (input) KEY_S :: int where "KEY_S \<equiv> 115"
abbreviation (input) KEY_T :: int where "KEY_T \<equiv> 116"
abbreviation (input) KEY_U :: int where "KEY_U \<equiv> 117"
abbreviation (input) KEY_V :: int where "KEY_V \<equiv> 118"
abbreviation (input) KEY_W :: int where "KEY_W \<equiv> 119"
abbreviation (input) KEY_X :: int where "KEY_X \<equiv> 120"
abbreviation (input) KEY_Y :: int where "KEY_Y \<equiv> 121"
abbreviation (input) KEY_Z :: int where "KEY_Z \<equiv> 122"
abbreviation (input) KEY_RETURN :: int where "KEY_RETURN \<equiv> 13"
abbreviation (input) KEY_ESCAPE :: int where "KEY_ESCAPE \<equiv> 0x1001"
abbreviation (input) KEY_BACKSPACE :: int where "KEY_BACKSPACE \<equiv> 8"
abbreviation (input) KEY_UP :: int where "KEY_UP \<equiv> 0x1100"
abbreviation (input) KEY_DOWN :: int where "KEY_DOWN \<equiv> 0x1101"
abbreviation (input) KEY_LEFT :: int where "KEY_LEFT \<equiv> 0x1102"
abbreviation (input) KEY_RIGHT :: int where "KEY_RIGHT \<equiv> 0x1103"
abbreviation (input) KEY_F1 :: int where "KEY_F1 \<equiv> 0x1201"
abbreviation (input) KEY_F2 :: int where "KEY_F2 \<equiv> 0x1202"
abbreviation (input) KEY_F3 :: int where "KEY_F3 \<equiv> 0x1203"
abbreviation (input) KEY_F4 :: int where "KEY_F4 \<equiv> 0x1204"
abbreviation (input) KEY_F5 :: int where "KEY_F5 \<equiv> 0x1205"
abbreviation (input) KEY_F6 :: int where "KEY_F6 \<equiv> 0x1206"
abbreviation (input) KEY_F7 :: int where "KEY_F7 \<equiv> 0x1207"
abbreviation (input) KEY_F8 :: int where "KEY_F8 \<equiv> 0x1208"
abbreviation (input) KEY_F9 :: int where "KEY_F9 \<equiv> 0x1209"
abbreviation (input) KEY_F10 :: int where "KEY_F10 \<equiv> 0x120a"
abbreviation (input) KEY_F11 :: int where "KEY_F11 \<equiv> 0x120b"
abbreviation (input) KEY_F12 :: int where "KEY_F12 \<equiv> 0x120b"
abbreviation (input) KEY_F13 :: int where "KEY_F13 \<equiv> 0x120c"
abbreviation (input) KEY_F14 :: int where "KEY_F14 \<equiv> 0x120d"
abbreviation (input) KEY_F15 :: int where "KEY_F15 \<equiv> 0x120e"
abbreviation (input) KEY_DOT :: int where "KEY_DOT \<equiv> 46"
abbreviation (input) KEY_COMMA :: int where "KEY_COMMA \<equiv> 44"
abbreviation (input) KEY_COLON :: int where "KEY_COLON \<equiv> 58"
abbreviation (input) KEY_SEMICOLON :: int where "KEY_SEMICOLON \<equiv> 59"
abbreviation (input) KEY_SLASH :: int where "KEY_SLASH \<equiv> 47"
abbreviation (input) KEY_BACKSLASH :: int where "KEY_BACKSLASH \<equiv> 92"
abbreviation (input) KEY_PLUS :: int where "KEY_PLUS \<equiv> 43"
abbreviation (input) KEY_MINUS :: int where "KEY_MINUS \<equiv> 45"
abbreviation (input) KEY_ASTERISK :: int where "KEY_ASTERISK \<equiv> 42"
abbreviation (input) KEY_EXCLAMATION :: int where "KEY_EXCLAMATION \<equiv> 33"
abbreviation (input) KEY_QUESTION :: int where "KEY_QUESTION \<equiv> 63"
abbreviation (input) KEY_QUOTEDOUBLE :: int where "KEY_QUOTEDOUBLE \<equiv> 34"
abbreviation (input) KEY_QUOTE :: int where "KEY_QUOTE \<equiv> 39"
abbreviation (input) KEY_EQUAL :: int where "KEY_EQUAL \<equiv> 61"
abbreviation (input) KEY_HASH :: int where "KEY_HASH \<equiv> 35"
abbreviation (input) KEY_PERCENT :: int where "KEY_PERCENT \<equiv> 37"
abbreviation (input) KEY_AMPERSAND :: int where "KEY_AMPERSAND \<equiv> 38"
abbreviation (input) KEY_UNDERSCORE :: int where "KEY_UNDERSCORE \<equiv> 95"
abbreviation (input) KEY_LEFTPARENTHESIS :: int where "KEY_LEFTPARENTHESIS \<equiv> 40"
abbreviation (input) KEY_RIGHTPARENTHESIS :: int where "KEY_RIGHTPARENTHESIS \<equiv> 41"
abbreviation (input) KEY_LEFTBRACKET :: int where "KEY_LEFTBRACKET \<equiv> 91"
abbreviation (input) KEY_RIGHTBRACKET :: int where "KEY_RIGHTBRACKET \<equiv> 93"
abbreviation (input) KEY_LEFTCURL :: int where "KEY_LEFTCURL \<equiv> 123"
abbreviation (input) KEY_RIGHTCURL :: int where "KEY_RIGHTCURL \<equiv> 125"
abbreviation (input) KEY_DOLLAR :: int where "KEY_DOLLAR \<equiv> 36"
abbreviation (input) KEY_EURO :: int where "KEY_EURO \<equiv> 36"
abbreviation (input) KEY_LESS :: int where "KEY_LESS \<equiv> 60"
abbreviation (input) KEY_GREATER :: int where "KEY_GREATER \<equiv> 62"
abbreviation (input) KEY_BAR :: int where "KEY_BAR \<equiv> 124"
abbreviation (input) KEY_GRAVE :: int where "KEY_GRAVE \<equiv> 96"
abbreviation (input) KEY_TILDE :: int where "KEY_TILDE \<equiv> 126"
abbreviation (input) KEY_AT :: int where "KEY_AT \<equiv> 64"
abbreviation (input) KEY_CARRET :: int where "KEY_CARRET \<equiv> 94"
abbreviation (input) KEY_KP_0 :: int where "KEY_KP_0 \<equiv> 48"
abbreviation (input) KEY_KP_1 :: int where "KEY_KP_1 \<equiv> 49"
abbreviation (input) KEY_KP_2 :: int where "KEY_KP_2 \<equiv> 50"
abbreviation (input) KEY_KP_3 :: int where "KEY_KP_3 \<equiv> 51"
abbreviation (input) KEY_KP_4 :: int where "KEY_KP_4 \<equiv> 52"
abbreviation (input) KEY_KP_5 :: int where "KEY_KP_5 \<equiv> 53"
abbreviation (input) KEY_KP_6 :: int where "KEY_KP_6 \<equiv> 54"
abbreviation (input) KEY_KP_7 :: int where "KEY_KP_7 \<equiv> 55"
abbreviation (input) KEY_KP_8 :: int where "KEY_KP_8 \<equiv> 56"
abbreviation (input) KEY_KP_9 :: int where "KEY_KP_9 \<equiv> 57"
abbreviation (input) KEY_KP_PLUS :: int where "KEY_KP_PLUS \<equiv> 43"
abbreviation (input) KEY_KP_MINUS :: int where "KEY_KP_MINUS \<equiv> 45"
abbreviation (input) KEY_KP_DECIMAL :: int where "KEY_KP_DECIMAL \<equiv> 46"
abbreviation (input) KEY_KP_DIVIDE :: int where "KEY_KP_DIVIDE \<equiv> 47"
abbreviation (input) KEY_KP_ASTERISK :: int where "KEY_KP_ASTERISK \<equiv> 42"
abbreviation (input) KEY_KP_NUMLOCK :: int where "KEY_KP_NUMLOCK \<equiv> 0x300f"
abbreviation (input) KEY_KP_ENTER :: int where "KEY_KP_ENTER \<equiv> 0x3010"
abbreviation (input) KEY_TAB :: int where "KEY_TAB \<equiv> 0x4000"
abbreviation (input) KEY_CAPSLOCK :: int where "KEY_CAPSLOCK \<equiv> 0x4001"
abbreviation (input) KEY_LSHIFT :: int where "KEY_LSHIFT \<equiv> 0x4002"
abbreviation (input) KEY_LCTRL :: int where "KEY_LCTRL \<equiv> 0x4003"
abbreviation (input) KEY_LALT :: int where "KEY_LALT \<equiv> 0x4004"
abbreviation (input) KEY_LWIN :: int where "KEY_LWIN \<equiv> 0x4005"
abbreviation (input) KEY_RSHIFT :: int where "KEY_RSHIFT \<equiv> 0x4006"
abbreviation (input) KEY_RCTRL :: int where "KEY_RCTRL \<equiv> 0x4007"
abbreviation (input) KEY_RALT :: int where "KEY_RALT \<equiv> 0x4008"
abbreviation (input) KEY_RWIN :: int where "KEY_RWIN \<equiv> 0x4009"
abbreviation (input) KEY_INSERT :: int where "KEY_INSERT \<equiv> 0x400a"
abbreviation (input) KEY_DELETE :: int where "KEY_DELETE \<equiv> 0x400b"
abbreviation (input) KEY_HOME :: int where "KEY_HOME \<equiv> 0x400c"
abbreviation (input) KEY_END :: int where "KEY_END \<equiv> 0x400d"
abbreviation (input) KEY_PAGEUP :: int where "KEY_PAGEUP \<equiv> 0x400e"
abbreviation (input) KEY_PAGEDOWN :: int where "KEY_PAGEDOWN \<equiv> 0x400f"
abbreviation (input) KEY_SCROLLLOCK :: int where "KEY_SCROLLLOCK \<equiv> 0x4010"
abbreviation (input) KEY_PAUSE :: int where "KEY_PAUSE \<equiv> 0x4011"
abbreviation (input) KEY_UNKNOWN :: int where "KEY_UNKNOWN \<equiv> 0x4012"
abbreviation (input) KEY_NUMKEYCODES :: int where "KEY_NUMKEYCODES \<equiv> 0x4013"

definition keyCodes :: "int list" where
  "keyCodes =
    [KEY_SPACE, KEY_0, KEY_1, KEY_2, KEY_3, KEY_4, KEY_5, KEY_6, KEY_7, KEY_8, KEY_9, KEY_A, KEY_B,
     KEY_C, KEY_D, KEY_E, KEY_F, KEY_G, KEY_H, KEY_I, KEY_J, KEY_K, KEY_L, KEY_M, KEY_N, KEY_O, KEY_P,
     KEY_Q, KEY_R, KEY_S, KEY_T, KEY_U, KEY_V, KEY_W, KEY_X, KEY_Y, KEY_Z, KEY_RETURN, KEY_ESCAPE,
     KEY_BACKSPACE, KEY_UP, KEY_DOWN, KEY_LEFT, KEY_RIGHT, KEY_F1, KEY_F2, KEY_F3, KEY_F4, KEY_F5,
     KEY_F6, KEY_F7, KEY_F8, KEY_F9, KEY_F10, KEY_F11, KEY_F12, KEY_F13, KEY_F14, KEY_F15, KEY_DOT,
     KEY_COMMA, KEY_COLON, KEY_SEMICOLON, KEY_SLASH, KEY_BACKSLASH, KEY_PLUS, KEY_MINUS, KEY_ASTERISK,
     KEY_EXCLAMATION, KEY_QUESTION, KEY_QUOTEDOUBLE, KEY_QUOTE, KEY_EQUAL, KEY_HASH, KEY_PERCENT,
     KEY_AMPERSAND, KEY_UNDERSCORE, KEY_LEFTPARENTHESIS, KEY_RIGHTPARENTHESIS, KEY_LEFTBRACKET,
     KEY_RIGHTBRACKET, KEY_LEFTCURL, KEY_RIGHTCURL, KEY_DOLLAR, KEY_EURO, KEY_LESS, KEY_GREATER,
     KEY_BAR, KEY_GRAVE, KEY_TILDE, KEY_AT, KEY_CARRET, KEY_KP_0, KEY_KP_1, KEY_KP_2, KEY_KP_3,
     KEY_KP_4, KEY_KP_5, KEY_KP_6, KEY_KP_7, KEY_KP_8, KEY_KP_9, KEY_KP_PLUS, KEY_KP_MINUS,
     KEY_KP_DECIMAL, KEY_KP_DIVIDE, KEY_KP_ASTERISK, KEY_KP_NUMLOCK, KEY_KP_ENTER, KEY_TAB,
     KEY_CAPSLOCK, KEY_LSHIFT, KEY_LCTRL, KEY_LALT, KEY_LWIN, KEY_RSHIFT, KEY_RCTRL, KEY_RALT, KEY_RWIN,
     KEY_INSERT, KEY_DELETE, KEY_HOME, KEY_END, KEY_PAGEUP, KEY_PAGEDOWN, KEY_SCROLLLOCK, KEY_PAUSE,
     KEY_UNKNOWN, KEY_NUMKEYCODES]"

definition scancodeToKeyCode :: "int list" where
  "scancodeToKeyCode =
    [KEY_UNKNOWN, KEY_ESCAPE, KEY_1, KEY_2, KEY_3, KEY_4, KEY_5, KEY_6, KEY_7, KEY_8, KEY_9, KEY_0,
     KEY_MINUS, KEY_EQUAL, KEY_BACKSPACE, KEY_TAB, KEY_Q, KEY_W, KEY_E, KEY_R, KEY_T, KEY_Y, KEY_U,
     KEY_I, KEY_O, KEY_P, KEY_LEFTBRACKET, KEY_RIGHTBRACKET, KEY_RETURN, KEY_LCTRL, KEY_A, KEY_S, KEY_D,
     KEY_F, KEY_G, KEY_H, KEY_J, KEY_K, KEY_L, KEY_SEMICOLON, KEY_QUOTE, KEY_GRAVE, KEY_LSHIFT,
     KEY_BACKSLASH, KEY_Z, KEY_X, KEY_C, KEY_V, KEY_B, KEY_N, KEY_M, KEY_COMMA, KEY_DOT, KEY_SLASH,
     KEY_RSHIFT, KEY_KP_ASTERISK, KEY_RALT, KEY_SPACE, KEY_CAPSLOCK, KEY_F1, KEY_F2, KEY_F3, KEY_F4,
     KEY_F5, KEY_F6, KEY_F7, KEY_F8, KEY_F9, KEY_F10, KEY_KP_NUMLOCK, KEY_SCROLLLOCK, KEY_HOME,
     KEY_KP_8, KEY_PAGEUP, KEY_KP_2, KEY_KP_3, KEY_KP_0, KEY_KP_DECIMAL, KEY_UNKNOWN, KEY_UNKNOWN,
     KEY_UNKNOWN, KEY_F11, KEY_F12]"

definition keyOf :: "int \<Rightarrow> int option" where
  "keyOf code = (if 0 \<le> code \<and> code < int (length scancodeToKeyCode)
     then Some (scancodeToKeyCode ! nat code) else None)"

section \<open>State and handler\<close>

record Keyboard =
  scancode :: int
  numLock :: bool
  scrollLock :: bool
  capsLock :: bool
  shift :: bool
  alt :: bool
  ctrl :: bool
  kerror :: int
  extended :: bool

abbreviation (input) INVALID_SCANCODE :: int where "INVALID_SCANCODE \<equiv> 0"

definition new_Keyboard :: Keyboard where
  "new_Keyboard = \<lparr>scancode = INVALID_SCANCODE, numLock = False, scrollLock = False, capsLock = False,
     shift = False, alt = False, ctrl = False, kerror = 0, extended = False\<rparr>"

definition getLastKeyCode :: "Keyboard \<Rightarrow> int option" where
  "getLastKeyCode kb = (if scancode kb = INVALID_SCANCODE then Some KEY_UNKNOWN else keyOf (scancode kb))"

definition discardLastKeyCode :: "Keyboard \<Rightarrow> Keyboard" where
  "discardLastKeyCode kb = kb\<lparr>scancode := INVALID_SCANCODE\<rparr>"

text \<open>The two switches on the key: for a break code and for a make code.\<close>

definition breakKey :: "int \<Rightarrow> Keyboard \<Rightarrow> Keyboard" where
  "breakKey key kb =
     (if key = KEY_LCTRL \<or> key = KEY_RCTRL then kb\<lparr>ctrl := False\<rparr>
      else if key = KEY_LSHIFT \<or> key = KEY_RSHIFT then kb\<lparr>shift := False\<rparr>
      else if key = KEY_LALT \<or> key = KEY_RALT then kb\<lparr>alt := False\<rparr>
      else kb)"

definition makeKey :: "int \<Rightarrow> Keyboard \<Rightarrow> Keyboard" where
  "makeKey key kb =
     (if key = KEY_LCTRL \<or> key = KEY_RCTRL then kb\<lparr>ctrl := True\<rparr>
      else if key = KEY_LSHIFT \<or> key = KEY_RSHIFT then kb\<lparr>shift := True\<rparr>
      else if key = KEY_LALT \<or> key = KEY_RALT then kb\<lparr>alt := True\<rparr>
      else if key = KEY_CAPSLOCK then kb\<lparr>capsLock := \<not> capsLock kb\<rparr>
      else if key = KEY_KP_NUMLOCK then kb\<lparr>numLock := \<not> numLock kb\<rparr>
      else if key = KEY_SCROLLLOCK then kb\<lparr>scrollLock := \<not> scrollLock kb\<rparr>
      else kb)"

text \<open>The branch of \<open>isrHandler\<close> for a full output buffer: the new state and the final value of \<open>code\<close>.\<close>

definition decode :: "u8 \<Rightarrow> Keyboard \<Rightarrow> (Keyboard \<times> int) option" where
  "decode data kb =
     (let code = uint data in
      if code = 0xE0 \<or> code = 0xE1 then Some (kb\<lparr>extended := True\<rparr>, code)
      else let kb = kb\<lparr>extended := False\<rparr> in
        if data AND 0x80 \<noteq> 0 then
          let code = code - 0x80
          in map_option (\<lambda>key. (breakKey key kb, code)) (keyOf code)
        else
          let kb = kb\<lparr>scancode := code\<rparr>
          in map_option (\<lambda>key. (makeKey key kb, code)) (keyOf code))"

definition isrHandler :: "u8 \<Rightarrow> u8 \<Rightarrow> Keyboard \<Rightarrow> (Keyboard \<times> int option) option" where
  "isrHandler status data kb =
     Option.bind
       (if status AND 1 \<noteq> 0
        then map_option (\<lambda>(kb, code). kb\<lparr>kerror := if code = 0xFC \<or> code = 0xFD \<or> code = 0xFE then code else 0\<rparr>)
               (decode data kb)
        else Some kb)
       (\<lambda>kb. Option.bind (getLastKeyCode kb)
          (\<lambda>key. Some (discardLastKeyCode kb, if key \<noteq> KEY_UNKNOWN then Some key else None)))"

section \<open>Translation to ASCII\<close>

definition shiftDigit :: "u8 \<Rightarrow> u8" where
  "shiftDigit key =
     (if key = 0x30 then of_int KEY_RIGHTPARENTHESIS else if key = 0x31 then of_int KEY_EXCLAMATION
      else if key = 0x32 then of_int KEY_AT else if key = 0x33 then of_int KEY_EXCLAMATION
      else if key = 0x34 then of_int KEY_HASH else if key = 0x35 then of_int KEY_PERCENT
      else if key = 0x36 then of_int KEY_CARRET else if key = 0x37 then of_int KEY_AMPERSAND
      else if key = 0x38 then of_int KEY_ASTERISK else if key = 0x39 then of_int KEY_LEFTPARENTHESIS
      else key)"

definition shiftSymbol :: "u8 \<Rightarrow> u8" where
  "shiftSymbol key =
     (let k = uint key in
      if k = KEY_COMMA then of_int KEY_LESS else if k = KEY_DOT then of_int KEY_GREATER
      else if k = KEY_SLASH then of_int KEY_QUESTION else if k = KEY_SEMICOLON then of_int KEY_COLON
      else if k = KEY_QUOTE then of_int KEY_QUOTEDOUBLE
      else if k = KEY_LEFTBRACKET then of_int KEY_LEFTCURL
      else if k = KEY_RIGHTBRACKET then of_int KEY_RIGHTCURL
      else if k = KEY_GRAVE then of_int KEY_TILDE else if k = KEY_MINUS then of_int KEY_UNDERSCORE
      else if k = KEY_PLUS then of_int KEY_EQUAL else if k = KEY_BACKSLASH then of_int KEY_BAR
      else key)"

definition isascii :: "u8 \<Rightarrow> bool" where
  "isascii c \<longleftrightarrow> (signed c :: u32) \<le> 0x7F"

definition keyCodeToASCII :: "Keyboard \<Rightarrow> int \<Rightarrow> u8" where
  "keyCodeToASCII kb code =
     (let key = word_of_int code :: u8 in
      if isascii key then
        let key = (if (shift kb \<or> capsLock kb) \<and> 0x61 \<le> key \<and> key \<le> 0x7a then key - 32 else key)
        in if shift kb \<and> \<not> capsLock kb then
             if 0x30 \<le> key \<and> key \<le> 0x39 then shiftDigit key else shiftSymbol key
           else key
      else 0)"

section \<open>The scan code table\<close>

lemma table_length [simp]: "length scancodeToKeyCode = 83"
  by (simp add: scancodeToKeyCode_def)

lemma u8_all:
  assumes "list_all (\<lambda>n. P (of_nat n)) [0..<256]"
  shows "P (b :: u8)"
proof -
  have "unat b < 256" using unsigned_less [of b] by simp
  then have "unat b \<in> set [0..<256]" by simp
  then have "P (of_nat (unat b))" using assms unfolding list_all_iff by (rule bspec [rotated])
  then show ?thesis by simp
qed

lemma break_bit: "(b :: u8) AND 0x80 = 0 \<longleftrightarrow> uint b < 128"
  by (rule u8_all) code_simp

lemma table_special:
  assumes "i < 83"
  shows "(scancodeToKeyCode ! i = KEY_LSHIFT \<or> scancodeToKeyCode ! i = KEY_RSHIFT) \<longleftrightarrow> i = 0x2a \<or> i = 0x36"
    "scancodeToKeyCode ! i = KEY_CAPSLOCK \<longleftrightarrow> i = 0x3a"
proof -
  have "list_all (\<lambda>i. ((scancodeToKeyCode ! i = KEY_LSHIFT \<or> scancodeToKeyCode ! i = KEY_RSHIFT) \<longleftrightarrow> i = 0x2a \<or> i = 0x36) \<and>
      (scancodeToKeyCode ! i = KEY_CAPSLOCK \<longleftrightarrow> i = 0x3a)) [0..<83]"
    by code_simp
  then have "\<forall>i\<in>set [0..<83]. ((scancodeToKeyCode ! i = KEY_LSHIFT \<or> scancodeToKeyCode ! i = KEY_RSHIFT) \<longleftrightarrow> i = 0x2a \<or> i = 0x36) \<and>
      (scancodeToKeyCode ! i = KEY_CAPSLOCK \<longleftrightarrow> i = 0x3a)"
    by (simp only: list_all_iff)
  from bspec [OF this, of i] assms show
    "(scancodeToKeyCode ! i = KEY_LSHIFT \<or> scancodeToKeyCode ! i = KEY_RSHIFT) \<longleftrightarrow> i = 0x2a \<or> i = 0x36"
    "scancodeToKeyCode ! i = KEY_CAPSLOCK \<longleftrightarrow> i = 0x3a" by simp_all
qed

section \<open>Streams of scan codes\<close>

text \<open>The handler on consecutive bytes from the controller, with the keys it wrote.\<close>

fun key_stream :: "u8 list \<Rightarrow> Keyboard \<Rightarrow> (Keyboard \<times> int list) option" where
  "key_stream [] kb = Some (kb, [])"
| "key_stream (b # bs) kb =
     Option.bind (isrHandler 1 b kb) (\<lambda>(kb', key).
       map_option (\<lambda>(kb'', keys). (kb'', (case key of None \<Rightarrow> [] | Some k \<Rightarrow> [k]) @ keys)) (key_stream bs kb'))"

definition in_table :: "u8 \<Rightarrow> bool" where
  "in_table b \<longleftrightarrow> unat b = 0xE0 \<or> unat b = 0xE1 \<or> unat b mod 128 < 83"

definition key_of_byte :: "u8 \<Rightarrow> int option" where
  "key_of_byte b = (if unat b < 128 \<and> scancodeToKeyCode ! unat b \<noteq> KEY_UNKNOWN
     then Some (scancodeToKeyCode ! unat b) else None)"

definition shift_after :: "u8 \<Rightarrow> bool \<Rightarrow> bool" where
  "shift_after b s = (if b = 0x2a \<or> b = 0x36 then True else if b = 0xaa \<or> b = 0xb6 then False else s)"

definition caps_after :: "u8 \<Rightarrow> bool \<Rightarrow> bool" where
  "caps_after b c = (if b = 0x3a then \<not> c else c)"

lemma isr_prefix:
  assumes "scancode kb = 0" "unat b = 0xE0 \<or> unat b = 0xE1"
  shows "isrHandler 1 b kb = Some (kb\<lparr>extended := True, kerror := 0\<rparr>, None)"
proof -
  define n where "n = unat b"
  have "uint b = int n" "n = 0xE0 \<or> n = 0xE1" using assms(2) by (simp_all add: n_def)
  then show ?thesis using assms(1) by (auto simp: isrHandler_def decode_def getLastKeyCode_def discardLastKeyCode_def)
qed

lemma makeKey_fields [simp]:
  "scancode (makeKey k kb) = scancode kb" "kerror (makeKey k kb) = kerror kb"
  "shift (makeKey k kb) \<longleftrightarrow> (k = KEY_LSHIFT \<or> k = KEY_RSHIFT) \<or> shift kb"
  "capsLock (makeKey k kb) \<longleftrightarrow> (if k = KEY_CAPSLOCK then \<not> capsLock kb else capsLock kb)"
  by (simp_all add: makeKey_def)

lemma breakKey_fields [simp]:
  "scancode (breakKey k kb) = scancode kb" "kerror (breakKey k kb) = kerror kb"
  "shift (breakKey k kb) \<longleftrightarrow> \<not> (k = KEY_LSHIFT \<or> k = KEY_RSHIFT) \<and> shift kb"
  "capsLock (breakKey k kb) = capsLock kb"
  by (simp_all add: breakKey_def)

lemma table_0: "scancodeToKeyCode ! 0 = KEY_UNKNOWN"
  by (simp add: scancodeToKeyCode_def)

lemma keyOf_table: "i < 83 \<Longrightarrow> keyOf (int i) = Some (scancodeToKeyCode ! i)"
  by (simp add: keyOf_def)

lemma isr_make:
  assumes "scancode kb = 0" "unat b < 83"
  shows "\<exists>kb'. isrHandler 1 b kb = Some (kb', key_of_byte b) \<and> scancode kb' = 0 \<and> kerror kb' = 0 \<and>
    shift kb' = shift (makeKey (scancodeToKeyCode ! unat b) kb) \<and>
    capsLock kb' = capsLock (makeKey (scancodeToKeyCode ! unat b) kb)"
proof -
  define n where "n = unat b"
  have u: "uint b = int n" and nb: "n < 83" using assms(2) by (simp_all add: n_def)
  have d: "decode b kb = Some (makeKey (scancodeToKeyCode ! unat b) (kb\<lparr>extended := False, scancode := int n\<rparr>), int n)"
    using nb keyOf_table [OF nb] by (simp add: decode_def break_bit Let_def u n_def [symmetric])
  have k: "getLastKeyCode kb' = Some (scancodeToKeyCode ! unat b)" if "scancode kb' = int n" for kb'
    using that nb table_0 keyOf_table [OF nb] by (auto simp: getLastKeyCode_def n_def [symmetric])
  show ?thesis
    using nb unfolding isrHandler_def d by (simp add: k discardLastKeyCode_def key_of_byte_def n_def [symmetric])
qed

lemma isr_break:
  assumes "scancode kb = 0" "128 \<le> unat b" "unat b - 128 < 83" "unat b \<noteq> 0xE0" "unat b \<noteq> 0xE1"
  shows "\<exists>kb'. isrHandler 1 b kb = Some (kb', None) \<and> scancode kb' = 0 \<and> kerror kb' = 0 \<and>
    shift kb' = shift (breakKey (scancodeToKeyCode ! (unat b - 128)) kb) \<and> capsLock kb' = capsLock kb"
proof -
  define n where "n = unat b"
  have u: "uint b = int n" and nb: "128 \<le> n" "n - 128 < 83" "n \<noteq> 0xE0" "n \<noteq> 0xE1" using assms(2-5) by (simp_all add: n_def)
  have e: "int n - 128 = int (n - 128)" and lt: "n < 211" using nb(1,2) by simp_all
  have d: "decode b kb = Some (breakKey (scancodeToKeyCode ! (unat b - 128)) (kb\<lparr>extended := False\<rparr>), int (unat b - 128))"
    using nb keyOf_table [OF nb(2)] by (simp add: decode_def break_bit Let_def u e n_def [symmetric] del: of_nat_diff)
  show ?thesis
    using assms(1) nb lt unfolding isrHandler_def d n_def [symmetric]
    by (simp add: getLastKeyCode_def discardLastKeyCode_def)
qed

lemma isr_step:
  assumes "scancode kb = 0" "in_table b"
  shows "\<exists>kb'. isrHandler 1 b kb = Some (kb', key_of_byte b) \<and> scancode kb' = 0 \<and> kerror kb' = 0 \<and>
    shift kb' = shift_after b (shift kb) \<and> capsLock kb' = caps_after b (capsLock kb)"
proof -
  have n: "b = 0x2a \<longleftrightarrow> unat b = 0x2a" "b = 0x36 \<longleftrightarrow> unat b = 0x36" "b = 0xaa \<longleftrightarrow> unat b = 0xaa"
    "b = 0xb6 \<longleftrightarrow> unat b = 0xb6" "b = 0x3a \<longleftrightarrow> unat b = 0x3a"
    by (simp_all add: word_unat_eq_iff)
  have u: "unat b < 256" using unsigned_less [of b] by simp
  consider "unat b = 0xE0 \<or> unat b = 0xE1" | "unat b < 83"
    | "128 \<le> unat b" "unat b - 128 < 83" "unat b \<noteq> 0xE0" "unat b \<noteq> 0xE1"
  proof -
    have "unat b < 83 \<or> 128 \<le> unat b \<and> unat b - 128 < 83" if "unat b mod 128 < 83"
      using that u by (cases "unat b < 128") (auto simp: le_mod_geq)
    then show ?thesis using that assms(2) unfolding in_table_def by blast
  qed
  then show ?thesis
  proof cases
    case 1
    then have "key_of_byte b = None" "unat b \<in> {0xE0, 0xE1}" by (auto simp: key_of_byte_def)
    then show ?thesis using isr_prefix [OF assms(1) 1] n by (auto simp: shift_after_def caps_after_def assms(1))
  next
    case 2
    then show ?thesis
      using isr_make [OF assms(1) 2] table_special [OF 2] n by (auto simp: shift_after_def caps_after_def)
  next
    case 3
    then have "key_of_byte b = None" by (simp add: key_of_byte_def)
    then show ?thesis
      using isr_break [OF assms(1) 3] table_special(1) [OF 3(2)] n 3(1) by (auto simp: shift_after_def caps_after_def)
  qed
qed

lemma key_stream_table:
  assumes "scancode kb = 0" "list_all in_table bs"
  shows "\<exists>kb'. key_stream bs kb = Some (kb', List.map_filter key_of_byte bs) \<and> scancode kb' = 0 \<and>
    shift kb' = fold shift_after bs (shift kb) \<and> capsLock kb' = fold caps_after bs (capsLock kb)"
  using assms
proof (induction bs arbitrary: kb)
  case (Cons b bs)
  then obtain kb1 where k1: "isrHandler 1 b kb = Some (kb1, key_of_byte b)" "scancode kb1 = 0"
    "shift kb1 = shift_after b (shift kb)" "capsLock kb1 = caps_after b (capsLock kb)"
    using isr_step [of kb b] by auto
  obtain kb2 where k2: "key_stream bs kb1 = Some (kb2, List.map_filter key_of_byte bs)" "scancode kb2 = 0"
    "shift kb2 = fold shift_after bs (shift kb1)" "capsLock kb2 = fold caps_after bs (capsLock kb1)"
    using Cons.IH [OF k1(2)] Cons.prems by auto
  show ?case using k1 k2 by (simp add: map_filter_simps split: option.splits)
qed (simp add: map_filter_simps)

section \<open>The keyboard layout\<close>

text \<open>
  The keys of a keyboard by their make codes in scan code set 1, row by row: a row starts at a code and its keys have the codes that follow; the
  key code of a printable key is its character. The layout ends at \<open>0x49\<close>: from there on the table in the code is shifted against the codes
  its comments give.
\<close>

definition layout_rows :: "(nat \<times> string) list" where
  "layout_rows = [(0x02, ''1234567890-=''), (0x10, ''qwertyuiop[]''), (0x1e, ''asdfghjkl;'' @ [CHR 0x27, CHR 0x60]),
     (0x2b, CHR 0x5C # ''zxcvbnm,./''), (0x37, ''*''), (0x39, '' ''), (0x48, ''8'')]"

definition layout_keys :: "(nat \<times> int) list" where
  "layout_keys = [(0x01, KEY_ESCAPE), (0x0e, KEY_BACKSPACE), (0x0f, KEY_TAB), (0x1c, KEY_RETURN), (0x1d, KEY_LCTRL), (0x2a, KEY_LSHIFT),
     (0x36, KEY_RSHIFT), (0x38, KEY_RALT), (0x3a, KEY_CAPSLOCK), (0x45, KEY_KP_NUMLOCK), (0x46, KEY_SCROLLLOCK), (0x47, KEY_HOME),
     (0x49, KEY_PAGEUP)]"

definition layout :: "nat \<Rightarrow> int option" where
  "layout c = (case find (\<lambda>(a, row). a \<le> c \<and> c < a + length row) layout_rows of
     Some (a, row) \<Rightarrow> Some (of_char (row ! (c - a)))
   | None \<Rightarrow> if 0x3b \<le> c \<and> c \<le> 0x44 then Some (KEY_F1 + int (c - 0x3b)) else map_of layout_keys c)"

definition on_layout :: "u8 \<Rightarrow> bool" where
  "on_layout b \<longleftrightarrow> unat b = 0xE0 \<or> unat b = 0xE1 \<or> unat b mod 128 \<le> 0x49"

text \<open>The key that is pressed, if the byte is a make code.\<close>

definition pressed :: "u8 \<Rightarrow> int option" where
  "pressed b = (if unat b < 128 then layout (unat b) else None)"

lemma layout_table: "on_layout b \<Longrightarrow> in_table b \<and> key_of_byte b = pressed b"
proof -
  have "on_layout b \<longrightarrow> in_table b \<and> key_of_byte b = pressed b" by (rule u8_all) code_simp
  then show "on_layout b \<Longrightarrow> in_table b \<and> key_of_byte b = pressed b" by blast
qed

lemma layout_stream:
  assumes "list_all on_layout bs"
  shows "list_all in_table bs" "List.map_filter key_of_byte bs = List.map_filter pressed bs"
  using assms by (induction bs) (simp_all add: layout_table map_filter_simps split: option.split)

section \<open>Correctness of the driver\<close>



text \<open>Bytes past the table: for every byte other than the two prefixes whose low seven bits are 83 or
  more (for example \<open>0x57\<close> and \<open>0x58\<close>, the codes of F11 and F12, and all controller error codes), the handler
  reads outside \<open>scancodeToKeyCode\<close>.\<close>

theorem keyboard_reads_past_table:
  assumes "\<not> in_table b"
  shows "isrHandler 1 b kb = None"
proof -
  define n where "n = unat b"
  have u: "uint b = int n" and n: "n \<noteq> 0xE0" "n \<noteq> 0xE1" "\<not> n mod 128 < 83" "n < 256"
    using assms unsigned_less [of b] by (simp_all add: in_table_def n_def)
  have "decode b kb = None"
  proof (cases "n < 128")
    case True
    then show ?thesis using n by (simp add: decode_def break_bit Let_def u keyOf_def)
  next
    case False
    then have "\<not> int n - 128 < 83" using n by (simp add: le_mod_geq)
    then show ?thesis using n False by (simp add: decode_def break_bit Let_def u keyOf_def)
  qed
  then show ?thesis by (simp add: isrHandler_def)
qed

theorem keyboard_reads_past_table_witness:
  "isrHandler 1 0x57 new_Keyboard = None \<and> isrHandler 1 0xFC new_Keyboard = None"
  using keyboard_reads_past_table [of "0x57"] keyboard_reads_past_table [of "0xFC"] by (simp add: in_table_def)

text \<open>The error field is dead: whatever byte arrives, when the handler returns the error is 0, because an
  error code has bit 7 set and is turned into a make code before it is compared with the error codes.\<close>

theorem keyboard_error_never_set:
  assumes "isrHandler status b kb = Some (kb', key)" "status AND 1 \<noteq> 0"
  shows "kerror kb' = 0"
proof -
  obtain kb1 code where d: "decode b kb = Some (kb1, code)"
    and k: "kerror kb' = (if code = 0xFC \<or> code = 0xFD \<or> code = 0xFE then code else 0)"
    using assms by (auto simp: isrHandler_def discardLastKeyCode_def bind_eq_Some_conv)
  have "code = 0xE0 \<or> code = 0xE1 \<or> code < 83"
    using d by (auto simp: decode_def Let_def keyOf_def split: if_splits)
  then show ?thesis using k by auto
qed

theorem keyboard_error_never_set_witness:
  "\<exists>kb' key. isrHandler 1 0xD2 new_Keyboard = Some (kb', key) \<and> kerror kb' = 0"
proof -
  have "isrHandler 1 0xD2 new_Keyboard \<noteq> None" by code_simp
  then obtain kb' key where "isrHandler 1 0xD2 new_Keyboard = Some (kb', key)" by auto
  then show ?thesis using keyboard_error_never_set [of 1 "0xD2" new_Keyboard] by auto
qed

lemma isascii_iff: "isascii b \<longleftrightarrow> unat b < 128"
  by (rule u8_all) code_simp

lemma shift_ascii: "unat b < 128 \<Longrightarrow> unat (shiftSymbol b) < 128" "unat b < 128 \<Longrightarrow> unat (shiftDigit b) < 128"
  by (simp_all add: shiftSymbol_def shiftDigit_def Let_def)

lemma keyCodeToASCII_bound: "unat (keyCodeToASCII kb code) < 128"
proof -
  define key :: u8 where "key = word_of_int code"
  show ?thesis
  proof (cases "isascii key")
    case True
    define k2 where "k2 = (if (shift kb \<or> capsLock kb) \<and> 0x61 \<le> key \<and> key \<le> 0x7a then key - 32 else key)"
    have "unat key < 128" using True by (simp add: isascii_iff)
    moreover have "unat (key - 32) = unat key - 32" if "0x61 \<le> key"
      using that by (simp add: word_le_nat_alt unat_sub)
    ultimately have "unat k2 < 128" by (auto simp: k2_def)
    then show ?thesis using shift_ascii [of k2] True
      by (simp add: keyCodeToASCII_def Let_def key_def [symmetric] k2_def [symmetric])
  next
    case False
    then show ?thesis by (simp add: keyCodeToASCII_def Let_def key_def [symmetric])
  qed
qed

lemma unat_of_key: "0 \<le> code \<Longrightarrow> code < 128 \<Longrightarrow> unat (word_of_int code :: u8) = nat code"
  by (simp add: unsigned_of_int take_bit_int_eq_self)

text \<open>Translation to characters: the result is always a 7-bit character; a letter key gives its upper case
  letter exactly when shift or caps lock is on; without shift every other key code below 128 is its own
  character.\<close>

theorem keycode_ascii:
  "unat (keyCodeToASCII kb code) < 128 \<and>
   (97 \<le> code \<and> code \<le> 122 \<longrightarrow> keyCodeToASCII kb code = of_int (if shift kb \<or> capsLock kb then code - 32 else code)) \<and>
   (\<not> shift kb \<and> 0 \<le> code \<and> code < 128 \<and> \<not> (97 \<le> code \<and> code \<le> 122) \<longrightarrow> keyCodeToASCII kb code = of_int code)"
proof (intro conjI impI)
  show "unat (keyCodeToASCII kb code) < 128" by (rule keyCodeToASCII_bound)
  define key :: u8 where "key = word_of_int code"
  have key: "unat key = nat code" if "0 \<le> code" "code < 128" using unat_of_key that by (simp add: key_def)
  show "keyCodeToASCII kb code = of_int (if shift kb \<or> capsLock kb then code - 32 else code)"
    if c: "97 \<le> code \<and> code \<le> 122"
  proof -
    have k: "unat key = nat code" "isascii key" "0x61 \<le> key" "key \<le> 0x7a"
      using key c by (auto simp: isascii_iff word_le_nat_alt)
    have k32: "unat (key - 32) = nat code - 32" using k by (simp add: unat_sub word_le_nat_alt)
    define n where "n = unat (key - 32)"
    have u: "uint (key - 32) = int n" by (simp add: n_def)
    have n: "65 \<le> n" "n \<le> 90" using k32 c by (auto simp: n_def)
    have up: "shiftSymbol (key - 32) = key - 32" using n unfolding shiftSymbol_def Let_def u by simp
    have "\<not> key - 32 \<le> 0x39" using n by (simp add: word_le_nat_alt n_def)
    then show ?thesis using k up by (simp add: keyCodeToASCII_def Let_def key_def [symmetric])
  qed
  show "keyCodeToASCII kb code = of_int code"
    if c: "\<not> shift kb \<and> 0 \<le> code \<and> code < 128 \<and> \<not> (97 \<le> code \<and> code \<le> 122)"
  proof -
    have "isascii key" "\<not> (0x61 \<le> key \<and> key \<le> 0x7a)" using key c by (auto simp: isascii_iff word_le_nat_alt)
    then show ?thesis using c by (auto simp: keyCodeToASCII_def Let_def key_def [symmetric])
  qed
qed

theorem keycode_ascii_witness:
  "keyCodeToASCII (new_Keyboard\<lparr>shift := True\<rparr>) KEY_Q = 0x51"
  using keycode_ascii [of "new_Keyboard\<lparr>shift := True\<rparr>" KEY_Q] by simp

text \<open>Key codes above 255 are not recognised as non-characters: the code is truncated to eight bits before
  the ASCII test, so every key code acts like its low byte; F8 is a backspace, F10 a line feed, and the shift
  key itself is the character with code 2.\<close>

theorem keycode_truncated:
  "keyCodeToASCII kb code = keyCodeToASCII kb (code mod 256) \<and>
   (\<not> shift kb \<longrightarrow> keyCodeToASCII kb KEY_F8 = 8 \<and> keyCodeToASCII kb KEY_F10 = 10 \<and> keyCodeToASCII kb KEY_LSHIFT = 2)"
proof -
  have "(word_of_int code :: u8) = word_of_int (code mod 256)" by (simp add: word_of_int_eq_iff take_bit_eq_mod)
  moreover have "isascii (of_int KEY_F8)" "isascii (of_int KEY_F10)" "isascii (of_int KEY_LSHIFT)" by (simp_all add: isascii_iff)
  ultimately show ?thesis by (simp add: keyCodeToASCII_def Let_def)
qed

theorem keycode_truncated_witness:
  "keyCodeToASCII new_Keyboard KEY_F8 = keyCodeToASCII new_Keyboard KEY_BACKSPACE"
  using keycode_truncated [of new_Keyboard KEY_F8] by (simp add: new_Keyboard_def)

end
