(* ===== verification/Pic.thy ===== *)
theory Pic
  imports Dimos_Prelude "HOL-Library.Monad_Syntax"
begin

text \<open>
  Port I/O and the devices reached through it: the 8259 interrupt controllers
  (\<open>kernel/kernel/devices/pic.cpp\<close>, \<open>pic.h\<close>), the interval timer (\<open>pit.cpp\<close>), and the busy-waiting
  commands of the keyboard controller (\<open>keyboard.cpp\<close>). The \<open>in\<close> and \<open>out\<close> instructions are an
  argument of the definitions (\<open>Ports\<close>, over an arbitrary state \<open>'b\<close> of the hardware). What the code
  relies on of the two controllers is the hypothesis \<open>pic_chips\<close>: the documented reaction of an 8259 to
  its command and data port, written as functions of a \<open>Chip\<close>.
\<close>

section \<open>Port I/O (\<open>x64.h\<close>)\<close>

record 'b Ports =
  outb_instr :: "u16 \<Rightarrow> u8 \<Rightarrow> 'b \<Rightarrow> 'b"
  inb_instr :: "u16 \<Rightarrow> 'b \<Rightarrow> u8 \<times> 'b"

definition io_outb :: "'b Ports \<Rightarrow> u16 \<Rightarrow> u8 \<Rightarrow> 'b \<Rightarrow> 'b" where
  "io_outb P port val b = outb_instr P port val b"

definition io_inb :: "'b Ports \<Rightarrow> u16 \<Rightarrow> 'b \<Rightarrow> u8 \<times> 'b" where
  "io_inb P port b = inb_instr P port b"

definition io_wait :: "'b Ports \<Rightarrow> 'b \<Rightarrow> 'b" where
  "io_wait P b = snd (io_inb P 0x80 b)"

section \<open>The interrupt controllers (\<open>pic.cpp\<close>)\<close>

abbreviation (input) PIC1_COMMAND :: u16 where "PIC1_COMMAND \<equiv> 0x20"
abbreviation (input) PIC1_DATA :: u16 where "PIC1_DATA \<equiv> 0x21"
abbreviation (input) PIC2_COMMAND :: u16 where "PIC2_COMMAND \<equiv> 0xA0"
abbreviation (input) PIC2_DATA :: u16 where "PIC2_DATA \<equiv> 0xA1"
abbreviation (input) ICW4_8086 :: u8 where "ICW4_8086 \<equiv> 0x01"
abbreviation (input) PIC1Offset :: u8 where "PIC1Offset \<equiv> 0x20"
abbreviation (input) PIC2Offset :: u8 where "PIC2Offset \<equiv> 0x28"
abbreviation (input) PIC2End :: u8 where "PIC2End \<equiv> 0x30"

definition pic_disable :: "'b Ports \<Rightarrow> 'b \<Rightarrow> 'b" where
  "pic_disable P b = io_outb P PIC1_DATA 0xFF (io_outb P PIC2_DATA 0xFF b)"

definition pic_remap :: "'b Ports \<Rightarrow> 'b \<Rightarrow> 'b" where
  "pic_remap P b =
    (let (mask1, b) = io_inb P PIC1_DATA b;
         (mask2, b) = io_inb P PIC2_DATA b;
         b = io_outb P PIC1_COMMAND 0x11 b; b = io_outb P PIC2_COMMAND 0x11 b; b = io_wait P b;
         b = io_outb P PIC1_DATA PIC1Offset b; b = io_outb P PIC2_DATA PIC2Offset b; b = io_wait P b;
         b = io_outb P PIC1_DATA 0x04 b; b = io_outb P PIC2_DATA 0x02 b; b = io_wait P b;
         b = io_outb P PIC1_DATA 0x01 b; b = io_outb P PIC2_DATA 0x01 b; b = io_wait P b;
         b = io_outb P PIC1_DATA 0x00 b; b = io_outb P PIC2_DATA 0x00 b; b = io_wait P b;
         b = io_outb P PIC1_DATA ICW4_8086 b; b = io_wait P b;
         b = io_outb P PIC2_DATA ICW4_8086 b; b = io_wait P b;
         b = io_outb P PIC1_DATA mask1 b; b = io_outb P PIC2_DATA mask2 b
     in b)"

text \<open>\<open>1 << irqLine\<close> is an \<open>int\<close> that is narrowed to \<open>uint8_t\<close>: lines past the eighth of a controller lose
  their bit.\<close>

definition maskLine :: "'b Ports \<Rightarrow> u8 \<Rightarrow> 'b \<Rightarrow> 'b" where
  "maskLine P irqLine b =
    (let (port, irqLine) = (if irqLine < 8 then (PIC1_DATA, irqLine) else (PIC2_DATA, irqLine - 8));
         (v, b) = io_inb P port b;
         val = v OR push_bit (unat irqLine) 1
     in io_outb P port val b)"

definition clearMask :: "'b Ports \<Rightarrow> u8 \<Rightarrow> 'b \<Rightarrow> 'b" where
  "clearMask P irqLine b =
    (let (port, irqLine) = (if irqLine < 8 then (PIC1_DATA, irqLine) else (PIC2_DATA, irqLine - 8));
         (v, b) = io_inb P port b;
         val = v AND NOT (push_bit (unat irqLine) 1)
     in io_outb P port val b)"

definition signalEOI :: "'b Ports \<Rightarrow> u64 \<Rightarrow> 'b \<Rightarrow> 'b" where
  "signalEOI P isrNumber b =
    (let b = (if isrNumber \<ge> 40 then io_outb P PIC2_COMMAND 0x20 b else b)
     in io_outb P PIC1_COMMAND 0x20 b)"

section \<open>The interval timer (\<open>pit.cpp\<close>)\<close>

definition pit_init :: "'b Ports \<Rightarrow> u16 \<Rightarrow> 'b \<Rightarrow> 'b" where
  "pit_init P divisor b =
    (let b = clearMask P 0 b;
         b = io_outb P 0x43 0x36 b;
         l = ucast (divisor AND 0xFF);
         h = ucast (drop_bit 8 divisor AND 0xFF);
         b = io_outb P 0x40 l b
     in io_outb P 0x40 h b)"

definition pit_stop :: "'b Ports \<Rightarrow> 'b \<Rightarrow> 'b" where
  "pit_stop P b = maskLine P 0 b"

section \<open>The keyboard controller (\<open>keyboard.cpp\<close>)\<close>

abbreviation (input) CTRL_STATS_REG :: u16 where "CTRL_STATS_REG \<equiv> 0x64"
abbreviation (input) CTRL_CMD_REG :: u16 where "CTRL_CMD_REG \<equiv> 0x64"
abbreviation (input) ENC_INPUT_BUF :: u16 where "ENC_INPUT_BUF \<equiv> 0x60"
abbreviation (input) ENC_CMD_REG :: u16 where "ENC_CMD_REG \<equiv> 0x60"
abbreviation (input) CTRL_STATS_MASK_IN_BUF :: u8 where "CTRL_STATS_MASK_IN_BUF \<equiv> 2"

definition readControllerStatus :: "'b Ports \<Rightarrow> 'b \<Rightarrow> u8 \<times> 'b" where
  "readControllerStatus P b = io_inb P CTRL_STATS_REG b"

definition readEncoderBuffer :: "'b Ports \<Rightarrow> 'b \<Rightarrow> u8 \<times> 'b" where
  "readEncoderBuffer P b = io_inb P ENC_INPUT_BUF b"

text \<open>The loop \<open>while (true) { if ((readControllerStatus() & IN_BUF) == 0) break; }\<close>; \<^const>\<open>None\<close> is a
  controller that never becomes ready.\<close>

partial_function (option) waitInputBuffer :: "'b Ports \<Rightarrow> 'b \<Rightarrow> 'b option" where
  [code]: "waitInputBuffer P b =
    (let (s, b) = readControllerStatus P b
     in if s AND CTRL_STATS_MASK_IN_BUF = 0 then Some b else waitInputBuffer P b)"

definition sendControllerCommand :: "'b Ports \<Rightarrow> u8 \<Rightarrow> 'b \<Rightarrow> 'b option" where
  "sendControllerCommand P cmd b = do { b \<leftarrow> waitInputBuffer P b; Some (io_outb P CTRL_CMD_REG cmd b) }"

definition sendEncoderCommand :: "'b Ports \<Rightarrow> u8 \<Rightarrow> 'b \<Rightarrow> 'b option" where
  "sendEncoderCommand P cmd b = do { b \<leftarrow> waitInputBuffer P b; Some (io_outb P ENC_CMD_REG cmd b) }"

section \<open>Documented behaviour of an 8259\<close>

text \<open>
  \<open>stage\<close> counts the initialisation words still expected on the data port (0 in operation), \<open>cascaded\<close>
  and \<open>wants4\<close> are the options of ICW1. ICW1 clears the mask register.
\<close>

datatype Stage = Operating | AwaitICW2 | AwaitICW3 | AwaitICW4

record Chip =
  stage :: Stage
  cascaded :: bool
  wants4 :: bool
  imr :: u8
  icw2 :: u8
  icw3 :: u8
  icw4 :: u8
  eois :: nat

definition chip_command :: "u8 \<Rightarrow> Chip \<Rightarrow> Chip" where
  "chip_command v c =
    (if bit v 4 then c\<lparr>stage := AwaitICW2, cascaded := \<not> bit v 1, wants4 := bit v 0, imr := 0\<rparr>
     else if v = 0x20 then c\<lparr>eois := Suc (eois c)\<rparr> else c)"

fun after_icw3 :: "Chip \<Rightarrow> Chip" where
  "after_icw3 c = c\<lparr>stage := if wants4 c then AwaitICW4 else Operating\<rparr>"

definition chip_data :: "u8 \<Rightarrow> Chip \<Rightarrow> Chip" where
  "chip_data v c = (case stage c of
      Operating \<Rightarrow> c\<lparr>imr := v\<rparr>
    | AwaitICW2 \<Rightarrow> (if cascaded c then c\<lparr>icw2 := v, stage := AwaitICW3\<rparr> else after_icw3 (c\<lparr>icw2 := v\<rparr>))
    | AwaitICW3 \<Rightarrow> after_icw3 (c\<lparr>icw3 := v\<rparr>)
    | AwaitICW4 \<Rightarrow> c\<lparr>icw4 := v, stage := Operating\<rparr>)"

definition pic_chips :: "'b Ports \<Rightarrow> ('b \<Rightarrow> Chip) \<Rightarrow> ('b \<Rightarrow> Chip) \<Rightarrow> bool" where
  "pic_chips P c1 c2 \<longleftrightarrow>
    (\<forall>port v b. c1 (outb_instr P port v b) =
       (if port = 0x20 then chip_command v (c1 b) else if port = 0x21 then chip_data v (c1 b) else c1 b)) \<and>
    (\<forall>port v b. c2 (outb_instr P port v b) =
       (if port = 0xA0 then chip_command v (c2 b) else if port = 0xA1 then chip_data v (c2 b) else c2 b)) \<and>
    (\<forall>port b. c1 (snd (inb_instr P port b)) = c1 b \<and> c2 (snd (inb_instr P port b)) = c2 b) \<and>
    (\<forall>b. stage (c1 b) = Operating \<longrightarrow> fst (inb_instr P 0x21 b) = imr (c1 b)) \<and>
    (\<forall>b. stage (c2 b) = Operating \<longrightarrow> fst (inb_instr P 0xA1 b) = imr (c2 b))"

text \<open>The pair of chips as hardware of its own, for concrete runs.\<close>

definition two_chips :: "(Chip \<times> Chip) Ports" where
  "two_chips = \<lparr>
    outb_instr = (\<lambda>port v (a, c).
      (if port = 0x20 then chip_command v a else if port = 0x21 then chip_data v a else a,
       if port = 0xA0 then chip_command v c else if port = 0xA1 then chip_data v c else c)),
    inb_instr = (\<lambda>port (a, c). (if port = 0x21 then imr a else if port = 0xA1 then imr c else 0, (a, c)))\<rparr>"

definition idle_chip :: "u8 \<Rightarrow> Chip" where
  "idle_chip m = \<lparr>stage = Operating, cascaded = False, wants4 = False, imr = m, icw2 = 8, icw3 = 0, icw4 = 0, eois = 0\<rparr>"

lemma two_chips_ok: "pic_chips two_chips fst snd"
  by (simp add: pic_chips_def two_chips_def split_beta)

section \<open>The drivers on such hardware\<close>

lemma chip1_out:
  "pic_chips P c1 c2 \<Longrightarrow> c1 (io_outb P port v b) =
    (if port = 0x20 then chip_command v (c1 b) else if port = 0x21 then chip_data v (c1 b) else c1 b)"
  by (simp add: pic_chips_def io_outb_def)

lemma chip2_out:
  "pic_chips P c1 c2 \<Longrightarrow> c2 (io_outb P port v b) =
    (if port = 0xA0 then chip_command v (c2 b) else if port = 0xA1 then chip_data v (c2 b) else c2 b)"
  by (simp add: pic_chips_def io_outb_def)

lemma chips_in:
  assumes "pic_chips P c1 c2" "io_inb P port b = (v, b')"
  shows "c1 b' = c1 b" "c2 b' = c2 b"
    "port = 0x21 \<Longrightarrow> stage (c1 b) = Operating \<Longrightarrow> v = imr (c1 b)"
    "port = 0xA1 \<Longrightarrow> stage (c2 b) = Operating \<Longrightarrow> v = imr (c2 b)"
proof -
  have v: "v = fst (inb_instr P port b)" and b': "b' = snd (inb_instr P port b)"
    using assms(2) by (simp_all add: io_inb_def)
  show "c1 b' = c1 b" "c2 b' = c2 b" using assms(1) by (simp_all add: pic_chips_def b')
  show "v = imr (c1 b)" if "port = 0x21" "stage (c1 b) = Operating"
    using assms(1) that by (simp add: pic_chips_def v)
  show "v = imr (c2 b)" if "port = 0xA1" "stage (c2 b) = Operating"
    using assms(1) that by (simp add: pic_chips_def v)
qed

lemma chips_wait:
  assumes "pic_chips P c1 c2"
  shows "c1 (io_wait P b) = c1 b" "c2 (io_wait P b) = c2 b"
  using chips_in [OF assms, of "0x80" b "fst (io_inb P 0x80 b)" "snd (io_inb P 0x80 b)"]
  by (simp_all add: io_wait_def)

lemma remap_effect:
  assumes "pic_chips P c1 c2" "stage (c1 b) = Operating" "stage (c2 b) = Operating"
  shows "c1 (pic_remap P b) = (c1 b)\<lparr>cascaded := True, wants4 := True, icw2 := 0x20, icw3 := 4, icw4 := 1\<rparr>"
    "c2 (pic_remap P b) = (c2 b)\<lparr>cascaded := True, wants4 := True, icw2 := 0x28, icw3 := 2, icw4 := 1\<rparr>"
proof -
  obtain m1 b1 where i1: "io_inb P 0x21 b = (m1, b1)" by (metis surj_pair)
  obtain m2 b2 where i2: "io_inb P 0xA1 b1 = (m2, b2)" by (metis surj_pair)
  note in1 = chips_in [OF assms(1) i1] and in2 = chips_in [OF assms(1) i2]
  have m: "m1 = imr (c1 b)" "m2 = imr (c2 b)" "c1 b2 = c1 b" "c2 b2 = c2 b"
    using in1 in2 assms(2,3) by simp_all
  have b4: "bit (0x11 :: u8) 4" "\<not> bit (0x11 :: u8) 1" "bit (0x11 :: u8) 0" by (simp_all add: bit_simps)
  show "c1 (pic_remap P b) = (c1 b)\<lparr>cascaded := True, wants4 := True, icw2 := 0x20, icw3 := 4, icw4 := 1\<rparr>"
    "c2 (pic_remap P b) = (c2 b)\<lparr>cascaded := True, wants4 := True, icw2 := 0x28, icw3 := 2, icw4 := 1\<rparr>"
    unfolding pic_remap_def i1 Let_def prod.case i2
    by (simp_all add: chip1_out [OF assms(1)] chip2_out [OF assms(1)] chips_wait [OF assms(1)] m
        chip_command_def chip_data_def b4 assms(2,3))
qed

text \<open>\<open>pic::remap\<close> on two operating controllers: each accepts the whole initialisation sequence and is
  back in operation, cascaded over line 2, with its vector base moved to 0x20 and 0x28, and with exactly the
  interrupt mask it had before, although ICW1 clears the mask and the code sends two further bytes (0x00 and
  0x01) that the controllers take for mask writes.\<close>

theorem pic_remap_correct:
  assumes "pic_chips P c1 c2" "stage (c1 b) = Operating" "stage (c2 b) = Operating"
  shows "c1 (pic_remap P b) = (c1 b)\<lparr>cascaded := True, wants4 := True, icw2 := 0x20, icw3 := 4, icw4 := 1\<rparr> \<and>
    c2 (pic_remap P b) = (c2 b)\<lparr>cascaded := True, wants4 := True, icw2 := 0x28, icw3 := 2, icw4 := 1\<rparr>"
  using remap_effect [OF assms] by simp

theorem pic_remap_correct_witness:
  "imr (fst (pic_remap two_chips (idle_chip 0xB8, idle_chip 0x8E))) = 0xB8 \<and>
   icw2 (snd (pic_remap two_chips (idle_chip 0xB8, idle_chip 0x8E))) = 0x28"
  using pic_remap_correct [OF two_chips_ok, of "(idle_chip 0xB8, idle_chip 0x8E)"]
  by (simp add: idle_chip_def)

text \<open>How a line of the sixteen is masked.\<close>

definition masked :: "('b \<Rightarrow> Chip) \<Rightarrow> ('b \<Rightarrow> Chip) \<Rightarrow> nat \<Rightarrow> 'b \<Rightarrow> bool" where
  "masked c1 c2 l b \<longleftrightarrow> (if l < 8 then bit (imr (c1 b)) l else bit (imr (c2 b)) (l - 8))"

lemma unat_minus8: "\<not> (w :: u8) < 8 \<Longrightarrow> unat (w - 8) = unat w - 8"
  using unat_sub [of 8 w] by (simp add: not_less)

lemma mask_line_effect:
  assumes "pic_chips P c1 c2" "stage (c1 b) = Operating" "stage (c2 b) = Operating" "irq < 16"
  shows "c1 (maskLine P irq b) = (c1 b)\<lparr>imr := if irq < 8 then imr (c1 b) OR push_bit (unat irq) 1 else imr (c1 b)\<rparr>"
    "c2 (maskLine P irq b) = (c2 b)\<lparr>imr := if irq < 8 then imr (c2 b) else imr (c2 b) OR push_bit (unat irq - 8) 1\<rparr>"
    "c1 (clearMask P irq b) = (c1 b)\<lparr>imr := if irq < 8 then imr (c1 b) AND NOT (push_bit (unat irq) 1) else imr (c1 b)\<rparr>"
    "c2 (clearMask P irq b) = (c2 b)\<lparr>imr := if irq < 8 then imr (c2 b) else imr (c2 b) AND NOT (push_bit (unat irq - 8) 1)\<rparr>"
proof -
  obtain m1 b1 where i1: "io_inb P 0x21 b = (m1, b1)" by (metis surj_pair)
  obtain m2 b2 where i2: "io_inb P 0xA1 b = (m2, b2)" by (metis surj_pair)
  note in1 = chips_in [OF assms(1) i1] and in2 = chips_in [OF assms(1) i2]
  note facts = chip1_out [OF assms(1)] chip2_out [OF assms(1)] in1 in2 assms(2,3) i1 i2 unat_minus8
  show "c1 (maskLine P irq b) = (c1 b)\<lparr>imr := if irq < 8 then imr (c1 b) OR push_bit (unat irq) 1 else imr (c1 b)\<rparr>"
    "c2 (maskLine P irq b) = (c2 b)\<lparr>imr := if irq < 8 then imr (c2 b) else imr (c2 b) OR push_bit (unat irq - 8) 1\<rparr>"
    "c1 (clearMask P irq b) = (c1 b)\<lparr>imr := if irq < 8 then imr (c1 b) AND NOT (push_bit (unat irq) 1) else imr (c1 b)\<rparr>"
    "c2 (clearMask P irq b) = (c2 b)\<lparr>imr := if irq < 8 then imr (c2 b) else imr (c2 b) AND NOT (push_bit (unat irq - 8) 1)\<rparr>"
    by (simp_all add: maskLine_def clearMask_def Let_def facts chip_data_def)
qed

text \<open>Masking and unmasking interrupt lines: \<open>maskLine\<close> masks the given line of the sixteen,
  \<open>clearMask\<close> unmasks it, every other line keeps its state, and neither disturbs anything else of the
  controllers.\<close>

theorem irq_mask_correct:
  assumes "pic_chips P c1 c2" "stage (c1 b) = Operating" "stage (c2 b) = Operating" "irq < 16" "l < 16"
  shows "(masked c1 c2 l (maskLine P irq b) \<longleftrightarrow> l = unat irq \<or> masked c1 c2 l b) \<and>
    (masked c1 c2 l (clearMask P irq b) \<longleftrightarrow> l \<noteq> unat irq \<and> masked c1 c2 l b) \<and>
    (\<forall>op \<in> {maskLine, clearMask}. (c1 (op P irq b))\<lparr>imr := 0\<rparr> = (c1 b)\<lparr>imr := 0\<rparr> \<and>
       (c2 (op P irq b))\<lparr>imr := 0\<rparr> = (c2 b)\<lparr>imr := 0\<rparr>)"
proof -
  note eff = mask_line_effect [OF assms(1-4)]
  have lt: "irq < 8 \<longleftrightarrow> unat irq < 8" "unat irq < 16"
    using assms(4) by (simp_all add: word_less_nat_alt)
  have "masked c1 c2 l (maskLine P irq b) \<longleftrightarrow> l = unat irq \<or> masked c1 c2 l b"
    unfolding masked_def eff using assms(5) lt by (auto simp: bit_simps)
  moreover have "masked c1 c2 l (clearMask P irq b) \<longleftrightarrow> l \<noteq> unat irq \<and> masked c1 c2 l b"
    unfolding masked_def eff using assms(5) lt by (auto simp: bit_simps)
  ultimately show ?thesis by (simp add: eff)
qed

theorem irq_mask_correct_witness:
  "\<not> masked fst snd 1 (clearMask two_chips 1 (idle_chip 0xFF, idle_chip 0xFF)) \<and>
   masked fst snd 12 (clearMask two_chips 1 (idle_chip 0xFF, idle_chip 0xFF))"
proof -
  have "masked fst snd 12 (idle_chip 0xFF, idle_chip 0xFF)"
    by (simp add: masked_def idle_chip_def bit_simps)
  then show ?thesis
    using irq_mask_correct [OF two_chips_ok, of "(idle_chip 0xFF, idle_chip 0xFF)" 1 1]
      irq_mask_correct [OF two_chips_ok, of "(idle_chip 0xFF, idle_chip 0xFF)" 1 12]
    by (simp add: idle_chip_def)
qed

lemma eoi_effect:
  assumes "pic_chips P c1 c2"
  shows "c1 (signalEOI P n b) = (c1 b)\<lparr>eois := Suc (eois (c1 b))\<rparr>"
    "c2 (signalEOI P n b) = (if n \<ge> 40 then (c2 b)\<lparr>eois := Suc (eois (c2 b))\<rparr> else c2 b)"
  by (simp_all add: signalEOI_def Let_def chip1_out [OF assms] chip2_out [OF assms] chip_command_def bit_simps)

section \<open>Waiting for the keyboard controller\<close>

definition after_polls :: "'b Ports \<Rightarrow> nat \<Rightarrow> 'b \<Rightarrow> 'b" where
  "after_polls P k b = ((\<lambda>b. snd (readControllerStatus P b)) ^^ k) b"

definition ready_at :: "'b Ports \<Rightarrow> nat \<Rightarrow> 'b \<Rightarrow> bool" where
  "ready_at P k b \<longleftrightarrow> fst (readControllerStatus P (after_polls P k b)) AND CTRL_STATS_MASK_IN_BUF = 0"

lemma after_polls_Suc: "after_polls P k (snd (readControllerStatus P b)) = after_polls P (Suc k) b"
  using funpow_swap1 [of "\<lambda>b. snd (readControllerStatus P b)" k b] by (simp add: after_polls_def)

lemma wait_ready:
  assumes "ready_at P k b" "\<forall>j<k. \<not> ready_at P j b"
  shows "waitInputBuffer P b = Some (after_polls P (Suc k) b)"
  using assms
proof (induction k arbitrary: b)
  case 0
  then show ?case
    by (subst waitInputBuffer.simps) (simp add: ready_at_def after_polls_def split_beta)
next
  case (Suc k)
  let ?b = "snd (readControllerStatus P b)"
  have not0: "fst (readControllerStatus P b) AND CTRL_STATS_MASK_IN_BUF \<noteq> 0"
    using Suc.prems(2) by (auto simp: ready_at_def after_polls_def)
  have "ready_at P k ?b" "\<forall>j<k. \<not> ready_at P j ?b"
    using Suc.prems by (auto simp: ready_at_def after_polls_Suc)
  then show ?case using Suc.IH [of ?b] not0
    by (subst waitInputBuffer.simps) (simp add: split_beta after_polls_Suc)
qed

lemma wait_returns_ready:
  assumes "waitInputBuffer P b = Some b'"
  shows "\<exists>k. ready_at P k b"
proof -
  have "case (P, b) of (P, b) \<Rightarrow> \<exists>k. ready_at P k b"
  proof (rule waitInputBuffer.raw_induct [OF _ assms])
    fix wait :: "'a Ports \<Rightarrow> 'a \<Rightarrow> 'a option" and P :: "'a Ports" and b b' :: 'a
    let ?b = "snd (readControllerStatus P b)"
    assume IH: "\<And>P b b'. wait P b = Some b' \<Longrightarrow> case (P, b) of (P, b) \<Rightarrow> \<exists>k. ready_at P k b"
      and r: "(let (s, b) = readControllerStatus P b in if s AND 2 = 0 then Some b else wait P b) = Some b'"
    show "case (P, b) of (P, b) \<Rightarrow> \<exists>k. ready_at P k b"
    proof (cases "fst (readControllerStatus P b) AND CTRL_STATS_MASK_IN_BUF = 0")
      case True
      then have "ready_at P 0 b" by (simp add: ready_at_def after_polls_def)
      then show ?thesis by auto
    next
      case False
      then have "wait P ?b = Some b'" using r by (simp add: split_beta)
      then obtain k where "ready_at P k ?b" using IH by fastforce
      then have "ready_at P (Suc k) b" by (simp add: ready_at_def after_polls_Suc)
      then show ?thesis by auto
    qed
  qed
  then show ?thesis by simp
qed

text \<open>Commands to the keyboard controller: \<open>sendControllerCommand\<close> returns exactly when the controller
  clears its input-buffer flag at some poll, and then it has polled once more than the number of busy polls
  and has written the command byte once, after the first ready poll; with a controller that stays busy it
  never returns.\<close>

theorem sendControllerCommand_correct:
  "(sendControllerCommand P cmd b = None \<longleftrightarrow> (\<forall>k. \<not> ready_at P k b)) \<and>
   (\<forall>k. ready_at P k b \<and> (\<forall>j<k. \<not> ready_at P j b) \<longrightarrow>
     sendControllerCommand P cmd b = Some (io_outb P 0x64 cmd (after_polls P (Suc k) b)))"
proof -
  have a: "sendControllerCommand P cmd b = Some (io_outb P 0x64 cmd (after_polls P (Suc k) b))"
    if "ready_at P k b" "\<forall>j<k. \<not> ready_at P j b" for k
    using wait_ready [OF that] by (simp add: sendControllerCommand_def)
  have "sendControllerCommand P cmd b \<noteq> None" if "ready_at P k b" for k
    using a [of "LEAST k. ready_at P k b"] LeastI [of "\<lambda>k. ready_at P k b", OF that]
    by (metis not_less_Least option.distinct(1))
  moreover have "\<exists>k. ready_at P k b" if "sendControllerCommand P cmd b \<noteq> None"
    using that wait_returns_ready [of P b] by (auto simp: sendControllerCommand_def split: option.splits bind_splits)
  ultimately show ?thesis using a by blast
qed

text \<open>A controller that is busy for a number of polls, with a log of the bytes written.\<close>

definition slow_controller :: "(nat \<times> (u16 \<times> u8) list) Ports" where
  "slow_controller = \<lparr>outb_instr = (\<lambda>port v (n, log). (n, (port, v) # log)),
    inb_instr = (\<lambda>port (n, log). (if n = 0 then 0x1C else 0x1E, (n - 1, log)))\<rparr>"

theorem sendControllerCommand_correct_witness:
  "sendControllerCommand slow_controller 0xAA (2, []) = Some (0, [(0x64, 0xAA)])"
proof -
  have "ready_at slow_controller 2 (2, [])" "\<forall>j<2. \<not> ready_at slow_controller j (2, [])"
    by (simp_all add: ready_at_def after_polls_def slow_controller_def readControllerStatus_def io_inb_def
        numeral_2_eq_2 less_Suc_eq)
  then show ?thesis
    using sendControllerCommand_correct [of slow_controller "0xAA" "(2, [])"]
    by (simp add: after_polls_def slow_controller_def readControllerStatus_def io_inb_def io_outb_def numeral_2_eq_2)
qed

section \<open>The timer's divisor\<close>

text \<open>\<open>pit::init\<close> unmasks line 0 and only it, selects mode 3 of counter 0, and sends the divisor low
  byte first: the last three port writes are the command byte 0x36 and two bytes that make up the divisor
  exactly. \<open>pit::stop\<close> masks the line again.\<close>

theorem pit_init_correct:
  assumes "pic_chips P c1 c2" "stage (c1 b) = Operating" "stage (c2 b) = Operating" "l < 16"
  shows "(\<exists>lo hi. pit_init P d b = io_outb P 0x40 hi (io_outb P 0x40 lo (io_outb P 0x43 0x36 (clearMask P 0 b))) \<and>
      unat hi * 256 + unat lo = unat d) \<and>
    (masked c1 c2 l (pit_init P d b) \<longleftrightarrow> l \<noteq> 0 \<and> masked c1 c2 l b) \<and>
    (masked c1 c2 l (pit_stop P (pit_init P d b)) \<longleftrightarrow> l = 0 \<or> masked c1 c2 l b)"
proof -
  define lo hi :: u8 where "lo = ucast (d AND 0xFF)" and "hi = ucast (drop_bit 8 d AND 0xFF)"
  have ff: "(0xFF :: u16) = mask 8" by (simp add: mask_eq_exp_minus_1)
  have "unat lo = unat d mod 256" "unat hi = unat d div 256 mod 256"
    unfolding lo_def hi_def ff take_bit_eq_mask [symmetric]
    by (simp_all add: unsigned_ucast_eq unsigned_take_bit_eq unat_drop_bit_eq take_bit_eq_mod drop_bit_eq_div unat_mod unat_div)
  moreover have "unat d < 65536" using unsigned_less [of d] by simp
  ultimately have d: "unat hi * 256 + unat lo = unat d" by simp
  have e: "pit_init P d b = io_outb P 0x40 hi (io_outb P 0x40 lo (io_outb P 0x43 0x36 (clearMask P 0 b)))"
    by (simp add: pit_init_def Let_def lo_def hi_def)
  note out = chip1_out [OF assms(1)] chip2_out [OF assms(1)]
  have c: "c1 (pit_init P d b) = c1 (clearMask P 0 b)" "c2 (pit_init P d b) = c2 (clearMask P 0 b)"
    by (simp_all add: e out)
  have op: "stage (c1 (pit_init P d b)) = Operating" "stage (c2 (pit_init P d b)) = Operating"
    unfolding c using assms(2,3) by (simp_all add: mask_line_effect [OF assms(1-3)])
  have i: "masked c1 c2 l (pit_init P d b) \<longleftrightarrow> l \<noteq> 0 \<and> masked c1 c2 l b"
    unfolding masked_def c mask_line_effect [OF assms(1-3)] using assms(4) by (auto simp: mask_line_effect [OF assms(1-3)] bit_simps)
  have "masked c1 c2 l (pit_stop P (pit_init P d b)) \<longleftrightarrow> l = 0 \<or> masked c1 c2 l (pit_init P d b)"
    unfolding masked_def pit_stop_def using assms(4) by (auto simp: mask_line_effect [OF assms(1) op] bit_simps)
  then show ?thesis using e d i by blast
qed

theorem pit_init_correct_witness:
  "\<not> masked fst snd 0 (pit_init two_chips 1193 (idle_chip 0xFF, idle_chip 0xFF))"
  using pit_init_correct [OF two_chips_ok, of "(idle_chip 0xFF, idle_chip 0xFF)" 0 1193]
  by (simp add: idle_chip_def)

end
