(* ===== verification/Interrupts.thy ===== *)
theory Interrupts
  imports Pic Scheduler
begin

text \<open>
  Interrupt dispatch (\<open>kernel/kernel/isr.cpp\<close>) and the descriptor tables
  (\<open>kernel/arch/x86_64/descriptor_tables.cpp\<close>, \<open>.h\<close>). A handler is the address stored in
  \<open>interrupt_handlers\<close>; what the code at an address does is the argument \<open>call\<close>, which ends either
  with the frame and the machine after the handler's return, or, for a handler that stops the kernel
  (\<open>panic\<close> loops for ever), with \<^const>\<open>Inl\<close> of the machine at that point. Calls of \<open>printf\<close> are kept
  in order as format and arguments. Addresses of linked objects (the interrupt stubs of \<open>interrupt.S\<close> and
  the tables themselves) are arguments.
\<close>

section \<open>Machine state\<close>

datatype Arg = IntArg u64 | StrArg string

record 'b Machine =
  bus :: 'b
  interrupt_handlers :: "u64 list"
  console :: "(string \<times> Arg list) list"

abbreviation nl :: string where "nl \<equiv> [CHR 0x0A]"

definition printf_call :: "string \<Rightarrow> Arg list \<Rightarrow> 'b Machine \<Rightarrow> 'b Machine" where
  "printf_call fmt args m = m\<lparr>console := console m @ [(fmt, args)]\<rparr>"

definition panic :: "string \<Rightarrow> 'b Machine \<Rightarrow> 'b Machine + 'r" where
  "panic str m = Inl (printf_call (''Panic: %s'' @ nl) [StrArg str] m)"

type_synonym 'b code = "u64 \<Rightarrow> ISRFrame \<Rightarrow> 'b Machine \<Rightarrow> 'b Machine + ISRFrame \<times> 'b Machine"

section \<open>Dispatch (\<open>isr.cpp\<close>)\<close>

text \<open>The delay loop of an unhandled interrupt; \<open>n\<close> is its bound.\<close>

definition stall :: "nat \<Rightarrow> 'b Machine \<Rightarrow> nat \<times> 'b Machine" where
  "stall n m = fold (\<lambda>i (sum, m).
      (sum OR i, if i mod 10000000 = 0 then printf_call ''.'' [] m else m)) [0..<n] (0, m)"

definition isr_handler :: "'b Ports \<Rightarrow> 'b code \<Rightarrow> ISRFrame \<Rightarrow> 'b Machine \<Rightarrow> 'b Machine + ISRFrame \<times> 'b Machine" where
  "isr_handler P call frame m =
    (let isrNum = isrNumber frame;
         r = (if isrNum < 256 \<and> interrupt_handlers m ! unat isrNum \<noteq> 0
              then call (interrupt_handlers m ! unat isrNum) frame m
              else let m = printf_call (''Unhandled interrupt: %x'' @ nl) [IntArg isrNum] m;
                       (sum, m) = stall 100000000 m
                   in Inr (frame, printf_call (''did some summing: %d'' @ nl) [IntArg (of_nat sum)] m))
     in case r of Inl m \<Rightarrow> Inl m
        | Inr (frame, m) \<Rightarrow>
            Inr (frame, if isrNum \<ge> ucast PIC1Offset \<and> isrNum < ucast PIC2End
                        then m\<lparr>bus := signalEOI P isrNum (bus m)\<rparr> else m))"

definition registerInterruptHandler :: "u8 \<Rightarrow> u64 \<Rightarrow> 'b Machine \<Rightarrow> 'b Machine" where
  "registerInterruptHandler n handler m =
     m\<lparr>interrupt_handlers := (interrupt_handlers m)[unat n := handler]\<rparr>"

definition pageFaultHanlder :: "u64 \<Rightarrow> ISRFrame \<Rightarrow> 'b Machine \<Rightarrow> 'b Machine + ISRFrame \<times> 'b Machine" where
  "pageFaultHanlder cr2 frame m =
    (let present = (errorCode frame AND 0x1 = 0);
         rw = (errorCode frame AND 0x2 \<noteq> 0);
         us = (errorCode frame AND 0x4 \<noteq> 0);
         reserved = (errorCode frame AND 0x8 \<noteq> 0);
         m = printf_call ''Page fault! ( '' [] m;
         m = (if present then printf_call ''present '' [] m else m);
         m = (if rw then printf_call ''read-only '' [] m else m);
         m = (if us then printf_call ''user-mode '' [] m else m);
         m = (if reserved then printf_call ''reserved '' [] m else m);
         m = printf_call ('') at addr:%x'' @ nl) [IntArg cr2] m
     in panic ''---------------CAN'T PROCEED AFTER PAGE FAULT---------------'' m)"

text \<open>\<open>Keyboard::install\<close> (\<open>keyboard.cpp\<close>); \<open>handler\<close> is the address of \<open>Keyboard::isrHandler\<close>.\<close>

definition keyboard_install :: "'b Ports \<Rightarrow> u64 \<Rightarrow> 'b Machine \<Rightarrow> 'b Machine" where
  "keyboard_install P handler m =
     registerInterruptHandler (PIC1Offset + 1) handler (m\<lparr>bus := clearMask P 1 (bus m)\<rparr>)"

section \<open>Descriptor tables (\<open>descriptor_tables.cpp\<close>)\<close>

record GDTEntry =
  limitLow :: u16
  baseLow :: u16
  baseMiddle :: u8
  access :: u8
  granularity :: u8
  baseHigh :: u8

record TablePtr =
  limit :: u16
  base :: u64

record IDTEntry =
  isrLow :: u16
  kernelCS :: u16
  ist :: u8
  attributes :: u8
  isrMid :: u16
  isrHigh :: u32
  reserved :: u32

text \<open>\<open>gdtr\<close>, \<open>idtr\<close> and \<open>iflag\<close> are the processor registers that \<open>gdt_flush\<close>, \<open>idt_reload\<close> and \<open>sti\<close>
  set.\<close>

record Tables =
  gdtEntries :: "GDTEntry list"
  gdtPtr :: TablePtr
  idtEntries :: "IDTEntry list"
  idtPtr :: TablePtr
  gdtr :: TablePtr
  idtr :: TablePtr
  iflag :: bool

definition gdt_entry :: "u16 \<Rightarrow> u16 \<Rightarrow> u8 \<Rightarrow> u8 \<Rightarrow> u8 \<Rightarrow> u8 \<Rightarrow> GDTEntry" where
  "gdt_entry l b bm a g bh =
     \<lparr>limitLow = l, baseLow = b, baseMiddle = bm, access = a, granularity = g, baseHigh = bh\<rparr>"

definition init_gdt :: "u64 \<Rightarrow> Tables \<Rightarrow> Tables" where
  "init_gdt gdtAddr t =
    (let es = (gdtEntries t)[
           0 := gdt_entry 0 0 0 0 0 0,
           1 := gdt_entry 0xffff 0 0 0x9a 0x80 0,
           2 := gdt_entry 0xffff 0 0 0x92 0x80 0,
           3 := gdt_entry 0xffff 0 0 0x9a 0xcf 0,
           4 := gdt_entry 0xffff 0 0 0x92 0xcf 0,
           5 := gdt_entry 0 0 0 0x9a 0xa2 0,
           6 := gdt_entry 0 0 0 0x92 0xa0 0,
           7 := gdt_entry 0 0 0 0xF2 0 0,
           8 := gdt_entry 0 0 0 0xFA 0x20 0];
         p = \<lparr>limit = 8 * 9 - 1, base = gdtAddr\<rparr>
     in t\<lparr>gdtEntries := es, gdtPtr := p, gdtr := p\<rparr>)"

definition new_gate :: "u64 \<Rightarrow> u8 \<Rightarrow> IDTEntry" where
  "new_gate isr flags =
     \<lparr>isrLow = ucast (isr AND 0xFFFF), kernelCS = 0x28, ist = 0, attributes = flags,
      isrMid = ucast (drop_bit 16 isr AND 0xFFFF), isrHigh = ucast (drop_bit 32 isr AND 0xFFFFFFFF),
      reserved = 0\<rparr>"

definition idt_set_descriptor :: "nat \<Rightarrow> u64 \<Rightarrow> u8 \<Rightarrow> Tables \<Rightarrow> Tables" where
  "idt_set_descriptor vector isr flags t =
     t\<lparr>idtEntries := (idtEntries t)[vector := new_gate isr flags]\<rparr>"

definition init_idt :: "'b Ports \<Rightarrow> u64 list \<Rightarrow> u64 \<Rightarrow> 'b \<times> Tables \<Rightarrow> 'b \<times> Tables" where
  "init_idt P isr_stub_table idtAddr s =
    (let (b, t) = s;
         t = t\<lparr>idtPtr := \<lparr>limit = 16 * 256 - 1, base = idtAddr\<rparr>\<rparr>;
         t = fold (\<lambda>vector. idt_set_descriptor vector (isr_stub_table ! vector) 0x8E) [0..<32] t;
         b = pic_remap P b;
         t = fold (\<lambda>vector. idt_set_descriptor vector (isr_stub_table ! vector) 0x8E) [0x20..<0x30] t
     in (b, t\<lparr>idtr := idtPtr t\<rparr>))"

definition init_descriptor_tables :: "'b Ports \<Rightarrow> u64 list \<Rightarrow> u64 \<Rightarrow> u64 \<Rightarrow> 'b \<times> Tables \<Rightarrow> 'b \<times> Tables" where
  "init_descriptor_tables P isr_stub_table gdtAddr idtAddr s =
    (let (b, t) = s; (b, t) = init_idt P isr_stub_table idtAddr (b, init_gdt gdtAddr t)
     in (b, t\<lparr>iflag := True\<rparr>))"

section \<open>The delay loop\<close>

lemma stall_app:
  "stall (Suc n) m = (let (s, m') = stall n m in (s OR n, if n mod 10000000 = 0 then printf_call ''.'' [] m' else m'))"
  by (simp add: stall_def split_beta)

lemma stall_sum_bit: "bit (fst (stall n m)) j \<longleftrightarrow> (\<exists>i<n. bit i j)"
proof (induction n)
  case (Suc n)
  then show ?case by (auto simp: stall_app split_beta bit_or_iff less_Suc_eq)
qed (simp add: stall_def)

lemma stall_sum:
  assumes "2 ^ k < n" "n \<le> 2 ^ Suc k"
  shows "fst (stall n m) = 2 ^ Suc k - 1"
proof -
  have "bit (fst (stall n m)) j \<longleftrightarrow> j < Suc k" for j
  proof
    assume "bit (fst (stall n m)) j"
    then obtain i where i: "i < n" "bit i j" by (auto simp: stall_sum_bit)
    then have "2 ^ j \<le> i" by (metis bit_iff_odd div_less even_zero not_less)
    then have "(2 :: nat) ^ j < 2 ^ Suc k" using i(1) assms(2) by linarith
    then show "j < Suc k" using power_less_imp_less_exp [of "2 :: nat" j "Suc k"] by simp
  next
    assume "j < Suc k"
    then have "(2 :: nat) ^ j \<le> 2 ^ k" by simp
    then have "(2 :: nat) ^ j < n" using assms(1) by (rule le_less_trans)
    then show "bit (fst (stall n m)) j"
      by (auto simp: stall_sum_bit bit_exp_iff intro!: exI [of _ "2 ^ j"])
  qed
  then have "fst (stall n m) = mask (Suc k)" by (intro bit_eqI) (simp add: bit_mask_iff)
  then show ?thesis by (simp only: mask_eq_exp_minus_1)
qed

lemma stall_machine:
  "snd (stall (Suc n) m) = m\<lparr>console := console m @ replicate (Suc (n div 10000000)) (''.'', [])\<rparr>"
proof (induction n)
  case 0
  then show ?case by (simp add: stall_def printf_call_def)
next
  case (Suc n)
  show ?case
    unfolding stall_app [of "Suc n"] split_beta Let_def snd_conv Suc div_Suc [of n]
    by (simp add: printf_call_def replicate_append_same)
qed

lemma stall_result:
  "stall 100000000 m = (134217727, m\<lparr>console := console m @ replicate 10 (''.'', [])\<rparr>)"
proof (rule prod_eqI)
  show "fst (stall 100000000 m) = fst (134217727, m\<lparr>console := console m @ replicate 10 (''.'', [])\<rparr>)"
    using stall_sum [of 26 100000000 m] by simp
  show "snd (stall 100000000 m) = snd (134217727, m\<lparr>console := console m @ replicate 10 (''.'', [])\<rparr>)"
    using stall_machine [of 99999999 m] by simp
qed

section \<open>Dispatch contracts\<close>

definition eoi_due :: "u64 \<Rightarrow> nat" where "eoi_due n = (if 32 \<le> n \<and> n < 48 then 1 else 0)"
definition slave_eoi_due :: "u64 \<Rightarrow> nat" where "slave_eoi_due n = (if 40 \<le> n \<and> n < 48 then 1 else 0)"

lemma eoi_tail:
  assumes "pic_chips P c1 c2"
  shows "eois (c1 (bus (if ucast (0x20 :: u8) \<le> n \<and> n < ucast (0x30 :: u8) then m\<lparr>bus := signalEOI P n (bus m)\<rparr> else m)))
      = eois (c1 (bus m)) + eoi_due n"
    "eois (c2 (bus (if ucast (0x20 :: u8) \<le> n \<and> n < ucast (0x30 :: u8) then m\<lparr>bus := signalEOI P n (bus m)\<rparr> else m)))
      = eois (c2 (bus m)) + slave_eoi_due n"
  using order_trans [of 32 40 n] by (auto simp: eoi_effect [OF assms] eoi_due_def slave_eoi_due_def)

text \<open>C36: interrupt dispatch: for a vector below 256 with a registered handler, \<open>isr_handler\<close> runs exactly
  that handler, on the frame and machine of the interrupt; when the handler returns, the master controller
  has got one end-of-interrupt more exactly for the vectors 32 to 47 and the slave exactly for 40 to 47, with
  everything else as the handler left it; when the handler does not return, nothing follows.\<close>

theorem isr_dispatch:
  assumes "pic_chips P c1 c2" "isrNumber f < 256" "interrupt_handlers m ! unat (isrNumber f) = h" "h \<noteq> 0"
  shows "(\<forall>m'. call h f m = Inl m' \<longrightarrow> isr_handler P call f m = Inl m') \<and>
    (\<forall>f' m'. call h f m = Inr (f', m') \<longrightarrow>
      (\<exists>m''. isr_handler P call f m = Inr (f', m'') \<and> m''\<lparr>bus := bus m'\<rparr> = m' \<and>
        eois (c1 (bus m'')) = eois (c1 (bus m')) + eoi_due (isrNumber f) \<and>
        eois (c2 (bus m'')) = eois (c2 (bus m')) + slave_eoi_due (isrNumber f)))"
proof (intro conjI allI impI)
  have e: "isr_handler P call f m = (case call h f m of Inl m \<Rightarrow> Inl m
      | Inr (g, m) \<Rightarrow> Inr (g, if ucast (0x20 :: u8) \<le> isrNumber f \<and> isrNumber f < ucast (0x30 :: u8)
          then m\<lparr>bus := signalEOI P (isrNumber f) (bus m)\<rparr> else m))"
    unfolding isr_handler_def Let_def using assms(2-4) by simp
  show "isr_handler P call f m = Inl m'" if "call h f m = Inl m'" for m' using that by (simp add: e)
  fix f' m'
  assume c: "call h f m = Inr (f', m')"
  show "\<exists>m''. isr_handler P call f m = Inr (f', m'') \<and> m''\<lparr>bus := bus m'\<rparr> = m' \<and>
        eois (c1 (bus m'')) = eois (c1 (bus m')) + eoi_due (isrNumber f) \<and>
        eois (c2 (bus m'')) = eois (c2 (bus m')) + slave_eoi_due (isrNumber f)"
    unfolding e c using eoi_tail [OF assms(1), of "isrNumber f" m'] by auto
qed

definition demo_machine :: "(Chip \<times> Chip) Machine" where
  "demo_machine = \<lparr>bus = (idle_chip 0, idle_chip 0), interrupt_handlers = replicate 256 0, console = []\<rparr>"

theorem isr_dispatch_witness:
  "\<exists>m''. isr_handler two_chips (\<lambda>h f m. Inr (f, printf_call ''tick'' [] m)) (demo_frame\<lparr>isrNumber := 33\<rparr>)
      (registerInterruptHandler 33 0x1000 demo_machine) = Inr (demo_frame\<lparr>isrNumber := 33\<rparr>, m'') \<and>
    eois (fst (bus m'')) = 1 \<and> eois (snd (bus m'')) = 0 \<and> console m'' = [(''tick'', [])]"
proof -
  have h: "interrupt_handlers (registerInterruptHandler 33 0x1000 demo_machine) ! unat (isrNumber (demo_frame\<lparr>isrNumber := 33\<rparr>)) = 0x1000"
    by (simp add: registerInterruptHandler_def demo_machine_def)
  have "\<exists>m''. isr_handler two_chips (\<lambda>h f m. Inr (f, printf_call ''tick'' [] m)) (demo_frame\<lparr>isrNumber := 33\<rparr>)
      (registerInterruptHandler 33 0x1000 demo_machine) = Inr (demo_frame\<lparr>isrNumber := 33\<rparr>, m'') \<and>
      m''\<lparr>bus := bus demo_machine\<rparr> = printf_call ''tick'' [] (registerInterruptHandler 33 0x1000 demo_machine) \<and>
      eois (fst (bus m'')) = 1 \<and> eois (snd (bus m'')) = 0"
    using isr_dispatch [OF two_chips_ok _ h, of "\<lambda>h f m. Inr (f, printf_call ''tick'' [] m)"]
    by (simp add: printf_call_def registerInterruptHandler_def demo_machine_def eoi_due_def slave_eoi_due_def idle_chip_def)
  moreover have "console m'' = [(''tick'', [])]"
    if "m''\<lparr>bus := bus demo_machine\<rparr> = printf_call ''tick'' [] (registerInterruptHandler 33 0x1000 demo_machine)" for m''
    using arg_cong [OF that, of console] by (simp add: printf_call_def registerInterruptHandler_def demo_machine_def)
  ultimately show ?thesis by blast
qed

text \<open>An interrupt without a handler (or with a vector past the table) does not stop the kernel:
  \<open>isr_handler\<close> returns with the frame unchanged after printing the vector, ten dots and the sum 134217727,
  leaves the handler table alone, and signals the end of the interrupt as for a handled one.\<close>

theorem isr_unhandled:
  assumes "pic_chips P c1 c2" "isrNumber f \<ge> 256 \<or> interrupt_handlers m ! unat (isrNumber f) = 0"
  shows "\<exists>m'. isr_handler P call f m = Inr (f, m') \<and> interrupt_handlers m' = interrupt_handlers m \<and>
    console m' = console m @ [((''Unhandled interrupt: %x'' @ nl), [IntArg (isrNumber f)])] @
      replicate 10 (''.'', []) @ [((''did some summing: %d'' @ nl), [IntArg 134217727])] \<and>
    eois (c1 (bus m')) = eois (c1 (bus m)) + eoi_due (isrNumber f) \<and>
    eois (c2 (bus m')) = eois (c2 (bus m)) + slave_eoi_due (isrNumber f)"
proof -
  define m1 where "m1 = m\<lparr>console := console m @ [((''Unhandled interrupt: %x'' @ nl), [IntArg (isrNumber f)])] @
      replicate 10 (''.'', []) @ [((''did some summing: %d'' @ nl), [IntArg 134217727])]\<rparr>"
  have c: "\<not> (isrNumber f < 256 \<and> interrupt_handlers m ! unat (isrNumber f) \<noteq> 0)" using assms(2) by auto
  have e: "isr_handler P call f m = Inr (f, if ucast (0x20 :: u8) \<le> isrNumber f \<and> isrNumber f < ucast (0x30 :: u8)
      then m1\<lparr>bus := signalEOI P (isrNumber f) (bus m1)\<rparr> else m1)"
    unfolding isr_handler_def Let_def if_not_P [OF c] stall_result by (simp add: printf_call_def m1_def)
  show ?thesis
    unfolding e using eoi_tail [OF assms(1), of "isrNumber f" m1] by (auto simp: m1_def)
qed

theorem isr_unhandled_witness:
  "\<exists>m'. isr_handler two_chips (\<lambda>h f m. Inl m) (demo_frame\<lparr>isrNumber := 44\<rparr>) demo_machine = Inr (demo_frame\<lparr>isrNumber := 44\<rparr>, m') \<and>
    length (console m') = 12 \<and> eois (snd (bus m')) = 1"
  using isr_unhandled [OF two_chips_ok, of "demo_frame\<lparr>isrNumber := 44\<rparr>" demo_machine "\<lambda>h f m. Inl m"]
  by (auto simp: demo_machine_def slave_eoi_due_def idle_chip_def)

text \<open>The bits of the error code of a page fault with the word that reports each: a page that was not present, a write, user mode, and a reserved bit in
  an entry.\<close>

definition fault_words :: "u64 \<Rightarrow> string list" where
  "fault_words e = map snd (filter fst [(\<not> bit e 0, ''present ''), (bit e 1, ''read-only ''), (bit e 2, ''user-mode ''), (bit e 3, ''reserved '')])"

text \<open>C37: a page fault stops the kernel: once \<open>pageFaultHanlder\<close> is registered for vector 14, dispatching
  such an interrupt never returns; the output is the causes in the order of their bits, the faulting address and the panic message, and no
  end of interrupt is signalled. All four causes are reported by the bits of the error code (\<open>fault_words\<close>); the word \<open>present\<close> is printed
  exactly when bit 0 is clear, that is, when the page was \<^emph>\<open>not\<close> present.\<close>

theorem page_fault_stops:
  assumes "length (interrupt_handlers m) = 256" "handler \<noteq> 0" "isrNumber f = 14"
    "\<And>f m. call handler f m = pageFaultHanlder cr2 f m"
  shows "\<exists>m'. isr_handler P call f (registerInterruptHandler 14 handler m) = Inl m' \<and> bus m' = bus m \<and>
    console m' = console m @ [(''Page fault! ( '', [])] @ map (\<lambda>w. (w, [])) (fault_words (errorCode f)) @ [(('') at addr:%x'' @ nl), [IntArg cr2]),
      ((''Panic: %s'' @ nl), [StrArg ''---------------CAN'T PROCEED AFTER PAGE FAULT---------------''])]"
proof -
  let ?m = "registerInterruptHandler 14 handler m"
  define flags where "flags = map (\<lambda>w. (w, [] :: Arg list)) (fault_words (errorCode f))"
  have b: "errorCode f AND 0x1 = 0 \<longleftrightarrow> \<not> bit (errorCode f) 0" "errorCode f AND 0x2 = 0 \<longleftrightarrow> \<not> bit (errorCode f) 1"
    "errorCode f AND 0x4 = 0 \<longleftrightarrow> \<not> bit (errorCode f) 2" "errorCode f AND 0x8 = 0 \<longleftrightarrow> \<not> bit (errorCode f) 3"
    using test_bit_mask [of 0 "errorCode f"] test_bit_mask [of 1 "errorCode f"] test_bit_mask [of 2 "errorCode f"] test_bit_mask [of 3 "errorCode f"]
    by (simp_all add: push_bit_eq_mult)
  have h: "interrupt_handlers ?m ! 14 = handler"
    using assms(1) by (simp add: registerInterruptHandler_def)
  have not14: "\<not> ucast (0x20 :: u8) \<le> (14 :: u64)" by code_simp
  have "isr_handler P call f ?m = (case pageFaultHanlder cr2 f ?m of Inl m \<Rightarrow> Inl m | Inr (g, m) \<Rightarrow> Inr (g, m))"
    using assms(2,3,4) h not14 by (simp add: isr_handler_def Let_def split: sum.split)
  moreover have "pageFaultHanlder cr2 f ?m = Inl (?m\<lparr>console := console m @ [(''Page fault! ( '', [])] @ flags @
      [(('') at addr:%x'' @ nl), [IntArg cr2]), ((''Panic: %s'' @ nl), [StrArg ''---------------CAN'T PROCEED AFTER PAGE FAULT---------------''])]\<rparr>)"
    by (simp only: pageFaultHanlder_def Let_def b) (simp add: panic_def printf_call_def flags_def fault_words_def registerInterruptHandler_def)
  ultimately show ?thesis by (auto simp: registerInterruptHandler_def flags_def)
qed

theorem page_fault_stops_witness:
  "\<exists>m'. isr_handler two_chips (\<lambda>h. pageFaultHanlder 0xdead000) (demo_frame\<lparr>isrNumber := 14, errorCode := 2\<rparr>)
      (registerInterruptHandler 14 0x1000 demo_machine) = Inl m' \<and> bus m' = (idle_chip 0, idle_chip 0)"
  using page_fault_stops [of demo_machine 4096 "demo_frame\<lparr>isrNumber := 14, errorCode := 2\<rparr>"
      "\<lambda>h. pageFaultHanlder 0xdead000" "0xdead000" two_chips]
  by (auto simp: demo_machine_def)

section \<open>Descriptor tables\<close>

text \<open>The address a gate refers to, as the processor assembles it.\<close>

definition gate_target :: "IDTEntry \<Rightarrow> u64" where
  "gate_target e = ucast (isrLow e) OR push_bit 16 (ucast (isrMid e)) OR push_bit 32 (ucast (isrHigh e))"

lemma gate_target_split:
  "ucast (ucast (a AND 0xFFFF) :: u16) OR push_bit 16 (ucast (ucast (drop_bit 16 a AND 0xFFFF) :: u16)) OR
    push_bit 32 (ucast (ucast (drop_bit 32 a AND 0xFFFFFFFF) :: u32)) = (a :: u64)"
proof -
  have m: "(0xFFFF :: u64) = mask 16" "(0xFFFFFFFF :: u64) = mask 32" by (simp_all add: mask_eq_exp_minus_1)
  show ?thesis
  proof (rule bit_eqI)
    fix n
    assume "possible_bit TYPE(64 word) n"
    then have "n < 64" by simp
    then consider "n < 16" | "16 \<le> n" "n < 32" | "32 \<le> n" "n < 64" by linarith
    then show "bit (ucast (ucast (a AND 0xFFFF) :: u16) OR push_bit 16 (ucast (ucast (drop_bit 16 a AND 0xFFFF) :: u16)) OR
      push_bit 32 (ucast (ucast (drop_bit 32 a AND 0xFFFFFFFF) :: u32)) :: u64) n = bit a n"
      unfolding m by cases (auto simp: bit_simps)
  qed
qed

lemma gate_target_new [simp]: "gate_target (new_gate a fl) = a"
  by (simp add: gate_target_def new_gate_def gate_target_split)

lemma fold_gates:
  "fold (\<lambda>v. idt_set_descriptor v (stubs ! v) fl) vs t =
    t\<lparr>idtEntries := fold (\<lambda>v es. es[v := new_gate (stubs ! v) fl]) vs (idtEntries t)\<rparr>"
  by (induction vs arbitrary: t) (simp_all add: idt_set_descriptor_def)

lemma fold_upd_nth:
  "v < length es \<Longrightarrow> fold (\<lambda>v es. es[v := g v]) vs es ! v = (if v \<in> set vs then g v else es ! v)"
  by (induction vs arbitrary: es) (auto simp: nth_list_update)

lemma length_fold_upd [simp]: "length (fold (\<lambda>v es. es[v := g v]) vs es) = length es"
  by (induction vs arbitrary: es) simp_all

text \<open>C35: after \<open>init_descriptor_tables\<close> every vector below 48 has a present 64-bit interrupt gate of
  privilege 0 whose target is its stub and whose selector 0x28 picks the 64-bit code descriptor of the loaded
  descriptor table; gates from 48 on are as before; both table registers are loaded with the tables' address
  and their size minus one; the controllers deliver lines 0 to 15 at vectors 32 to 47 and keep their masks;
  interrupts are enabled.\<close>

theorem descriptor_tables_correct:
  assumes "pic_chips P c1 c2" "stage (c1 b) = Operating" "stage (c2 b) = Operating"
    "length (gdtEntries t) = 9" "length (idtEntries t) = 256"
    "init_descriptor_tables P stubs gdtAddr idtAddr (b, t) = (b', t')"
  shows "(\<forall>v<48. let g = idtEntries t' ! v in gate_target g = stubs ! v \<and> attributes g = 0x8E \<and> ist g = 0 \<and>
      unat (kernelCS g) = 5 * 8) \<and>
    (\<forall>v. 48 \<le> v \<and> v < 256 \<longrightarrow> idtEntries t' ! v = idtEntries t ! v) \<and>
    bit (access (gdtEntries t' ! 5)) 7 \<and> bit (access (gdtEntries t' ! 5)) 3 \<and>
    bit (granularity (gdtEntries t' ! 5)) 5 \<and> \<not> bit (granularity (gdtEntries t' ! 5)) 6 \<and>
    gdtr t' = \<lparr>limit = 71, base = gdtAddr\<rparr> \<and> idtr t' = \<lparr>limit = 4095, base = idtAddr\<rparr> \<and>
    icw2 (c1 b') = 32 \<and> icw2 (c2 b') = 40 \<and> imr (c1 b') = imr (c1 b) \<and> imr (c2 b') = imr (c2 b) \<and> iflag t'"
proof -
  define es where "es = fold (\<lambda>v es. es[v := new_gate (stubs ! v) 0x8E]) ([0..<32] @ [32..<48]) (idtEntries t)"
  have r: "b' = pic_remap P b" "idtEntries t' = es" "gdtEntries t' = gdtEntries (init_gdt gdtAddr t)"
    "gdtr t' = \<lparr>limit = 71, base = gdtAddr\<rparr>" "idtr t' = \<lparr>limit = 4095, base = idtAddr\<rparr>" "iflag t'"
    using assms(6) by (auto simp: init_descriptor_tables_def init_idt_def Let_def fold_gates init_gdt_def es_def simp del: upt_rec_numeral)
  have vs: "set ([0..<32] @ [32..<48]) = {v. v < 48}" by (auto simp del: upt_rec_numeral)
  have nth: "es ! v = (if v < 48 then new_gate (stubs ! v) 0x8E else idtEntries t ! v)" if "v < 256" for v
    unfolding es_def using fold_upd_nth [of v "idtEntries t" "\<lambda>v. new_gate (stubs ! v) 0x8E" "[0..<32] @ [32..<48]"]
      that assms(5) unfolding vs by simp
  have g: "\<forall>v<48. let g = es ! v in gate_target g = stubs ! v \<and> attributes g = 0x8E \<and> ist g = 0 \<and> unat (kernelCS g) = 5 * 8"
    by (simp add: nth Let_def) (simp add: new_gate_def)
  have "gdtEntries t' ! 5 = gdt_entry 0 0 0 0x9a 0xa2 0"
    using assms(4) unfolding r by (simp add: init_gdt_def Let_def nth_list_update)
  then have "bit (access (gdtEntries t' ! 5)) 7 \<and> bit (access (gdtEntries t' ! 5)) 3 \<and>
    bit (granularity (gdtEntries t' ! 5)) 5 \<and> \<not> bit (granularity (gdtEntries t' ! 5)) 6"
    by (simp add: gdt_entry_def bit_simps)
  then show ?thesis
    using g remap_effect [OF assms(1-3)] unfolding r(1,2,4,5) by (simp add: nth r(6))
qed

definition blank_tables :: Tables where
  "blank_tables = \<lparr>gdtEntries = replicate 9 (gdt_entry 0 0 0 0 0 0), gdtPtr = \<lparr>limit = 0, base = 0\<rparr>,
     idtEntries = replicate 256 (new_gate 0 0), idtPtr = \<lparr>limit = 0, base = 0\<rparr>,
     gdtr = \<lparr>limit = 0, base = 0\<rparr>, idtr = \<lparr>limit = 0, base = 0\<rparr>, iflag = False\<rparr>"

theorem descriptor_tables_correct_witness:
  "gate_target (idtEntries (snd (init_descriptor_tables two_chips (map of_nat [0..<48]) 0x100 0x200
     ((idle_chip 0xB8, idle_chip 0x8E), blank_tables))) ! 33) = 33"
proof -
  obtain b' t' where r: "init_descriptor_tables two_chips (map of_nat [0..<48]) 0x100 0x200
     ((idle_chip 0xB8, idle_chip 0x8E), blank_tables) = (b', t')" by (metis surj_pair)
  show ?thesis
    using descriptor_tables_correct [OF two_chips_ok _ _ _ _ r] unfolding r
    by (simp add: idle_chip_def blank_tables_def Let_def)
qed

end
