(* ===== verification/Byte_Memory.thy ===== *)
theory Byte_Memory
  imports Dimos_Prelude
begin

text \<open>
  The byte-addressed memory the kernel heap lives in, with the little-endian 64-bit accesses
  the compiler emits for \<open>uint64_t\<close> and pointer fields of packed structs, at any alignment.
  Addresses wrap at \<open>2\<^sup>6\<^sup>4\<close>.
\<close>

type_synonym mem = "u64 \<Rightarrow> u8"

definition read64 :: "mem \<Rightarrow> u64 \<Rightarrow> u64" where
  "read64 m a = fold (\<lambda>i w. w OR push_bit (8 * i) (ucast (m (a + of_nat i)))) [0..<8] 0"

definition write64 :: "u64 \<Rightarrow> u64 \<Rightarrow> mem \<Rightarrow> mem" where
  "write64 a v m = fold (\<lambda>i m'. m'(a + of_nat i := ucast (drop_bit (8 * i) v))) [0..<8] m"

section \<open>Reading bits and writing bytes\<close>

lemma bit_fold_bytes:
  fixes m :: mem and a :: u64
  shows "bit (fold (\<lambda>i w. w OR push_bit (8 * i) (ucast (m (a + of_nat i)))) [0..<n] 0 :: u64) k \<longleftrightarrow>
    k < 64 \<and> (\<exists>i<n. 8 * i \<le> k \<and> bit (m (a + of_nat i)) (k - 8 * i))"
  by (induction n) (auto simp: bit_simps less_Suc_eq dest: bit_imp_le_length)

lemma bit_read64: "bit (read64 m a) k \<longleftrightarrow> k < 64 \<and> bit (m (a + of_nat (k div 8))) (k mod 8)"
proof -
  have "(\<exists>i<8. 8 * i \<le> k \<and> bit (m (a + of_nat i)) (k - 8 * i)) \<longleftrightarrow> bit (m (a + of_nat (k div 8))) (k mod 8)"
    if "k < 64"
  proof
    assume "\<exists>i<8. 8 * i \<le> k \<and> bit (m (a + of_nat i)) (k - 8 * i)"
    then obtain i where i: "8 * i \<le> k" "bit (m (a + of_nat i)) (k - 8 * i)" by blast
    then have "k - 8 * i < 8" using bit_imp_le_length by fastforce
    then have "i = k div 8" using i(1) by linarith
    then show "bit (m (a + of_nat (k div 8))) (k mod 8)" using i(2) by (simp add: minus_mult_div_eq_mod)
  next
    assume "bit (m (a + of_nat (k div 8))) (k mod 8)"
    then show "\<exists>i<8. 8 * i \<le> k \<and> bit (m (a + of_nat i)) (k - 8 * i)"
      using that by (intro exI [of _ "k div 8"]) (auto simp: minus_mult_div_eq_mod)
  qed
  then show ?thesis by (auto simp: read64_def bit_fold_bytes)
qed

lemma write_bytes_apply:
  fixes a x :: u64
  assumes "n \<le> 8"
  shows "fold (\<lambda>i m'. m'(a + of_nat i := f i)) [0..<n] m x = (if unat (x - a) < n then f (unat (x - a)) else m x)"
  using assms
proof (induction n)
  case (Suc n)
  have "x = a + of_nat n \<longleftrightarrow> unat (x - a) = n"
  proof
    assume "x = a + of_nat n"
    then show "unat (x - a) = n" using Suc.prems by (simp add: unat_of_nat)
  next
    assume "unat (x - a) = n"
    then have "of_nat n = x - a" by auto
    then show "x = a + of_nat n" by simp
  qed
  then show ?case using Suc by auto
qed simp

lemma write64_apply:
  "write64 a v m x = (if unat (x - a) < 8 then ucast (drop_bit (8 * unat (x - a)) v) else m x)"
  by (simp add: write64_def write_bytes_apply)

lemma read64_write64_same [simp]: "read64 (write64 a v m) a = v"
proof (rule bit_eqI)
  fix k
  show "bit (read64 (write64 a v m) a) k \<longleftrightarrow> bit v k"
  proof (cases "k < 64")
    case True
    then have "unat (of_nat (k div 8) :: u64) = k div 8" "k div 8 < 8" by (simp_all add: unat_of_nat)
    then show ?thesis using True by (simp add: bit_read64 write64_apply bit_simps)
  next
    case False
    then show ?thesis using bit_imp_le_length [of v k] by (auto simp: bit_read64)
  qed
qed

lemma read64_cong:
  assumes "\<And>i. i < 8 \<Longrightarrow> m (a + of_nat i) = m' (a + of_nat i)"
  shows "read64 m a = read64 m' a"
proof (rule bit_eqI)
  fix k
  show "bit (read64 m a) k \<longleftrightarrow> bit (read64 m' a) k"
    using assms [of "k div 8"] by (auto simp: bit_read64)
qed

section \<open>Separation\<close>

text \<open>
  \<open>span a n\<close> is the set of the \<open>n\<close> byte addresses from \<open>a\<close> on, as numbers; a write is confined
  to a span and a read depends on one.
\<close>

definition fits :: "u64 \<Rightarrow> nat \<Rightarrow> bool" where
  "fits a n \<longleftrightarrow> unat a + n \<le> 2 ^ 64"

lemma unat_plus_small: "fits a n \<Longrightarrow> i < n \<Longrightarrow> unat (a + of_nat i) = unat a + i"
  by (subst unat_add_lem [THEN iffD1]) (simp_all add: fits_def unat_of_nat)

lemma unat_plus: "unat (a :: u64) + i < 2 ^ 64 \<Longrightarrow> unat (a + of_nat i) = unat a + i"
  using unat_plus_small [of a "Suc i" i] by (simp add: fits_def)

lemma write64_outside:
  assumes "fits a 8" "unat x < unat a \<or> unat a + 8 \<le> unat x"
  shows "write64 a v m x = m x"
proof -
  have "\<not> unat (x - a) < 8"
  proof
    assume l: "unat (x - a) < 8"
    have "unat x = unat (a + of_nat (unat (x - a)))" by simp
    also have "\<dots> = unat a + unat (x - a)" using unat_plus_small [OF assms(1) l] .
    finally show False using assms(2) l by linarith
  qed
  then show ?thesis by (simp add: write64_apply)
qed

lemma read64_write64_apart:
  assumes "fits a 8" "fits b 8" "unat a + 8 \<le> unat b \<or> unat b + 8 \<le> unat a"
  shows "read64 (write64 a v m) b = read64 m b"
proof (rule read64_cong)
  fix i :: nat
  assume "i < 8"
  then have "unat (b + of_nat i) = unat b + i" using unat_plus_small [OF assms(2)] by simp
  then show "write64 a v m (b + of_nat i) = m (b + of_nat i)"
    using \<open>i < 8\<close> assms by (intro write64_outside) auto
qed

end
