(* ===== verification/Libc.thy ===== *)
theory Libc
  imports Interrupts Byte_Memory "HOL-Library.Monad_Syntax"
begin

text \<open>
  The C library of the kernel (\<open>libc/stdio\<close>, \<open>libc/string\<close>): the memory functions on byte memory, and
  \<open>printf\<close> with its conversions, which appends to the bytes sent to the terminal. A C string is the list of
  its characters before the terminator. \<^const>\<open>None\<close> is undefined behaviour (a missing argument, negation of
  the least integer, reading for ever).
\<close>

section \<open>Memory functions\<close>

definition memcpy :: "u64 \<Rightarrow> u64 \<Rightarrow> u64 \<Rightarrow> mem \<Rightarrow> mem" where
  "memcpy dst src n m = fold (\<lambda>i m. m(dst + of_nat i := m (src + of_nat i))) [0..<unat n] m"

definition memset :: "u64 \<Rightarrow> u32 \<Rightarrow> u64 \<Rightarrow> mem \<Rightarrow> mem" where
  "memset buf val n m = fold (\<lambda>i m. m(buf + of_nat i := ucast val)) [0..<unat n] m"

definition memmove :: "u64 \<Rightarrow> u64 \<Rightarrow> u64 \<Rightarrow> mem \<Rightarrow> mem" where
  "memmove dst src n m = (if dst < src
     then fold (\<lambda>i m. m(dst + of_nat i := m (src + of_nat i))) [0..<unat n] m
     else fold (\<lambda>i m. m(dst + of_nat i := m (src + of_nat i))) (rev [0..<unat n]) m)"

fun memcmp_loop :: "u64 \<Rightarrow> u64 \<Rightarrow> nat list \<Rightarrow> mem \<Rightarrow> int" where
  "memcmp_loop a b [] m = 0"
| "memcmp_loop a b (i # is) m =
    (if m (a + of_nat i) < m (b + of_nat i) then - 1
     else if m (b + of_nat i) < m (a + of_nat i) then 1 else memcmp_loop a b is m)"

definition memcmp :: "u64 \<Rightarrow> u64 \<Rightarrow> u64 \<Rightarrow> mem \<Rightarrow> int" where
  "memcmp a b n m = memcmp_loop a b [0..<unat n] m"

partial_function (option) strlen_loop :: "u64 \<Rightarrow> u64 \<Rightarrow> mem \<Rightarrow> u64 option" where
  [code]: "strlen_loop s len m = (if m (s + len) \<noteq> 0 then strlen_loop s (len + 1) m else Some len)"

definition strlen :: "u64 \<Rightarrow> mem \<Rightarrow> u64 option" where
  "strlen s m = strlen_loop s 0 m"

definition strcpy :: "u64 \<Rightarrow> u64 \<Rightarrow> mem \<Rightarrow> mem option" where
  "strcpy dest src m = do { n \<leftarrow> strlen src m; Some (memcpy dest src n m) }"

section \<open>Output of characters and numerals\<close>

definition EOF :: int where "EOF = - 1"
definition INT_MAX :: int where "INT_MAX = 2 ^ 31 - 1"

definition putchar :: "int \<Rightarrow> string \<Rightarrow> int \<times> string" where
  "putchar ic out = (ic, out @ [char_of (nat (ic mod 256))])"

fun print :: "string \<Rightarrow> string \<Rightarrow> bool \<times> string" where
  "print [] out = (True, out)"
| "print (b # bs) out = (let (r, out) = putchar (of_char b) out in if r = EOF then (False, out) else print bs out)"

text \<open>The digit loop that all number conversions have: \<open>dig\<close> is the character of a digit, and the buffer
  is filled from \<open>pos\<close> downwards.\<close>

function digitLoop :: "(int \<Rightarrow> char) \<Rightarrow> int \<Rightarrow> int \<Rightarrow> int \<Rightarrow> string \<Rightarrow> int \<times> string" where
  "digitLoop dig b val pos str =
    (if 0 \<le> pos
     then let str = str[nat pos := dig (val mod b)]; val = val div b
          in if val = 0 then (pos, str) else digitLoop dig b val (pos - 1) str
     else (pos, str))"
  by pat_completeness auto
termination by (relation "measure (\<lambda>(dig, b, val, pos, str). nat (pos + 1))") auto

declare digitLoop.simps [simp del]

definition decDigit :: "int \<Rightarrow> char" where
  "decDigit x = char_of (48 + nat x)"

definition hexDigit :: "int \<Rightarrow> char" where
  "hexDigit x = (if x \<le> 9 then char_of (48 + nat x) else char_of (97 + nat (x - 10)))"

text \<open>The string at \<open>str + pos\<close>. The bytes of a fresh buffer are arbitrary; the code reads only those it wrote.\<close>

definition cstr :: "int \<Rightarrow> string \<Rightarrow> string" where
  "cstr pos str = takeWhile (\<lambda>c. c \<noteq> CHR 0x00) (drop (nat pos) str)"

text \<open>\<open>print_decimal\<close> (\<open>w\<close> = 32, a buffer of 13) and \<open>print_decimal_64\<close> (\<open>w\<close> = 64, a buffer of 22) up to the call of
  \<open>printf\<close>; negating the least integer overflows.\<close>

definition signedText :: "nat \<Rightarrow> nat \<Rightarrow> int \<Rightarrow> string option" where
  "signedText w len val =
    (let str = (replicate len (CHR 0x00))[len - 1 := CHR 0x00]; negative = val < 0
     in if val = - (2 ^ (w - 1)) then None
        else let val = (if negative then val * - 1 else val);
                 (pos, str) = digitLoop decDigit 10 val (int len - 2) str
             in if negative then Some (cstr (pos - 1) (str[nat (pos - 1) := CHR ''-'']))
                else Some (cstr pos str))"

definition unsignedText :: "u64 \<Rightarrow> string" where
  "unsignedText val = (let (pos, str) = digitLoop decDigit 10 (uint val) 20 (replicate 22 (CHR 0x00)) in cstr pos str)"

definition hexText :: "u64 \<Rightarrow> string" where
  "hexText val = (let (pos, str) = digitLoop hexDigit 16 (uint val) 20 (replicate 22 (CHR 0x00));
       str = str[nat (pos - 1) := CHR ''x'']; str = str[nat (pos - 2) := CHR ''0'']
     in cstr (pos - 2) str)"

section \<open>\<open>printf\<close>\<close>

text \<open>What a conversion character does with the arguments: text printed directly and counted by its length,
  a numeral printed by a nested call of \<open>printf\<close> and counted as one, or an unknown conversion.\<close>

datatype conv = Text string "Arg list" | Number "string option" "Arg list" | Unknown

fun conversion :: "char \<Rightarrow> Arg list \<Rightarrow> conv option" where
  "conversion k args =
    (if k = CHR ''c'' then (case args of IntArg d # r \<Rightarrow> Some (Text [char_of (unat d mod 256)] r) | _ \<Rightarrow> None)
     else if k = CHR ''s'' then (case args of StrArg s # r \<Rightarrow> Some (Text s r) | _ \<Rightarrow> None)
     else if k = CHR ''d'' then (case args of IntArg d # r \<Rightarrow> Some (Number (signedText 32 13 (sint (ucast d :: u32))) r) | _ \<Rightarrow> None)
     else if k = CHR ''l'' then (case args of IntArg d # r \<Rightarrow> Some (Number (signedText 64 22 (sint d)) r) | _ \<Rightarrow> None)
     else if k = CHR ''u'' then (case args of IntArg d # r \<Rightarrow> Some (Number (Some (unsignedText d)) r) | _ \<Rightarrow> None)
     else if k = CHR ''x'' then (case args of IntArg d # r \<Rightarrow> Some (Number (Some (hexText d)) r) | _ \<Rightarrow> None)
     else Some Unknown)"

definition nextText :: "string \<Rightarrow> string" where
  "nextText fmt = hd fmt # takeWhile (\<lambda>c. c \<noteq> CHR ''%'') (tl fmt)"

definition emit :: "string \<Rightarrow> int \<Rightarrow> string \<Rightarrow> string option \<times> string" where
  "emit text maxrem out = (if maxrem < int (length text) then (None, out)
     else let (ok, out) = print text out in if ok then (Some text, out) else (None, out))"

partial_function (option) printf_loop :: "string \<Rightarrow> Arg list \<Rightarrow> int \<Rightarrow> string \<Rightarrow> (int \<times> string) option" where
  [code]: "printf_loop fmt args written out =
    (if fmt = [] then Some (written, out)
     else let maxrem = INT_MAX - written in
       if hd fmt \<noteq> CHR ''%'' \<or> take 1 (tl fmt) = ''%'' then
         let fmt = (if hd fmt = CHR ''%'' then tl fmt else fmt); text = nextText fmt in
         (case emit text maxrem out of
            (None, out) \<Rightarrow> Some (- 1, out)
          | (Some _, out) \<Rightarrow> printf_loop (drop (length text) fmt) args (written + int (length text)) out)
       else do {
         c \<leftarrow> (if tl fmt = [] then Some Unknown else conversion (hd (tl fmt)) args);
         (case c of
            Text s args \<Rightarrow>
              (case emit s maxrem out of
                 (None, out) \<Rightarrow> Some (- 1, out)
               | (Some _, out) \<Rightarrow> printf_loop (drop 2 fmt) args (written + int (length s)) out)
          | Number num args \<Rightarrow>
              if maxrem = 0 then Some (- 1, out)
              else do {
                s \<leftarrow> num;
                (res, out) \<leftarrow> printf_loop s [] 0 out;
                if res = - 1 then Some (- 1, out) else printf_loop (drop 2 fmt) args (written + 1) out }
          | Unknown \<Rightarrow>
              (case emit fmt maxrem out of
                 (None, out) \<Rightarrow> Some (- 1, out)
               | (Some _, out) \<Rightarrow> printf_loop [] args (written + int (length fmt)) out)) })"

definition printf :: "string \<Rightarrow> Arg list \<Rightarrow> string \<Rightarrow> (int \<times> string) option" where
  "printf fmt args out = printf_loop fmt args 0 out"

definition puts :: "string \<Rightarrow> string \<Rightarrow> (int \<times> string) option" where
  "puts s out = printf (''%s'' @ nl) [StrArg s] out"

section \<open>Memory lemmas\<close>

lemma addr_eq_iff:
  assumes "fits a n" "fits b k" "i < n" "j < k"
  shows "a + of_nat i = b + of_nat j \<longleftrightarrow> unat a + i = unat b + j"
  using unat_plus_small [OF assms(1,3)] unat_plus_small [OF assms(2,4)] by (auto simp: word_unat_eq_iff)

text \<open>Copying in any order in which no byte is overwritten before it has been read.\<close>

lemma copy_in_order:
  assumes fits: "fits dst n" "fits src n"
    and order: "\<And>ps i qs j. js = ps @ i # qs \<Longrightarrow> j \<in> set ps \<Longrightarrow> unat dst + j \<noteq> unat src + i"
    and dis: "distinct js" "set js \<subseteq> {..<n}"
  shows "fold (\<lambda>i m. m(dst + of_nat i := m (src + of_nat i))) js m x =
    (if \<exists>i\<in>set js. x = dst + of_nat i then m (src + (x - dst)) else m x)"
  using order dis
proof (induction "js" arbitrary: x rule: rev_induct)
  case (snoc i ps)
  define F where "F = fold (\<lambda>i m. m(dst + of_nat i := m (src + of_nat i))) ps m"
  have step: "fold (\<lambda>i m. m(dst + of_nat i := m (src + of_nat i))) (ps @ [i]) m x = (F(dst + of_nat i := F (src + of_nat i))) x"
    by (simp add: F_def del: fun_upd_apply)
  have IH: "F y = (if \<exists>i\<in>set ps. y = dst + of_nat i then m (src + (y - dst)) else m y)" for y
  proof (unfold F_def, rule snoc.IH)
    fix ps' k qs j assume "ps = ps' @ k # qs" "j \<in> set ps'"
    then show "unat dst + j \<noteq> unat src + k" using snoc.prems(1) [of ps' k "qs @ [i]"] by simp
  qed (use snoc.prems in auto)
  have i: "i < n" using snoc.prems(3) by simp
  have "\<not> (\<exists>j\<in>set ps. src + of_nat i = dst + of_nat j)"
  proof
    assume "\<exists>j\<in>set ps. src + of_nat i = dst + of_nat j"
    then obtain j where j: "j \<in> set ps" "src + of_nat i = dst + of_nat j" by blast
    then have "j < n" using snoc.prems(3) by auto
    then show False using addr_eq_iff [OF fits(2,1) i] j snoc.prems(1) [of ps i "[]"] by fastforce
  qed
  then have "F (src + of_nat i) = m (src + of_nat i)" using IH by simp
  then show ?case unfolding step using IH [of x] by auto
qed simp

lemma offset_lt:
  assumes "fits a n"
  shows "(\<exists>i<n. x = a + of_nat i) \<longleftrightarrow> unat (x - a) < n"
proof
  assume "\<exists>i<n. x = a + of_nat i"
  then obtain i where i: "i < n" "x = a + of_nat i" by blast
  have "unat (of_nat i :: u64) \<le> i" by (simp add: unat_of_nat)
  then show "unat (x - a) < n" using i by simp
next
  assume "unat (x - a) < n"
  then show "\<exists>i<n. x = a + of_nat i" by (intro exI [of _ "unat (x - a)"]) simp
qed

lemma memmove_eq:
  assumes "fits dst (unat n)" "fits src (unat n)"
  shows "memmove dst src n m x = (if unat (x - dst) < unat n then m (src + (x - dst)) else m x)"
proof -
  let ?k = "unat n"
  have up: "fold (\<lambda>i m. m(dst + of_nat i := m (src + of_nat i))) [0..<?k] m x =
      (if \<exists>i\<in>set [0..<?k]. x = dst + of_nat i then m (src + (x - dst)) else m x)" if "dst < src"
  proof (rule copy_in_order [OF assms])
    fix ps i qs j assume "[0..<?k] = ps @ i # qs" "j \<in> set ps"
    then have "j < i" using sorted_upt [of 0 ?k] distinct_upt [of 0 ?k] by (fastforce simp: sorted_append)
    then show "unat dst + j \<noteq> unat src + i" using that by (simp add: word_less_nat_alt)
  qed auto
  have down: "fold (\<lambda>i m. m(dst + of_nat i := m (src + of_nat i))) (rev [0..<?k]) m x =
      (if \<exists>i\<in>set (rev [0..<?k]). x = dst + of_nat i then m (src + (x - dst)) else m x)" if "\<not> dst < src"
  proof (rule copy_in_order [OF assms])
    fix ps i qs j assume "rev [0..<?k] = ps @ i # qs" "j \<in> set ps"
    then have "[0..<?k] = rev qs @ i # rev ps" "j \<in> set (rev ps)" by (simp_all add: rev_swap)
    then have "i < j" using sorted_upt [of 0 ?k] distinct_upt [of 0 ?k] by (fastforce simp: sorted_append)
    then show "unat dst + j \<noteq> unat src + i" using that by (simp add: word_less_nat_alt)
  qed auto
  have "(\<exists>i\<in>set [0..<?k]. x = dst + of_nat i) \<longleftrightarrow> unat (x - dst) < ?k"
    using offset_lt [OF assms(1), of x] by (simp add: Bex_def)
  then show ?thesis using up down by (simp add: memmove_def)
qed

lemma memcpy_eq:
  assumes "fits dst (unat n)" "fits src (unat n)" "unat dst + unat n \<le> unat src \<or> unat src + unat n \<le> unat dst"
  shows "memcpy dst src n m x = (if unat (x - dst) < unat n then m (src + (x - dst)) else m x)"
proof -
  have "memcpy dst src n m x = (if \<exists>i\<in>set [0..<unat n]. x = dst + of_nat i then m (src + (x - dst)) else m x)"
    unfolding memcpy_def
  proof (rule copy_in_order [OF assms(1,2)])
    fix ps i qs j assume "[0..<unat n] = ps @ i # qs" "j \<in> set ps"
    then have "i \<in> set [0..<unat n]" "j \<in> set [0..<unat n]" by auto
    then show "unat dst + j \<noteq> unat src + i" using assms(3) by auto
  qed auto
  then show ?thesis using offset_lt [OF assms(1), of x] by (simp add: Bex_def)
qed

lemma strlen_spec:
  assumes "m (s + of_nat k) = 0" "\<forall>j<k. m (s + of_nat j) \<noteq> 0"
  shows "strlen s m = Some (of_nat k)"
proof -
  have "strlen_loop s (of_nat j) m = Some (of_nat k)" if "j \<le> k" for j
    using that
  proof (induction "k - j" arbitrary: j)
    case 0
    then show ?case using assms(1) by (subst strlen_loop.simps) simp
  next
    case (Suc n)
    have j: "n = k - Suc j" "Suc j \<le> k" using Suc(2) by simp_all
    have "strlen_loop s (of_nat (Suc j)) m = Some (of_nat k)" "m (s + of_nat j) \<noteq> 0"
      using Suc(1) [OF j] j(2) assms(2) by auto
    then show ?case by (subst strlen_loop.simps) (simp add: add.commute)
  qed
  from this [of 0] show ?thesis by (simp add: strlen_def)
qed

section \<open>Numerals\<close>

text \<open>The digits of a number in base \<open>b\<close>, and the number that digits denote.\<close>

fun digits_of :: "nat \<Rightarrow> nat \<Rightarrow> nat list" where
  "digits_of b n = (if b \<le> 1 \<or> n < b then [n] else digits_of b (n div b) @ [n mod b])"

declare digits_of.simps [simp del]

definition value_of :: "nat \<Rightarrow> nat list \<Rightarrow> nat" where
  "value_of b ds = foldl (\<lambda>a d. a * b + d) 0 ds"

lemma value_digits: "value_of b (digits_of b n) = n"
proof (induction b n rule: digits_of.induct)
  case (1 b n)
  then show ?case by (cases "b \<le> 1 \<or> n < b") (auto simp: digits_of.simps [of b n] value_of_def)
qed

lemma digits_bound: "1 < b \<Longrightarrow> d \<in> set (digits_of b n) \<Longrightarrow> d < b"
proof (induction b n rule: digits_of.induct)
  case (1 b n)
  then show ?case by (cases "n < b") (auto simp: digits_of.simps [of b n])
qed

lemma digits_nonempty [simp]: "digits_of b n \<noteq> []"
  by (subst digits_of.simps) simp

lemma length_digits: "1 < b \<Longrightarrow> n < b ^ k \<Longrightarrow> 0 < k \<Longrightarrow> length (digits_of b n) \<le> k"
proof (induction k arbitrary: n)
  case (Suc k)
  show ?case
  proof (cases "n < b")
    case False
    then have "0 < k" using Suc.prems by (cases k) auto
    moreover have "n div b < b ^ k" using Suc.prems by (simp add: less_mult_imp_div_less mult.commute)
    ultimately show ?thesis using Suc.IH False Suc.prems(1) by (simp add: digits_of.simps [of b n])
  qed (simp add: digits_of.simps)
qed simp

lemma digitLoop_spec:
  assumes "1 < b" "length (digits_of b n) \<le> Suc p" "p < length str"
  shows "digitLoop dig (int b) (int n) (int p) str =
    (int (Suc p - length (digits_of b n)),
     take (Suc p - length (digits_of b n)) str @ map (dig \<circ> int) (digits_of b n) @ drop (Suc p) str)"
  using assms
proof (induction b n arbitrary: p str rule: digits_of.induct)
  case (1 b n)
  show ?case
  proof (cases "n < b")
    case True
    then have "int n div int b = 0" "int n mod int b = int n" using 1(2) by simp_all
    then show ?thesis
      using True 1(4) by (subst digitLoop.simps) (simp add: digits_of.simps Let_def upd_conv_take_nth_drop)
  next
    case False
    let ?ds = "digits_of b (n div b)"
    have ds: "digits_of b n = ?ds @ [n mod b]" using False 1(2) by (simp add: digits_of.simps [of b n])
    have nz: "n div b \<noteq> 0" "\<not> (b \<le> 1 \<or> n < b)" using False 1(2) by (auto simp: div_eq_0_iff)
    have "0 < length ?ds" by simp
    then obtain q where q: "p = Suc q" using 1(3) ds by (cases p) auto
    have d: "int n div int b = int (n div b)" "int n mod int b = int (n mod b)" by (simp_all add: zdiv_int zmod_int)
    have "digitLoop dig (int b) (int n) (int p) str =
        digitLoop dig (int b) (int (n div b)) (int q) (str[p := dig (int (n mod b))])"
      using nz(1) q by (subst digitLoop.simps) (simp add: Let_def d nat_add_distrib)
    also have "\<dots> = (int (Suc q - length ?ds), take (Suc q - length ?ds) (str[p := dig (int (n mod b))]) @
        map (dig \<circ> int) ?ds @ drop (Suc q) (str[p := dig (int (n mod b))]))"
      using 1 nz(2) q ds by (intro 1(1)) auto
    finally show ?thesis using q 1(4) ds
      by (simp add: upd_conv_take_nth_drop take_update_cancel drop_update_swap)
  qed
qed

definition numeral_text :: "(int \<Rightarrow> char) \<Rightarrow> nat \<Rightarrow> nat \<Rightarrow> string" where
  "numeral_text dig b n = map (dig \<circ> int) (digits_of b n)"

definition plain :: "string \<Rightarrow> bool" where
  "plain s \<longleftrightarrow> s \<noteq> [] \<and> CHR 0x00 \<notin> set s \<and> CHR ''%'' \<notin> set s"

lemma digit_chars: "d < 10 \<Longrightarrow> decDigit (int d) \<noteq> CHR 0x00 \<and> decDigit (int d) \<noteq> CHR ''%''"
  "d < 16 \<Longrightarrow> hexDigit (int d) \<noteq> CHR 0x00 \<and> hexDigit (int d) \<noteq> CHR ''%''"
proof -
  have c: "char_of (k :: nat) = c \<longleftrightarrow> k = of_char c" if "k < 256" for k c
    using that by (metis of_char_of mod_less char_of_char)
  show "d < 10 \<Longrightarrow> decDigit (int d) \<noteq> CHR 0x00 \<and> decDigit (int d) \<noteq> CHR ''%''" by (simp add: decDigit_def c)
  show "d < 16 \<Longrightarrow> hexDigit (int d) \<noteq> CHR 0x00 \<and> hexDigit (int d) \<noteq> CHR ''%''" by (simp add: hexDigit_def c)
qed

lemma plain_numeral: "plain (numeral_text decDigit 10 n)" "plain (numeral_text hexDigit 16 n)"
proof -
  have "decDigit (int d) \<noteq> CHR 0x00 \<and> decDigit (int d) \<noteq> CHR ''%''" if "d \<in> set (digits_of 10 n)" for d
    using digits_bound [OF _ that] by (intro digit_chars(1)) simp
  then show "plain (numeral_text decDigit 10 n)" by (fastforce simp: plain_def numeral_text_def)
  have "hexDigit (int d) \<noteq> CHR 0x00 \<and> hexDigit (int d) \<noteq> CHR ''%''" if "d \<in> set (digits_of 16 n)" for d
    using digits_bound [OF _ that] by (intro digit_chars(2)) simp
  then show "plain (numeral_text hexDigit 16 n)" by (fastforce simp: plain_def numeral_text_def)
qed

lemma put_before:
  "length pre = Suc k \<Longrightarrow> drop k ((pre @ r)[k := c]) = c # r"
  "length pre = Suc (Suc k) \<Longrightarrow> drop k ((pre @ r)[Suc k := c, k := d]) = d # c # r"
proof -
  show "length pre = Suc k \<Longrightarrow> drop k ((pre @ r)[k := c]) = c # r"
    by (cases pre rule: rev_cases) (auto simp: list_update_append)
  assume l: "length pre = Suc (Suc k)"
  then obtain ys y z where "pre = ys @ [y, z]" "length ys = k"
    by (cases pre rule: rev_cases; cases "butlast pre" rule: rev_cases) auto
  then show "drop k ((pre @ r)[Suc k := c, k := d]) = d # c # r" by (simp add: list_update_append)
qed

lemma cstr_plain: "drop (nat pos) str = s @ [CHR 0x00] \<Longrightarrow> CHR 0x00 \<notin> set s \<Longrightarrow> cstr pos str = s"
  by (auto simp: cstr_def takeWhile_append)

text \<open>The buffer after the digit loop: \<open>pre\<close> is its unused part.\<close>

lemma digit_buffer:
  assumes "1 < b" "n < b ^ k" "0 < k" "k \<le> Suc p"
  obtains pre where "digitLoop dig (int b) (int n) (int p) (replicate (Suc (Suc p)) (CHR 0x00)) =
    (int (length pre), pre @ numeral_text dig b n @ [CHR 0x00])" "Suc p - k \<le> length pre"
proof -
  have l: "length (digits_of b n) \<le> k" by (rule length_digits [OF assms(1-3)])
  have d: "drop (Suc p) (replicate (Suc (Suc p)) (CHR 0x00)) = [CHR 0x00]" by (simp only: drop_replicate) simp
  show thesis
    by (rule that [of "take (Suc p - length (digits_of b n)) (replicate (Suc (Suc p)) (CHR 0x00))"])
      (use digitLoop_spec [OF assms(1), of n p "replicate (Suc (Suc p)) (CHR 0x00)"] l d assms(4) in \<open>auto simp: numeral_text_def\<close>)
qed

lemma replicate_update: "(replicate n x)[i := x] = replicate n x"
  by (cases "i < n") (simp_all add: list_update_same_conv list_update_beyond)

lemma signedText_spec:
  assumes "- (2 ^ (w - 1)) < v" "v < 2 ^ (w - 1)" "(2 :: nat) ^ (w - 1) \<le> 10 ^ k" "0 < k" "k + 3 \<le> len"
  shows "signedText w len v = Some ((if v < 0 then ''-'' else []) @ numeral_text decDigit 10 (nat \<bar>v\<bar>))"
proof -
  have "nat \<bar>v\<bar> < 2 ^ (w - 1)" using assms(1,2) by (simp add: nat_less_iff abs_less_iff)
  then have "nat \<bar>v\<bar> < 10 ^ k" using assms(3) by (rule less_le_trans)
  moreover obtain p where p: "len = Suc (Suc p)" "k + 1 \<le> p" using assms(4,5) by (cases len; cases "len - 1") auto
  ultimately obtain pre where pre: "digitLoop decDigit (int 10) (int (nat \<bar>v\<bar>)) (int p) (replicate (Suc (Suc p)) (CHR 0x00)) =
      (int (length pre), pre @ numeral_text decDigit 10 (nat \<bar>v\<bar>) @ [CHR 0x00])" "Suc p - k \<le> length pre"
    using digit_buffer [of 10 "nat \<bar>v\<bar>" k p decDigit] assms(4) by auto
  obtain q where q: "length pre = Suc q" using pre(2) p by (cases "length pre") auto
  have buf: "(replicate len (CHR 0x00))[len - 1 := CHR 0x00] = replicate (Suc (Suc p)) (CHR 0x00)"
    unfolding p(1) by (rule replicate_update)
  have dl: "digitLoop decDigit 10 (if v < 0 then v * - 1 else v) (int len - 2) (replicate (Suc (Suc p)) (CHR 0x00)) =
      (int (length pre), pre @ numeral_text decDigit 10 (nat \<bar>v\<bar>) @ [CHR 0x00])"
    using pre(1) p by (auto simp: abs_if)
  have pl: "CHR 0x00 \<notin> set (numeral_text decDigit 10 (nat \<bar>v\<bar>))" using plain_numeral(1) by (simp add: plain_def)
  have "cstr (int (length pre)) (pre @ numeral_text decDigit 10 (nat \<bar>v\<bar>) @ [CHR 0x00]) = numeral_text decDigit 10 (nat \<bar>v\<bar>)"
    using pl by (intro cstr_plain) simp_all
  moreover have "cstr (int (length pre) - 1) ((pre @ numeral_text decDigit 10 (nat \<bar>v\<bar>) @ [CHR 0x00])[nat (int (length pre) - 1) := CHR ''-'']) =
      CHR ''-'' # numeral_text decDigit 10 (nat \<bar>v\<bar>)"
    using pl put_before(1) [OF q] q by (intro cstr_plain) simp_all
  ultimately show ?thesis using assms(1) unfolding signedText_def Let_def buf dl by (cases "v < 0") simp_all
qed

lemma signed32: "- (2 ^ 31) \<le> v \<Longrightarrow> v < 2 ^ 31 \<Longrightarrow> signedText 32 13 v =
    (if v = - (2 ^ 31) then None else Some ((if v < 0 then ''-'' else []) @ numeral_text decDigit 10 (nat \<bar>v\<bar>)))"
  using signedText_spec [of 32 v 10 13] by (auto simp: signedText_def Let_def)

lemma signed64: "- (2 ^ 63) \<le> v \<Longrightarrow> v < 2 ^ 63 \<Longrightarrow> signedText 64 22 v =
    (if v = - (2 ^ 63) then None else Some ((if v < 0 then ''-'' else []) @ numeral_text decDigit 10 (nat \<bar>v\<bar>)))"
  using signedText_spec [of 64 v 19 22] by (auto simp: signedText_def Let_def)

lemma unsigned_text: "unsignedText d = numeral_text decDigit 10 (unat d)"
proof -
  have "unat d < 2 ^ 64" using unsigned_less [of d] by simp
  then have "unat d < 10 ^ 20" by simp
  then obtain pre where "digitLoop decDigit (int 10) (int (unat d)) (int 20) (replicate (Suc (Suc 20)) (CHR 0x00)) =
      (int (length pre), pre @ numeral_text decDigit 10 (unat d) @ [CHR 0x00])"
    using digit_buffer [of 10 "unat d" 20 20 decDigit] by auto
  moreover have "Suc (Suc 20) = 22" by simp
  ultimately have d: "digitLoop decDigit 10 (uint d) 20 (replicate 22 (CHR 0x00)) =
      (int (length pre), pre @ numeral_text decDigit 10 (unat d) @ [CHR 0x00])"
    by (simp only: uint_nat of_nat_numeral)
  have "cstr (int (length pre)) (pre @ numeral_text decDigit 10 (unat d) @ [CHR 0x00]) = numeral_text decDigit 10 (unat d)"
    using plain_numeral(1) by (intro cstr_plain) (simp_all add: plain_def)
  then show ?thesis unfolding unsignedText_def d by simp
qed

lemma hex_text: "hexText d = ''0x'' @ numeral_text hexDigit 16 (unat d)"
proof -
  have "unat d < 2 ^ 64" using unsigned_less [of d] by simp
  then have "unat d < 16 ^ 16" by simp
  then obtain pre where pre: "digitLoop hexDigit (int 16) (int (unat d)) (int 20) (replicate (Suc (Suc 20)) (CHR 0x00)) =
      (int (length pre), pre @ numeral_text hexDigit 16 (unat d) @ [CHR 0x00])" "Suc 20 - 16 \<le> length pre"
    using digit_buffer [of 16 "unat d" 16 20 hexDigit] by auto
  have "Suc (Suc 20) = 22" by simp
  with pre(1) have d: "digitLoop hexDigit 16 (uint d) 20 (replicate 22 (CHR 0x00)) =
      (int (length pre), pre @ numeral_text hexDigit 16 (unat d) @ [CHR 0x00])"
    by (simp only: uint_nat of_nat_numeral)
  obtain q where q: "length pre = Suc (Suc q)" using pre(2) by (cases "length pre"; cases "length pre - 1") auto
  have n: "nat (int (length pre) - 1) = Suc q" "int (length pre) - 2 = int q" using q by simp_all
  have "cstr (int q) ((pre @ numeral_text hexDigit 16 (unat d) @ [CHR 0x00])[Suc q := CHR ''x'', q := CHR ''0'']) =
      ''0x'' @ numeral_text hexDigit 16 (unat d)"
    using plain_numeral(2) put_before(2) [OF q] by (intro cstr_plain) (simp_all add: plain_def)
  then show ?thesis unfolding hexText_def d Let_def prod.case n nat_int .
qed

section \<open>\<open>printf\<close> against its specification\<close>

lemma print_eq [simp]: "print s out = (True, out @ s)"
proof (induction s arbitrary: out)
  case (Cons c s)
  have "(of_char c :: int) = int (of_char c)" by (simp only: of_nat_of_char)
  then have "(of_char c :: int) \<noteq> - 1" by (metis of_nat_0_le_iff neg_0_le_iff_le not_one_le_zero)
  then show ?case using Cons by (simp add: putchar_def EOF_def)
qed simp

lemma emit_eq: "emit s r out = (if r < int (length s) then (None, out) else (Some s, out @ s))"
  by (simp add: emit_def)

text \<open>The numeral of a number, with the usual sixteen digits.\<close>

definition numeral_of :: "nat \<Rightarrow> nat \<Rightarrow> string" where
  "numeral_of b n = map (\<lambda>d. ''0123456789abcdef'' ! d) (digits_of b n)"

definition signed_numeral :: "int \<Rightarrow> string" where
  "signed_numeral v = (if v < 0 then ''-'' else []) @ numeral_of 10 (nat \<bar>v\<bar>)"

text \<open>The text that a conversion asks for: a character, a string, a number in decimal with a sign (the lower 32 bits of the argument, or all
  64), without a sign, or in hexadecimal. The least integers have no text, since the code overflows on them.\<close>

definition arg_text :: "char \<Rightarrow> Arg \<Rightarrow> string option" where
  "arg_text k a = (case a of
     StrArg s \<Rightarrow> if k = CHR ''s'' then Some s else None
   | IntArg d \<Rightarrow>
      if k = CHR ''c'' then Some [char_of (uint d mod 256)]
      else if k = CHR ''d'' then let v = sint (ucast d :: u32) in if v = - (2 ^ 31) then None else Some (signed_numeral v)
      else if k = CHR ''l'' then if sint d = - (2 ^ 63) then None else Some (signed_numeral (sint d))
      else if k = CHR ''u'' then Some (numeral_of 10 (unat d))
      else if k = CHR ''x'' then Some (''0x'' @ numeral_of 16 (unat d))
      else None)"

text \<open>The text a format and its arguments stand for, with the number \<open>printf\<close> returns: every number counts
  as one character, and an unknown conversion ends the format, printing the rest of it as it stands.\<close>

fun render :: "string \<Rightarrow> Arg list \<Rightarrow> (string \<times> nat) option" where
  "render [] args = Some ([], 0)"
| "render (c # r) args =
    (if c \<noteq> CHR ''%'' then do { (s, n) \<leftarrow> render r args; Some (c # s, Suc n) }
     else case r of [] \<Rightarrow> Some (''%'', 1)
     | k # r' \<Rightarrow> if k = CHR ''%'' then do { (s, n) \<leftarrow> render r' args; Some (CHR ''%'' # s, Suc n) }
         else if k \<notin> set ''csdlux'' then Some (c # r, length (c # r))
         else case args of [] \<Rightarrow> None
           | a # args \<Rightarrow> do {
               t \<leftarrow> arg_text k a;
               (s, n) \<leftarrow> render r' args;
               Some (t @ s, (if k \<in> set ''cs'' then length t else 1) + n) })"

text \<open>The digits of the code are these digits.\<close>

lemma digit_texts: "d < 10 \<Longrightarrow> decDigit (int d) = ''0123456789abcdef'' ! d" "d < 16 \<Longrightarrow> hexDigit (int d) = ''0123456789abcdef'' ! d"
proof -
  have "list_all (\<lambda>d. decDigit (int d) = ''0123456789abcdef'' ! d) [0..<10]" by code_simp
  then show "d < 10 \<Longrightarrow> decDigit (int d) = ''0123456789abcdef'' ! d" by (simp only: list_all_iff set_upt atLeastLessThan_iff) simp
  have "list_all (\<lambda>d. hexDigit (int d) = ''0123456789abcdef'' ! d) [0..<16]" by code_simp
  then show "d < 16 \<Longrightarrow> hexDigit (int d) = ''0123456789abcdef'' ! d" by (simp only: list_all_iff set_upt atLeastLessThan_iff) simp
qed

lemma numeral_texts: "numeral_text decDigit 10 n = numeral_of 10 n" "numeral_text hexDigit 16 n = numeral_of 16 n"
  using digits_bound [of 10 _ n] digits_bound [of 16 _ n] by (simp_all add: numeral_text_def numeral_of_def digit_texts)

lemma arg_text_short:
  assumes "arg_text k (IntArg d) = Some t" "k \<in> set ''dlux''"
  shows "length t \<le> 32"
proof -
  have len: "length (numeral_of 10 n) \<le> 20" "length (numeral_of 16 n) \<le> 20" if "n < 2 ^ 64" for n
    using that length_digits [of 10 n 20] length_digits [of 16 n 20] by (simp_all add: numeral_of_def)
  have s: "nat \<bar>sint (ucast d :: u32)\<bar> < 2 ^ 64" "nat \<bar>sint d\<bar> < 2 ^ 64" "unat d < 2 ^ 64"
    using sint_range_size [of "ucast d :: u32"] sint_range_size [of d] unsigned_less [of d] by (auto simp: word_size)
  show ?thesis
    using assms len [OF s(1)] len [OF s(2)] len [OF s(3)] by (auto simp: arg_text_def signed_numeral_def Let_def split: if_splits)
qed

lemma conversion_unknown: "k \<notin> set ''csdlux'' \<Longrightarrow> conversion k args = Some Unknown"
  by simp

lemma conversion_arg:
  assumes "arg_text k a = Some t" "k \<in> set ''csdlux''"
  shows "conversion k (a # args) = Some (if k \<in> set ''cs'' then Text t args else Number (Some t) args)"
proof -
  have s32: "- (2 ^ 31) \<le> sint (x :: u32)" "sint x < 2 ^ 31" for x using sint_range_size [of x] by (simp_all add: word_size)
  have s64: "- (2 ^ 63) \<le> sint (x :: u64)" "sint x < 2 ^ 63" for x using sint_range_size [of x] by (simp_all add: word_size)
  have c: "char_of (unat d) = char_of (uint d)" for d :: u64
    by (metis char_of_nat uint_nat)
  show ?thesis
    using assms signed32 [OF s32] signed64 [OF s64]
    by (auto simp: arg_text_def Let_def signed_numeral_def numeral_texts unsigned_text hex_text c split: Arg.splits if_splits)
qed

lemma render_conv:
  assumes "render (CHR ''%'' # k # r) args = Some (s, n)" "k \<noteq> CHR ''%''"
  obtains (unknown) "conversion k args = Some Unknown" "s = CHR ''%'' # k # r" "n = length (CHR ''%'' # k # r)"
  | (direct) t args' s' n' where "conversion k args = Some (Text t args')" "render r args' = Some (s', n')" "s = t @ s'" "n = length t + n'"
  | (number) t args' s' n' where "conversion k args = Some (Number (Some t) args')" "render r args' = Some (s', n')" "s = t @ s'" "n = 1 + n'"
proof (cases "k \<in> set ''csdlux''")
  case False
  then have "s = CHR ''%'' # k # r" "n = length (CHR ''%'' # k # r)" using assms by auto
  then show thesis using unknown conversion_unknown [OF False] by blast
next
  case True
  then have "(k \<notin> set ''csdlux'') = False" by blast
  then obtain a args' t s' n' where a: "args = a # args'" "arg_text k a = Some t" "render r args' = Some (s', n')" "s = t @ s'"
      "n = (if k \<in> set ''cs'' then length t else 1) + n'"
    using assms by (simp only: render.simps list.case if_False simp_thms) (auto split: list.splits bind_splits)
  then show thesis using conversion_arg [OF a(2) True, of args'] direct number by (cases "k \<in> set ''cs''") auto
qed

lemma render_text:
  assumes "CHR ''%'' \<notin> set t"
  shows "render (t @ r) args = do { (s, n) \<leftarrow> render r args; Some (t @ s, length t + n) }"
  using assms by (induction t) (auto split: bind_splits)

lemma signed_plain:
  assumes "signedText w len v = Some s" "w = 32 \<and> len = 13 \<and> - (2 ^ 31) \<le> v \<and> v < 2 ^ 31 \<or> w = 64 \<and> len = 22 \<and> - (2 ^ 63) \<le> v \<and> v < 2 ^ 63"
  shows "plain s"
  using assms(1,2) signed32 [of v] signed64 [of v] plain_numeral(1) [of "nat \<bar>v\<bar>"]
  by (auto simp: plain_def split: if_splits)

lemma number_plain: "conversion k args = Some (Number (Some s) args') \<Longrightarrow> plain s"
proof -
  have s32: "- (2 ^ 31) \<le> sint (x :: u32) \<and> sint x < 2 ^ 31" for x using sint_range_size [of x] by (simp add: word_size)
  have s64: "- (2 ^ 63) \<le> sint (x :: u64) \<and> sint x < 2 ^ 63" for x using sint_range_size [of x] by (simp add: word_size)
  have hx: "plain (hexText d)" for d using plain_numeral(2) by (simp add: hex_text plain_def)
  assume "conversion k args = Some (Number (Some s) args')"
  then show "plain s"
    using s32 s64 hx signed_plain [of 32 13 _ s] signed_plain [of 64 22 _ s] plain_numeral(1)
    by (auto simp: unsigned_text split: if_splits list.splits Arg.splits)
qed

text \<open>Text without a percent sign is printed as it is.\<close>

lemma printf_plain:
  assumes "plain s" "length s < 2 ^ 31"
  shows "printf_loop s args 0 out = Some (int (length s), out @ s)"
proof -
  obtain c r where s: "s = c # r" "c \<noteq> CHR ''%''" "CHR ''%'' \<notin> set r" using assms(1) by (cases s) (auto simp: plain_def)
  have "nextText s = s" using s by (auto simp: nextText_def takeWhile_eq_all_conv)
  moreover have "\<not> INT_MAX < int (length s)" using assms(2) by (simp add: INT_MAX_def)
  moreover have "printf_loop [] args n o' = Some (n, o')" for n o' by (subst printf_loop.simps) simp
  ultimately show ?thesis using s by (subst printf_loop.simps) (simp add: Let_def emit_eq)
qed

lemma printf_end: "printf_loop [] args n out = Some (n, out)"
  by (subst printf_loop.simps) simp

text \<open>One round of the loop that prints text up to the next percent sign.\<close>

lemma printf_text_round:
  assumes "fmt = c # r" "c \<noteq> CHR ''%'' \<or> take 1 r = ''%''"
    and "rest = dropWhile (\<lambda>c. c \<noteq> CHR ''%'') (if c = CHR ''%'' then tl r else r)"
    and "render fmt args = Some (s, n)" "w + int (length s) \<le> INT_MAX"
  obtains t s' n' where "printf_loop fmt args w out = printf_loop rest args (w + int (length t)) (out @ t)"
    "render rest args = Some (s', n')" "s = t @ s'" "n = length t + n'"
proof -
  define r' where "r' = (if c = CHR ''%'' then tl r else r)"
  define t' where "t' = takeWhile (\<lambda>c. c \<noteq> CHR ''%'') r'"
  have r': "r' = t' @ rest" "CHR ''%'' \<notin> set t'" using assms(3) by (auto simp: r'_def t'_def dest: set_takeWhileD)
  have fm: "(if c = CHR ''%'' then r else fmt) = c # r'" using assms(1,2) by (cases r) (auto simp: r'_def)
  have "render fmt args = do { (s, n) \<leftarrow> render r' args; Some (c # s, Suc n) }"
    using assms(1,2) by (cases r) (auto simp: r'_def split: bind_splits)
  also have "\<dots> = do { (s, n) \<leftarrow> render rest args; Some (c # t' @ s, Suc (length t' + n)) }"
    using render_text [OF r'(2), of rest args] r'(1) by (auto split: bind_splits)
  finally obtain s' n' where s': "render rest args = Some (s', n')" "s = (c # t') @ s'" "n = length (c # t') + n'"
    using assms(4) by (auto split: bind_splits)
  have "\<not> INT_MAX - w < int (length (c # t'))" using assms(5) s'(2) by simp
  then have "printf_loop fmt args w out = printf_loop rest args (w + int (length (c # t'))) (out @ c # t')"
  proof -
    assume room: "\<not> INT_MAX - w < int (length (c # t'))"
    have h: "(c \<noteq> CHR ''%'' \<or> take 1 r = ''%'') = True" "(fmt = []) = False" "hd fmt = c" "tl fmt = r"
      using assms(1,2) by simp_all
    have "nextText (c # r') = c # t'" by (simp add: nextText_def t'_def)
    moreover have "drop (length (c # t')) (c # r') = rest" unfolding r'(1) by simp
    ultimately show ?thesis
      using room by (subst printf_loop.simps) (simp only: h fm Let_def emit_eq if_True if_False prod.case option.case)
  qed
  then show thesis using that s' by blast
qed

lemma drop_two: "drop 2 (a # b # r) = r"
  by (simp add: numeral_2_eq_2)

lemma printf_conv_round:
  "k \<noteq> CHR ''%'' \<Longrightarrow> conversion k args = Some x \<Longrightarrow> printf_loop (CHR ''%'' # k # r) args w out =
    (case x of
       Text s args \<Rightarrow> if INT_MAX - w < int (length s) then Some (- 1, out)
         else printf_loop r args (w + int (length s)) (out @ s)
     | Number num args \<Rightarrow> if INT_MAX - w = 0 then Some (- 1, out)
         else do { s \<leftarrow> num; (res, out) \<leftarrow> printf_loop s [] 0 out;
                   if res = - 1 then Some (- 1, out) else printf_loop r args (w + 1) out }
     | Unknown \<Rightarrow> if INT_MAX - w < int (length (CHR ''%'' # k # r)) then Some (- 1, out)
         else Some (w + int (length (CHR ''%'' # k # r)), out @ CHR ''%'' # k # r))"
  by (subst printf_loop.simps, unfold drop_two) (cases x; simp add: Let_def emit_eq printf_end del: conversion.simps)

lemma printf_percent:
  "printf_loop ''%'' args w out = (if INT_MAX - w < 1 then Some (- 1, out) else Some (w + 1, out @ ''%''))"
  by (subst printf_loop.simps) (simp add: Let_def emit_eq printf_end)

lemma printf_loop_renders:
  "render fmt args = Some (s, n) \<Longrightarrow> 0 \<le> w \<Longrightarrow> w + int (length s) \<le> INT_MAX \<Longrightarrow>
    printf_loop fmt args w out = Some (w + int n, out @ s)"
proof (induction "length fmt" arbitrary: fmt args w out s n rule: less_induct)
  case less
  show ?case
  proof (cases fmt)
    case Nil
    then show ?thesis using less.prems by (simp add: printf_end)
  next
    case (Cons c r)
    show ?thesis
    proof (cases "c \<noteq> CHR ''%'' \<or> take 1 r = ''%''")
      case True
      define rest where "rest = dropWhile (\<lambda>c. c \<noteq> CHR ''%'') (if c = CHR ''%'' then tl r else r)"
      obtain t s' n' where t: "printf_loop fmt args w out = printf_loop rest args (w + int (length t)) (out @ t)"
        "render rest args = Some (s', n')" "s = t @ s'" "n = length t + n'"
        using printf_text_round [OF Cons True rest_def less.prems(1,3)] by blast
      have "length rest < length fmt"
        using length_dropWhile_le [of "\<lambda>c. c \<noteq> CHR ''%''" "if c = CHR ''%'' then tl r else r"] Cons by (auto simp: rest_def split: if_splits)
      from less.hyps [OF this t(2), of "w + int (length t)" "out @ t"] show ?thesis using t less.prems(2,3) by simp
    next
      case False
      then have c: "c = CHR ''%''" "take 1 r \<noteq> ''%''" by auto
      show ?thesis
      proof (cases r)
        case Nil
        then show ?thesis using less.prems Cons c by (auto simp: printf_percent)
      next
        case (Cons k r')
        have fmt: "fmt = CHR ''%'' # k # r'" "k \<noteq> CHR ''%''" using \<open>fmt = c # r\<close> Cons c by auto
        have short: "length r' < length fmt" using fmt by simp
        have len: "length (k # r') = Suc (length r')" by simp
        from less.prems(1) [unfolded fmt(1)] fmt(2) show ?thesis
        proof (cases rule: render_conv)
          case (direct t args' s' n')
          then show ?thesis
            using less.hyps [OF short direct(2), of "w + int (length t)" "out @ t"] less.prems(2,3)
            unfolding fmt(1) printf_conv_round [OF fmt(2) direct(1)] by simp
        next
          case (number t args' s' n')
          have t: "plain t" "0 < length t" using number_plain [OF number(1)] by (auto simp: plain_def)
          have "length t < 2 ^ 31" using less.prems(2,3) number(3) by (simp add: INT_MAX_def)
          then have "printf_loop t [] 0 out = Some (int (length t), out @ t)" by (rule printf_plain [OF t(1)])
          moreover have "1 \<le> int (length t)" "int (length s) = int (length t) + int (length s')" using t(2) number(3) by (simp_all add: Suc_le_eq)
          then have "w + 1 + int (length s') \<le> INT_MAX" "INT_MAX - w \<noteq> 0" using less.prems(3) by linarith+
          ultimately show ?thesis
            using less.hyps [OF short number(2), of "w + 1" "out @ t"] less.prems(2) number(3,4)
            unfolding fmt(1) printf_conv_round [OF fmt(2) number(1)] by simp
        next
          case unknown
          then show ?thesis using less.prems(3) unfolding fmt(1) printf_conv_round [OF fmt(2) unknown(1)] by simp
        qed
      qed
    qed
  qed
qed

section \<open>Properties\<close>

text \<open>C33: \<open>printf\<close> always returns, and what it sends to the terminal is the format with every conversion replaced
  by the text of its argument, as long as that is shorter than \<open>2\<^sup>3\<^sup>1\<close> characters and the format has its
  arguments: \<open>%%\<close> is a percent sign, and at an unknown conversion the rest of the format is printed as it
  stands. The number returned counts every numeral as one character.\<close>

theorem printf_renders:
  assumes "render fmt args = Some (s, n)" "length s < 2 ^ 31"
  shows "printf fmt args out = Some (int n, out @ s)"
  using printf_loop_renders [OF assms(1), of 0 out] assms(2) by (simp add: printf_def INT_MAX_def)

theorem printf_renders_witness:
  "printf ''%s=%d%%, 100%z'' [StrArg ''ab'', IntArg 40] [] = Some (12, ''ab=40%, 100%z'')"
proof -
  have "digits_of 10 40 = [4, 0]" by (simp add: digits_of.simps)
  then have t: "arg_text (CHR ''d'') (IntArg 40) = Some ''40''" "arg_text (CHR ''s'') (StrArg ''ab'') = Some ''ab''"
    by (simp_all add: arg_text_def signed_numeral_def numeral_of_def)
  have "render ''%s=%d%%, 100%z'' [StrArg ''ab'', IntArg 40] = Some (''ab=40%, 100%z'', 12)" using t by simp
  then show ?thesis using printf_renders [of "''%s=%d%%, 100%z''" _ _ _ "[]"] by simp
qed

text \<open>What it means that a text is the numeral of \<open>n\<close> in base \<open>b\<close>: it consists of the first \<open>b\<close> of the sixteen digits, it reads as \<open>n\<close>, and
  a zero begins it only if it is the numeral zero.\<close>

definition digit_value :: "char \<Rightarrow> nat" where
  "digit_value c = (if of_char c < (58 :: nat) then of_char c - 48 else of_char c - 87)"

definition denotes :: "nat \<Rightarrow> string \<Rightarrow> nat \<Rightarrow> bool" where
  "denotes b t n \<longleftrightarrow> t \<noteq> [] \<and> set t \<subseteq> set (take b ''0123456789abcdef'') \<and> foldl (\<lambda>v c. v * b + digit_value c) 0 t = n \<and>
     (hd t = CHR ''0'' \<longrightarrow> t = ''0'')"

lemma digit_value_nth: "d < 16 \<Longrightarrow> digit_value (''0123456789abcdef'' ! d) = d"
proof -
  have "list_all (\<lambda>d. digit_value (''0123456789abcdef'' ! d) = d) [0..<16]" by code_simp
  then show "d < 16 \<Longrightarrow> digit_value (''0123456789abcdef'' ! d) = d" by (simp only: list_all_iff set_upt atLeastLessThan_iff) simp
qed

lemma digits_hd: "1 < b \<Longrightarrow> 0 < n \<Longrightarrow> hd (digits_of b n) \<noteq> 0"
proof (induction b n rule: digits_of.induct)
  case (1 b n)
  then show ?case by (cases "n < b") (simp_all add: digits_of.simps [of b n] div_greater_zero_iff)
qed

lemma numeral_denotes:
  assumes "1 < b" "b \<le> 16"
  shows "denotes b (numeral_of b n) n"
proof -
  let ?ds = "digits_of b n" and ?c = "\<lambda>d. ''0123456789abcdef'' ! d"
  have d: "d < b" if "d \<in> set ?ds" for d using digits_bound [OF assms(1) that] .
  have val: "foldl (\<lambda>v c. v * b + digit_value c) a (map ?c ds) = foldl (\<lambda>v d. v * b + d) a ds" if "\<forall>d\<in>set ds. d < b" for a ds
    using that assms(2) by (induction ds arbitrary: a) (auto simp: digit_value_nth)
  have "?c d \<in> set (take b ''0123456789abcdef'')" if "d < b" for d
    using that assms(2) nth_mem [of d "take b ''0123456789abcdef''"] by (simp add: min_def)
  then have chars: "set (numeral_of b n) \<subseteq> set (take b ''0123456789abcdef'')" using d by (auto simp: numeral_of_def)
  have "numeral_of b n = ''0''" if "hd (numeral_of b n) = CHR ''0''"
  proof -
    have "?c (hd ?ds) = CHR ''0''" using that by (simp add: numeral_of_def list.map_sel)
    moreover have "hd ?ds < 16" using d [of "hd ?ds"] assms(2) by simp
    ultimately have "hd ?ds = 0" using digit_value_nth [of "hd ?ds"] by (simp add: digit_value_def)
    then have "n = 0" using digits_hd [OF assms(1), of n] by (cases "n = 0") simp_all
    then show ?thesis using assms(1) by (simp add: numeral_of_def digits_of.simps)
  qed
  then show ?thesis
    unfolding denotes_def using chars val [of ?ds 0] d value_digits [of b n] by (simp add: numeral_of_def value_of_def)
qed

text \<open>C34: the numerals \<open>printf\<close> prints: for every 32-bit and 64-bit integer except the least one a minus sign if it is
  negative and a decimal numeral of its absolute value, for unsigned numbers a decimal numeral, for \<open>%x\<close> a hexadecimal
  numeral behind \<open>0x\<close>. A numeral consists of digits of its base, reads as the number, and has no leading zeros (\<open>denotes\<close>). For the least
  integer the behaviour is undefined, since negating it overflows.\<close>

theorem printf_numerals:
  "(if sint (ucast d :: u32) = - (2 ^ 31) then printf ''%d'' [IntArg d] out = None
    else \<exists>t. printf ''%d'' [IntArg d] out = Some (1, out @ (if sint (ucast d :: u32) < 0 then ''-'' else []) @ t) \<and>
      denotes 10 t (nat \<bar>sint (ucast d :: u32)\<bar>)) \<and>
   (if sint d = - (2 ^ 63) then printf ''%l'' [IntArg d] out = None
    else \<exists>t. printf ''%l'' [IntArg d] out = Some (1, out @ (if sint d < 0 then ''-'' else []) @ t) \<and> denotes 10 t (nat \<bar>sint d\<bar>)) \<and>
   (\<exists>t. printf ''%u'' [IntArg d] out = Some (1, out @ t) \<and> denotes 10 t (unat d)) \<and>
   (\<exists>t. printf ''%x'' [IntArg d] out = Some (1, out @ ''0x'' @ t) \<and> denotes 16 t (unat d))"
proof -
  have one: "printf [CHR ''%'', k] [IntArg d] out = Some (1, out @ t)" if "arg_text k (IntArg d) = Some t" "k \<in> set ''dlux''" for k t
  proof -
    have k: "k \<noteq> CHR ''%''" "k \<in> set ''csdlux''" "k \<notin> set ''cs''" using that(2) by auto
    have c: "conversion k [IntArg d] = Some (Number (Some t) [])" using conversion_arg [OF that(1) k(2), of "[]"] k(3) by (simp only: if_False)
    have "length t < 2 ^ 31" using arg_text_short [OF that] by simp
    then have "printf_loop t [] 0 out = Some (int (length t), out @ t)" by (rule printf_plain [OF number_plain [OF c]])
    then show ?thesis unfolding printf_def printf_conv_round [OF k(1) c] by (simp add: INT_MAX_def printf_end)
  qed
  have none: "printf [CHR ''%'', k] [IntArg d] out = None" if "conversion k [IntArg d] = Some (Number None [])" "k \<noteq> CHR ''%''" for k
    unfolding printf_def printf_conv_round [OF that(2,1)] by (simp add: INT_MAX_def)
  show ?thesis
  proof (intro conjI)
    show "if sint (ucast d :: u32) = - (2 ^ 31) then printf ''%d'' [IntArg d] out = None
      else \<exists>t. printf ''%d'' [IntArg d] out = Some (1, out @ (if sint (ucast d :: u32) < 0 then ''-'' else []) @ t) \<and>
        denotes 10 t (nat \<bar>sint (ucast d :: u32)\<bar>)"
      using one [of "CHR ''d''"] none [of "CHR ''d''"] numeral_denotes [of 10 "nat \<bar>sint (ucast d :: u32)\<bar>"]
      by (auto simp: arg_text_def signed_numeral_def signedText_def)
    show "if sint d = - (2 ^ 63) then printf ''%l'' [IntArg d] out = None
      else \<exists>t. printf ''%l'' [IntArg d] out = Some (1, out @ (if sint d < 0 then ''-'' else []) @ t) \<and> denotes 10 t (nat \<bar>sint d\<bar>)"
      using one [of "CHR ''l''"] none [of "CHR ''l''"] numeral_denotes [of 10 "nat \<bar>sint d\<bar>"]
      by (auto simp: arg_text_def signed_numeral_def signedText_def)
    show "\<exists>t. printf ''%u'' [IntArg d] out = Some (1, out @ t) \<and> denotes 10 t (unat d)"
      using one [of "CHR ''u''"] numeral_denotes [of 10 "unat d"] by (auto simp: arg_text_def)
    show "\<exists>t. printf ''%x'' [IntArg d] out = Some (1, out @ ''0x'' @ t) \<and> denotes 16 t (unat d)"
      using one [of "CHR ''x''"] numeral_denotes [of 16 "unat d"] by (auto simp: arg_text_def)
  qed
qed

text \<open>\<open>memmove\<close> copies the \<open>n\<close> bytes at \<open>src\<close> as they were before the call to \<open>dst\<close>, also when the two ranges
  overlap, and changes no other byte.\<close>

theorem memmove_correct:
  assumes "unat dst + unat n \<le> 2 ^ 64" "unat src + unat n \<le> 2 ^ 64"
  shows "(\<forall>i<unat n. memmove dst src n m (dst + of_nat i) = m (src + of_nat i)) \<and>
    (\<forall>x. unat x < unat dst \<or> unat dst + unat n \<le> unat x \<longrightarrow> memmove dst src n m x = m x)"
proof (intro conjI allI impI)
  have f: "fits dst (unat n)" "fits src (unat n)" using assms by (simp_all add: fits_def)
  fix i assume "i < unat n"
  moreover have "unat n < 2 ^ 64" using unsigned_less [of n] by simp
  ultimately have "unat (of_nat i :: u64) = i" "i < unat n" by (simp_all add: unat_of_nat)
  then show "memmove dst src n m (dst + of_nat i) = m (src + of_nat i)" by (simp add: memmove_eq [OF f])
next
  have f: "fits dst (unat n)" "fits src (unat n)" using assms by (simp_all add: fits_def)
  fix x :: u64 assume x: "unat x < unat dst \<or> unat dst + unat n \<le> unat x"
  have "\<not> unat (x - dst) < unat n"
    using unat_plus_small [OF f(1), of "unat (x - dst)"] x by auto
  then show "memmove dst src n m x = m x" by (simp add: memmove_eq [OF f])
qed

theorem memmove_correct_witness: "memmove 3 1 4 (\<lambda>a. ucast a) 6 = 4 \<and> memmove 1 3 4 (\<lambda>a. ucast a) 1 = 3"
proof -
  have "memmove 3 1 4 (\<lambda>a. ucast a) (3 + of_nat 3) = ucast (1 + of_nat 3 :: u64)" "memmove 1 3 4 (\<lambda>a. ucast a) (1 + of_nat 0) = ucast (3 + of_nat 0 :: u64)"
    by (rule conjunct1 [OF memmove_correct, rule_format]; simp)+
  then show ?thesis by simp
qed

text \<open>\<open>strcpy\<close> copies the characters of a string but not its terminator: the byte behind the copy keeps the
  value it had, so the copy is a string only when that byte happened to be zero.\<close>

theorem strcpy_drops_terminator:
  assumes "m (src + of_nat k) = 0" "\<forall>j<k. m (src + of_nat j) \<noteq> 0"
    and "unat dest + k < 2 ^ 64" "unat src + k < 2 ^ 64" "unat dest + k < unat src \<or> unat src + k < unat dest"
  shows "\<exists>m'. strcpy dest src m = Some m' \<and> (\<forall>i<k. m' (dest + of_nat i) = m (src + of_nat i)) \<and>
    m' (dest + of_nat k) = m (dest + of_nat k)"
proof -
  have k: "unat (of_nat i :: u64) = i" if "i \<le> k" for i using that assms(3) by (simp add: unat_of_nat)
  have f: "fits dest (unat (of_nat k :: u64))" "fits src (unat (of_nat k :: u64))" using assms(3,4) k by (simp_all add: fits_def)
  have "strcpy dest src m = Some (memcpy dest src (of_nat k) m)" using strlen_spec [OF assms(1,2)] by (simp add: strcpy_def)
  moreover have "memcpy dest src (of_nat k) m x = (if unat (x - dest) < k then m (src + (x - dest)) else m x)" for x
    using memcpy_eq [OF f] k assms(5) by auto
  ultimately show ?thesis using k by auto
qed

theorem strcpy_drops_terminator_witness:
  "\<exists>m'. strcpy 16 0 (\<lambda>a. if a = 2 then 0 else 65) = Some m' \<and> m' 18 = 65"
proof -
  let ?m = "\<lambda>a :: u64. if a = 2 then 0 else 65 :: u8"
  have z: "?m (0 + of_nat 2) = 0" by simp
  have nz: "\<forall>j<2. ?m (0 + of_nat j) \<noteq> 0" by (auto simp: less_2_cases_iff)
  have "\<exists>m'. strcpy 16 0 ?m = Some m' \<and> (\<forall>i<2. m' (16 + of_nat i) = ?m (0 + of_nat i)) \<and> m' (16 + of_nat 2) = ?m (16 + of_nat 2)"
    by (rule strcpy_drops_terminator [OF z nz]) simp_all
  then show ?thesis by auto
qed

end
