(* ===== verification/Semaphores.thy ===== *)
theory Semaphores
  imports Mutex
begin

text \<open>
  \<open>ConditionVariable\<close> and \<open>Sempahore\<close> (\<open>kernel/kernel/concurrency/primitives.cpp\<close>) on top of \<open>MutexLock\<close>, under
  every interleaving of threads. A thread has a program counter in the semaphore operations, and one in the
  mutex operation it has called (theory \<open>Mutex\<close>). A step is one access to a shared field or one call of \<open>setpark\<close>,
  \<open>park\<close> or \<open>unpark\<close>; as in \<open>Mutex\<close>, a parked thread continues when it is scheduled again. The counter stays far from
  the bounds of its type.
\<close>

section \<open>State\<close>

record Semaphore =
  svalue :: int
  cvlock :: int
  cvqueue :: "u64 list"

datatype SPc = SIdle | WaitDone
  | WaitAcq | WaitTest | WaitDec | WaitRel
  | CvSpin | CvRel | CvPush | CvSetpark | CvUnlock | CvPark
  | PostAcq | PostInc | OneSpin | OneTest | OneUnpark u64 | OneUnlock | PostRel
  | AllSpin | AllTest | is_AllUnpark: AllUnpark u64 | AllUnlock

datatype SemOp = Wait | Post | NotifyAll

record SSys =
  base :: MSys
  sem :: Semaphore
  spcs :: "u64 \<Rightarrow> SPc"

definition sgoto :: "u64 \<Rightarrow> SPc \<Rightarrow> SSys \<Rightarrow> SSys" where
  "sgoto t pc s = s\<lparr>spcs := (spcs s)(t := pc)\<rparr>"

text \<open>Calls of the mutex: \<open>enter\<close> begins one, and the steps of the mutex run until it has returned.\<close>

definition enter :: "u64 \<Rightarrow> Pc \<Rightarrow> SSys \<Rightarrow> SSys" where
  "enter t pc s = s\<lparr>base := goto t pc (base s)\<rparr>"

definition acquire_then :: "u64 \<Rightarrow> SPc \<Rightarrow> SSys \<Rightarrow> SSys option" where
  "acquire_then t nxt s = (if pcs (base s) t = Held then Some (sgoto t nxt s)
     else map_option (\<lambda>b. s\<lparr>base := b\<rparr>) (acquireLock t (pcs (base s) t) (base s)))"

definition release_then :: "u64 \<Rightarrow> SPc \<Rightarrow> SSys \<Rightarrow> SSys option" where
  "release_then t nxt s = (if pcs (base s) t = Idle then Some (sgoto t nxt s)
     else map_option (\<lambda>b. s\<lparr>base := b\<rparr>) (releaseLock t (pcs (base s) t) (base s)))"

text \<open>The spin loop on the guard of the condition variable.\<close>

definition cvSpin :: "u64 \<Rightarrow> SPc \<Rightarrow> SSys \<Rightarrow> SSys" where
  "cvSpin t nxt s = (let old = cvlock (sem s);
       s1 = (if old = 0 then s\<lparr>sem := (sem s)\<lparr>cvlock := 1\<rparr>\<rparr> else s)
     in if old = 1 then s1 else sgoto t nxt s1)"

section \<open>\<open>ConditionVariable\<close>\<close>

fun condition_wait :: "u64 \<Rightarrow> SPc \<Rightarrow> SPc \<Rightarrow> SSys \<Rightarrow> SSys option" where
  "condition_wait t ret CvSpin s =
     (let s1 = cvSpin t CvRel s in Some (if spcs s1 t = CvRel then enter t RelSpin s1 else s1))"
| "condition_wait t ret CvRel s = release_then t CvPush s"
| "condition_wait t ret CvPush s = Some (sgoto t CvSetpark (s\<lparr>sem := (sem s)\<lparr>cvqueue := cvqueue (sem s) @ [t]\<rparr>\<rparr>))"
| "condition_wait t ret CvSetpark s =
     map_option (\<lambda>k. sgoto t CvUnlock (s\<lparr>base := (base s)\<lparr>kern := k\<rparr>\<rparr>)) (setState t DO_NOT_DISTURB (kern (base s)))"
| "condition_wait t ret CvUnlock s = Some (sgoto t CvPark (s\<lparr>sem := (sem s)\<lparr>cvlock := 0\<rparr>\<rparr>))"
| "condition_wait t ret CvPark s =
     map_option (\<lambda>k. sgoto t ret (s\<lparr>base := (base s)\<lparr>kern := k\<rparr>\<rparr>)) (setState t RUNNING (kern (base s)))"
| "condition_wait t ret _ s = Some s"

definition popWaiter :: "u64 \<Rightarrow> (u64 \<Rightarrow> SPc) \<Rightarrow> SSys \<Rightarrow> SSys" where
  "popWaiter t nxt s = sgoto t (nxt (last (cvqueue (sem s)))) (s\<lparr>sem := (sem s)\<lparr>cvqueue := butlast (cvqueue (sem s))\<rparr>\<rparr>)"

fun notifyOne :: "u64 \<Rightarrow> SPc \<Rightarrow> SPc \<Rightarrow> SSys \<Rightarrow> SSys option" where
  "notifyOne t ret OneSpin s = Some (cvSpin t OneTest s)"
| "notifyOne t ret OneTest s = Some (if length (cvqueue (sem s)) \<noteq> 0 then popWaiter t OneUnpark s else sgoto t OneUnlock s)"
| "notifyOne t ret (OneUnpark x) s =
     map_option (\<lambda>k. sgoto t OneUnlock (s\<lparr>base := (base s)\<lparr>kern := k\<rparr>\<rparr>)) (unpark x (kern (base s)))"
| "notifyOne t ret OneUnlock s = Some (sgoto t ret (s\<lparr>sem := (sem s)\<lparr>cvlock := 0\<rparr>\<rparr>))"
| "notifyOne t ret _ s = Some s"

fun notifyAll :: "u64 \<Rightarrow> SPc \<Rightarrow> SPc \<Rightarrow> SSys \<Rightarrow> SSys option" where
  "notifyAll t ret AllSpin s = Some (cvSpin t AllTest s)"
| "notifyAll t ret AllTest s = Some (if length (cvqueue (sem s)) \<noteq> 0 then popWaiter t AllUnpark s else sgoto t AllUnlock s)"
| "notifyAll t ret (AllUnpark x) s =
     map_option (\<lambda>k. sgoto t AllTest (s\<lparr>base := (base s)\<lparr>kern := k\<rparr>\<rparr>)) (unpark x (kern (base s)))"
| "notifyAll t ret AllUnlock s = Some (sgoto t ret (s\<lparr>sem := (sem s)\<lparr>cvlock := 0\<rparr>\<rparr>))"
| "notifyAll t ret _ s = Some s"

section \<open>\<open>Sempahore\<close>\<close>

fun sem_wait :: "u64 \<Rightarrow> SPc \<Rightarrow> SSys \<Rightarrow> SSys option" where
  "sem_wait t WaitAcq s = acquire_then t WaitTest s"
| "sem_wait t WaitTest s = Some (sgoto t (if svalue (sem s) \<le> 0 then CvSpin else WaitDec) s)"
| "sem_wait t WaitDec s = Some (enter t RelSpin (sgoto t WaitRel (s\<lparr>sem := (sem s)\<lparr>svalue := svalue (sem s) - 1\<rparr>\<rparr>)))"
| "sem_wait t WaitRel s = release_then t WaitDone s"
| "sem_wait t pc s = condition_wait t WaitTest pc s"

fun sem_post :: "u64 \<Rightarrow> SPc \<Rightarrow> SSys \<Rightarrow> SSys option" where
  "sem_post t PostAcq s = acquire_then t PostInc s"
| "sem_post t PostInc s = Some (sgoto t OneSpin (s\<lparr>sem := (sem s)\<lparr>svalue := svalue (sem s) + 1\<rparr>\<rparr>))"
| "sem_post t OneUnlock s = map_option (enter t RelSpin) (notifyOne t PostRel OneUnlock s)"
| "sem_post t PostRel s = release_then t SIdle s"
| "sem_post t pc s = notifyOne t PostRel pc s"

fun begin_op :: "SemOp \<Rightarrow> u64 \<Rightarrow> SSys \<Rightarrow> SSys" where
  "begin_op Wait t s = enter t AcqSpin (sgoto t WaitAcq s)"
| "begin_op Post t s = enter t AcqSpin (sgoto t PostAcq s)"
| "begin_op NotifyAll t s = sgoto t AllSpin s"

definition sem_step :: "SemOp \<Rightarrow> u64 \<Rightarrow> SSys \<Rightarrow> SSys option" where
  "sem_step op t s =
    (let pc = spcs s t in
     if pc = SIdle \<or> pc = WaitDone then Some (begin_op op t s)
     else if pc \<in> {WaitAcq, WaitTest, WaitDec, WaitRel, CvSpin, CvRel, CvPush, CvSetpark, CvUnlock, CvPark} then sem_wait t pc s
     else if pc \<in> {AllSpin, AllTest, AllUnlock} \<or> is_AllUnpark pc then notifyAll t SIdle pc s
     else sem_post t pc s)"

inductive sstep :: "SSys \<Rightarrow> SSys \<Rightarrow> bool" where
  "sem_step op t s = Some s' \<Longrightarrow> sstep s s'"

definition sem_start :: "int \<Rightarrow> KState \<Rightarrow> SSys" where
  "sem_start n k = \<lparr>base = mutex_start k, sem = \<lparr>svalue = n, cvlock = 0, cvqueue = []\<rparr>, spcs = (\<lambda>_. SIdle)\<rparr>"

fun run_sem :: "(SemOp \<times> u64) list \<Rightarrow> SSys \<Rightarrow> SSys option" where
  "run_sem [] s = Some s"
| "run_sem ((op, t) # ts) s = Option.bind (sem_step op t s) (run_sem ts)"

lemma run_sem_reach: "run_sem ts s = Some s' \<Longrightarrow> sstep\<^sup>*\<^sup>* s s'"
proof (induction ts arbitrary: s)
  case (Cons a ts)
  obtain op t where a: "a = (op, t)" by fastforce
  then obtain s1 where "sem_step op t s = Some s1" "run_sem ts s1 = Some s'" using Cons.prems by (auto simp: bind_eq_Some_conv)
  then show ?case using Cons.IH [of s1] sstep.intros by (meson converse_rtranclp_into_rtranclp)
qed simp

section \<open>Return from \<open>ConditionVariable::wait\<close>\<close>

lemma mutex_ops_local:
  "acquireLock t pc b = Some b' \<Longrightarrow> u \<noteq> t \<Longrightarrow> pcs b' u = pcs b u"
  "releaseLock t pc b = Some b' \<Longrightarrow> u \<noteq> t \<Longrightarrow> pcs b' u = pcs b u"
  by (cases pc; auto simp: spin_def Let_def)+

lemma s_simps [simp]:
  "base (sgoto t pc s) = base s" "sem (sgoto t pc s) = sem s" "spcs (sgoto t pc s) = (spcs s)(t := pc)"
  "sem (enter t q s) = sem s" "spcs (enter t q s) = spcs s" "pcs (base (enter t q s)) = (pcs (base s))(t := q)"
  by (simp_all add: sgoto_def enter_def)

text \<open>A step of \<open>t\<close> moves no other thread, and reaches the part of \<open>wait\<close> behind the release only when the
  mutex is not held by \<open>t\<close> any more.\<close>

definition unlocked_pc :: "SPc \<Rightarrow> bool" where
  "unlocked_pc pc \<longleftrightarrow> pc \<in> {CvPush, CvSetpark, CvUnlock, CvPark}"

definition wait_inv :: "SSys \<Rightarrow> bool" where
  "wait_inv s \<longleftrightarrow> (\<forall>t. unlocked_pc (spcs s t) \<longrightarrow> pcs (base s) t = Idle)"

lemma then_local:
  assumes "acquire_then t nxt s = Some s' \<or> release_then t nxt s = Some s'"
  shows "u \<noteq> t \<Longrightarrow> spcs s' u = spcs s u \<and> pcs (base s') u = pcs (base s) u"
    "spcs s' t = spcs s t \<or> spcs s' t = nxt"
  using assms by (auto simp: acquire_then_def release_then_def mutex_ops_local split: if_splits)

lemma release_then_idle: "release_then t nxt s = Some s' \<Longrightarrow> spcs s' t \<noteq> spcs s t \<Longrightarrow> pcs (base s') t = Idle"
  by (auto simp: release_then_def split: if_splits)

lemma cvSpin_local:
  "u \<noteq> t \<Longrightarrow> spcs (cvSpin t nxt s) u = spcs s u" "base (cvSpin t nxt s) = base s"
  "spcs (cvSpin t nxt s) t = spcs s t \<or> spcs (cvSpin t nxt s) t = nxt"
  by (simp_all add: cvSpin_def Let_def)

text \<open>\<open>moved t s s'\<close>: only \<open>t\<close> has moved, and into the unlocked part only with the mutex released.\<close>

definition moved :: "u64 \<Rightarrow> SSys \<Rightarrow> SSys \<Rightarrow> bool" where
  "moved t s s' \<longleftrightarrow> (\<forall>u. u \<noteq> t \<longrightarrow> spcs s' u = spcs s u \<and> pcs (base s') u = pcs (base s) u) \<and>
     (unlocked_pc (spcs s' t) \<longrightarrow> pcs (base s') t = Idle \<or> unlocked_pc (spcs s t) \<and> pcs (base s') t = pcs (base s) t)"

lemma moved_acquire: "acquire_then t nxt s = Some s' \<Longrightarrow> \<not> unlocked_pc nxt \<Longrightarrow> \<not> unlocked_pc (spcs s t) \<Longrightarrow> moved t s s'"
  using then_local [of t nxt s s'] unfolding moved_def by metis

lemma moved_release: "release_then t nxt s = Some s' \<Longrightarrow> spcs s t \<noteq> nxt \<Longrightarrow> \<not> unlocked_pc (spcs s t) \<Longrightarrow> moved t s s'"
  using then_local [of t nxt s s'] release_then_idle [of t nxt s s'] unfolding moved_def by metis

lemma moved_spin: "\<not> unlocked_pc nxt \<Longrightarrow> \<not> unlocked_pc (spcs s t) \<Longrightarrow> moved t s (cvSpin t nxt s)"
  by (auto simp: moved_def cvSpin_def Let_def)

lemma moved_goto:
  "base s' = base s \<or> (\<exists>k. base s' = (base s)\<lparr>kern := k\<rparr>) \<Longrightarrow> spcs s' = (spcs s)(t := pc) \<Longrightarrow>
    unlocked_pc pc \<longrightarrow> unlocked_pc (spcs s t) \<Longrightarrow> moved t s s'"
  by (auto simp: moved_def)

lemma moved_enter: "moved t s s' \<Longrightarrow> \<not> unlocked_pc (spcs s' t) \<Longrightarrow> moved t s (enter t q s')"
  by (auto simp: moved_def)

lemmas pc_simps = unlocked_pc_def sgoto_def popWaiter_def

lemma condition_wait_moved:
  assumes "condition_wait t WaitTest pc s = Some s'" "spcs s t = pc"
  shows "moved t s s'"
proof (cases pc)
  case CvSpin
  have "moved t s (cvSpin t CvRel s)" using assms(2) CvSpin by (intro moved_spin) (simp_all add: pc_simps)
  then show ?thesis using assms(1) CvSpin moved_enter [of t s "cvSpin t CvRel s"]
    by (auto simp: Let_def unlocked_pc_def split: if_splits)
next
  case CvRel
  then show ?thesis using assms by (intro moved_release [of t CvPush]) (simp_all add: pc_simps)
next
  case CvPush
  then show ?thesis using assms by (intro moved_goto [of s' s t CvSetpark]) (auto simp: pc_simps)
next
  case CvSetpark
  then show ?thesis using assms by (intro moved_goto [of s' s t CvUnlock]) (auto simp: pc_simps)
next
  case CvUnlock
  then show ?thesis using assms by (intro moved_goto [of s' s t CvPark]) (auto simp: pc_simps)
next
  case CvPark
  then show ?thesis using assms by (intro moved_goto [of s' s t WaitTest]) (auto simp: pc_simps)
qed (use assms in \<open>auto simp: moved_def\<close>)

lemma moved_pop: "\<not> unlocked_pc (nxt (last (cvqueue (sem s)))) \<Longrightarrow> moved t s (popWaiter t nxt s)"
  by (rule moved_goto [of _ s t "nxt (last (cvqueue (sem s)))"]) (simp_all add: popWaiter_def)

lemma moved_kern: "map_option (\<lambda>k. sgoto t pc (s\<lparr>base := (base s)\<lparr>kern := k\<rparr>\<rparr>)) x = Some s' \<Longrightarrow> \<not> unlocked_pc pc \<Longrightarrow> moved t s s'"
  by (rule moved_goto [of s' s t pc]) auto

lemma moved_unlock: "\<not> unlocked_pc pc \<Longrightarrow> moved t s (sgoto t pc (s\<lparr>sem := x\<rparr>))" "\<not> unlocked_pc pc \<Longrightarrow> moved t s (sgoto t pc s)"
  by (rule moved_goto [of _ s t pc]; simp)+

lemma unlocked_simps [simp]:
  "\<not> unlocked_pc OneTest" "\<not> unlocked_pc (OneUnpark x)" "\<not> unlocked_pc OneUnlock" "\<not> unlocked_pc AllTest"
  "\<not> unlocked_pc (AllUnpark x)" "\<not> unlocked_pc AllUnlock" "\<not> unlocked_pc OneSpin" "\<not> unlocked_pc AllSpin"
  "\<not> unlocked_pc WaitTest" "\<not> unlocked_pc WaitDone" "\<not> unlocked_pc PostRel" "\<not> unlocked_pc SIdle" "\<not> unlocked_pc WaitAcq"
  "\<not> unlocked_pc WaitRel" "\<not> unlocked_pc PostAcq" "\<not> unlocked_pc PostInc" "\<not> unlocked_pc CvSpin" "\<not> unlocked_pc WaitDec"
  by (simp_all add: unlocked_pc_def)

lemma moved_refl: "moved t s s"
  by (simp add: moved_def)

lemma notifyOne_moved:
  assumes "notifyOne t ret pc s = Some s'" "spcs s t = pc" "\<not> unlocked_pc ret"
  shows "moved t s s'"
proof (cases pc)
  case OneSpin
  then show ?thesis using assms moved_spin [of OneTest s t] by simp
next
  case OneTest
  then show ?thesis using assms moved_pop [of OneUnpark s t] moved_unlock(2) [of OneUnlock t s] by (simp split: if_splits)
next
  case (OneUnpark x)
  then show ?thesis using assms moved_kern [of t OneUnlock s "unpark x (kern (base s))" s'] by simp
next
  case OneUnlock
  then show ?thesis using assms moved_unlock(1) [of ret t s] by auto
qed (use assms moved_refl in simp_all)

lemma notifyAll_moved:
  assumes "notifyAll t ret pc s = Some s'" "spcs s t = pc" "\<not> unlocked_pc ret"
  shows "moved t s s'"
proof (cases pc)
  case AllSpin
  then show ?thesis using assms moved_spin [of AllTest s t] by simp
next
  case AllTest
  then show ?thesis using assms moved_pop [of AllUnpark s t] moved_unlock(2) [of AllUnlock t s] by (simp split: if_splits)
next
  case (AllUnpark x)
  then show ?thesis using assms moved_kern [of t AllTest s "unpark x (kern (base s))" s'] by simp
next
  case AllUnlock
  then show ?thesis using assms moved_unlock(1) [of ret t s] by auto
qed (use assms moved_refl in simp_all)

lemma sem_wait_moved:
  assumes "sem_wait t pc s = Some s'" "spcs s t = pc"
  shows "moved t s s'"
proof (cases "pc \<in> {WaitAcq, WaitTest, WaitDec, WaitRel}")
  case True
  then consider "pc = WaitAcq" | "pc = WaitTest" | "pc = WaitDec" | "pc = WaitRel" by blast
  then show ?thesis
  proof cases
    case 1
    then show ?thesis using assms by (intro moved_acquire [of t WaitTest]) simp_all
  next
    case 2
    then show ?thesis using assms moved_unlock(2) [of CvSpin t s] moved_unlock(2) [of WaitDec t s] by (simp split: if_splits)
  next
    case 3
    then show ?thesis using assms moved_enter [OF moved_unlock(1) [of WaitRel t s]] by auto
  next
    case 4
    then show ?thesis using assms by (intro moved_release [of t WaitDone]) simp_all
  qed
next
  case False
  then have "sem_wait t pc s = condition_wait t WaitTest pc s" by (cases pc) simp_all
  then show ?thesis using assms condition_wait_moved by simp
qed

lemma sem_post_moved:
  assumes "sem_post t pc s = Some s'" "spcs s t = pc"
  shows "moved t s s'"
proof (cases "pc \<in> {PostAcq, PostInc, OneUnlock, PostRel}")
  case True
  then consider "pc = PostAcq" | "pc = PostInc" | "pc = OneUnlock" | "pc = PostRel" by blast
  then show ?thesis
  proof cases
    case 1
    then show ?thesis using assms by (intro moved_acquire [of t PostInc]) simp_all
  next
    case 2
    then show ?thesis using assms moved_unlock(1) [of OneSpin t s] by auto
  next
    case 3
    then show ?thesis using assms moved_enter [OF moved_unlock(1) [of PostRel t s]] by auto
  next
    case 4
    then show ?thesis using assms by (intro moved_release [of t SIdle]) simp_all
  qed
next
  case False
  then have "sem_post t pc s = notifyOne t PostRel pc s" by (cases pc) simp_all
  then show ?thesis using assms notifyOne_moved by simp
qed

lemma sem_step_moved:
  assumes "sem_step op t s = Some s'"
  shows "moved t s s'"
proof -
  have "moved t s (begin_op op t s)" by (cases op) (auto simp: moved_def unlocked_pc_def)
  then show ?thesis
    using assms sem_wait_moved [of t "spcs s t" s s'] sem_post_moved [of t "spcs s t" s s'] notifyAll_moved [of t SIdle "spcs s t" s s']
    unfolding sem_step_def Let_def by (auto simp: unlocked_pc_def split: if_splits)
qed

lemma wait_inv_reach: "sstep\<^sup>*\<^sup>* (sem_start n k) s \<Longrightarrow> wait_inv s"
proof (induction rule: rtranclp_induct)
  case base
  then show ?case by (simp add: wait_inv_def sem_start_def unlocked_pc_def)
next
  case (step s s')
  then obtain op t where st: "sem_step op t s = Some s'" by (auto elim: sstep.cases)
  have "pcs (SSys.base s') u = Idle" if "unlocked_pc (spcs s' u)" for u
    using sem_step_moved [OF st] step.IH that by (cases "u = t") (auto simp: wait_inv_def moved_def)
  then show ?case by (simp add: wait_inv_def)
qed

section \<open>Properties\<close>

text \<open>C13: \<open>ConditionVariable::wait\<close> returns without the mutex: in every execution, the step that ends a wait takes the
  thread back to the test of the semaphore's counter although it does not own the mutex that the
  precondition of \<open>wait\<close> demands and that protects the counter.\<close>

theorem condition_wait_loses_mutex:
  assumes "sstep\<^sup>*\<^sup>* (sem_start n k) s" "spcs s t = CvPark" "sem_step op t s = Some s'"
  shows "spcs s' t = WaitTest \<and> \<not> owns (pcs (base s') t)"
proof -
  have "pcs (base s) t = Idle" using wait_inv_reach [OF assms(1)] assms(2) by (simp add: wait_inv_def unlocked_pc_def)
  then show ?thesis using assms(2,3) by (auto simp: sem_step_def Let_def)
qed

definition three_threads :: KState where
  "three_threads = \<lparr>kthreads = [demo_thread 1 RUNNING, demo_thread 2 RUNNING, demo_thread 3 RUNNING], currKThreadIdx = 0, currId = 4\<rparr>"

definition block_schedule :: "u64 \<Rightarrow> (SemOp \<times> u64) list" where
  "block_schedule t = replicate 16 (Wait, t)"

theorem condition_wait_loses_mutex_witness:
  "\<exists>s s'. run_sem (block_schedule 1) (sem_start 0 three_threads) = Some s \<and> sem_step Wait 1 s = Some s' \<and>
    spcs s' 1 = WaitTest \<and> \<not> owns (pcs (base s') 1)"
proof -
  have "map_option (\<lambda>s. spcs s 1) (run_sem (block_schedule 1) (sem_start 0 three_threads)) = Some CvPark"
    unfolding block_schedule_def by code_simp
  then obtain s where s: "run_sem (block_schedule 1) (sem_start 0 three_threads) = Some s" "spcs s 1 = CvPark" by auto
  have "map_option (\<lambda>s. spcs s 1) (Option.bind (run_sem (block_schedule 1) (sem_start 0 three_threads)) (sem_step Wait 1)) = Some WaitTest"
    unfolding block_schedule_def by code_simp
  then obtain s' where s': "sem_step Wait 1 s = Some s'" using s by auto
  show ?thesis using condition_wait_loses_mutex [OF run_sem_reach [OF s(1)] s(2) s'] s s' by blast
qed

section \<open>Permits\<close>

text \<open>A state in which the mutex and the guard of the condition variable are free.\<close>

definition free_state :: "u64 list \<Rightarrow> int \<Rightarrow> (u64 \<Rightarrow> SPc) \<Rightarrow> (u64 \<Rightarrow> Pc) \<Rightarrow> KState \<Rightarrow> SSys" where
  "free_state q v sp pc k = \<lparr>base = \<lparr>mutex = initialMutex, pcs = pc, kern = k\<rparr>, sem = \<lparr>svalue = v, cvlock = 0, cvqueue = q\<rparr>, spcs = sp\<rparr>"

lemma replicate_numeral: "replicate (numeral n) x = x # replicate (pred_numeral n) x"
  by (simp add: numeral_eq_Suc)

lemmas run_defs = free_state_def initialMutex_def sem_step_def sgoto_def enter_def acquire_then_def release_then_def goto_def spin_def cvSpin_def
  popWaiter_def Let_def replicate_numeral

text \<open>Whole calls, run without interruption: a wait on a counter of 0 up to the call of \<open>park\<close>, a post with a waiter, the return from \<open>park\<close>, the
  test of a positive counter, and the rest of a wait.\<close>

lemma run_block:
  "sp t = SIdle \<Longrightarrow> setState t DO_NOT_DISTURB k = Some k' \<Longrightarrow>
    run_sem (block_schedule t) (free_state q 0 sp pc k) = Some (free_state (q @ [t]) 0 (sp(t := CvPark)) (pc(t := Idle)) k')"
  unfolding block_schedule_def by (simp add: run_defs)

lemma run_post:
  "sp t = SIdle \<Longrightarrow> unpark x k = Some k' \<Longrightarrow>
    run_sem (replicate 16 (Post, t)) (free_state (q @ [x]) v sp pc k) = Some (free_state q (v + 1) (sp(t := SIdle)) (pc(t := Idle)) k')"
  by (simp add: run_defs)

lemma run_wake:
  "sp t = CvPark \<Longrightarrow> setState t RUNNING k = Some k' \<Longrightarrow>
    run_sem [(Wait, t)] (free_state q v sp pc k) = Some (free_state q v (sp(t := WaitTest)) pc k')"
  by (simp add: run_defs)

lemma run_test: "sp t = WaitTest \<Longrightarrow> 0 < v \<Longrightarrow> run_sem [(Wait, t)] (free_state q v sp pc k) = Some (free_state q v (sp(t := WaitDec)) pc k)"
  by (simp add: run_defs)

lemma run_leave:
  "sp t = WaitDec \<Longrightarrow> run_sem (replicate 6 (Wait, t)) (free_state q v sp pc k) = Some (free_state q (v - 1) (sp(t := WaitDone)) (pc(t := Idle)) k)"
  by (simp add: run_defs)

abbreviation ids :: "KState \<Rightarrow> u64 set" where "ids k \<equiv> tid ` set (kthreads k)"

lemma findTask_member: "x \<in> tid ` set ts \<Longrightarrow> findTask x ts < length ts"
  by (induction ts) auto

lemma setState_ids:
  assumes "x \<in> ids k"
  obtains k' where "setState x st k = Some k'" "ids k' = ids k"
proof -
  have l: "findTask x (kthreads k) < length (kthreads k)" using findTask_member [OF assms] .
  have "map tid ((kthreads k)[i := tstate_update (\<lambda>_. st) (kthreads k ! i)]) = map tid (kthreads k)" if "i < length (kthreads k)" for i
    using that by (simp add: map_update list_update_same_conv)
  then have "tid ` set ((kthreads k)[i := tstate_update (\<lambda>_. st) (kthreads k ! i)]) = ids k" if "i < length (kthreads k)" for i
    using that by (metis set_map)
  then show thesis using that l by (simp add: setState_def getThread_def updThread_def)
qed

lemma unpark_setState: "unpark x k = setState x RUNNING k"
  by (simp add: unpark_def setState_def)

text \<open>A phase in which every thread of a list does the same.\<close>

lemma phase:
  assumes "\<And>t q v sp pc k. sp t = a \<Longrightarrow> t \<in> ids k \<Longrightarrow> ok v \<Longrightarrow>
      \<exists>pc' k'. sstep\<^sup>*\<^sup>* (free_state q v sp pc k) (free_state (f t q) (g v) (sp(t := b)) pc' k') \<and> ids k' = ids k"
    and "\<And>v. ok v \<Longrightarrow> ok (g v)"
  shows "distinct ts \<Longrightarrow> \<forall>t\<in>set ts. sp t = a \<Longrightarrow> set ts \<subseteq> ids k \<Longrightarrow> ok v \<Longrightarrow>
    \<exists>sp' pc' k'. sstep\<^sup>*\<^sup>* (free_state q v sp pc k) (free_state (fold f ts q) ((g ^^ length ts) v) sp' pc' k') \<and> ids k' = ids k \<and>
      (\<forall>u. sp' u = (if u \<in> set ts then b else sp u))"
proof (induction ts arbitrary: q v sp pc k)
  case (Cons t ts)
  obtain pc1 k1 where s1: "sstep\<^sup>*\<^sup>* (free_state q v sp pc k) (free_state (f t q) (g v) (sp(t := b)) pc1 k1)" "ids k1 = ids k"
    using assms(1) [of sp t k v q pc] Cons.prems by auto
  have p: "distinct ts" "\<forall>u\<in>set ts. (sp(t := b)) u = a" "set ts \<subseteq> ids k1" "ok (g v)"
    using Cons.prems s1(2) assms(2) by auto
  obtain sp' pc' k' where s2: "sstep\<^sup>*\<^sup>* (free_state (f t q) (g v) (sp(t := b)) pc1 k1) (free_state (fold f ts (f t q)) ((g ^^ length ts) (g v)) sp' pc' k')"
      "ids k' = ids k1" "\<forall>u. sp' u = (if u \<in> set ts then b else (sp(t := b)) u)"
    using Cons.IH [OF p, of "f t q" pc1] by blast
  have e: "fold f (t # ts) q = fold f ts (f t q)" "(g ^^ length (t # ts)) v = (g ^^ length ts) (g v)" by (simp_all add: funpow_swap1)
  have "\<forall>u. sp' u = (if u \<in> set (t # ts) then b else sp u)" using s2(3) by auto
  moreover have "ids k' = ids k" using s1(2) s2(2) by (rule trans [rotated])
  ultimately show ?case unfolding e by (intro exI [of _ sp'] exI [of _ pc'] exI [of _ k'] conjI rtranclp_trans [OF s1(1) s2(1)])
qed auto

lemma block_phase:
  assumes "sp t = SIdle" "t \<in> ids k" "v = 0"
  shows "\<exists>pc' k'. sstep\<^sup>*\<^sup>* (free_state q v sp pc k) (free_state (q @ [t]) v (sp(t := CvPark)) pc' k') \<and> ids k' = ids k"
proof -
  obtain k' where "setState t DO_NOT_DISTURB k = Some k'" "ids k' = ids k" by (rule setState_ids [OF assms(2)])
  then show ?thesis using run_sem_reach [OF run_block [where t = t and sp = sp and q = q and pc = pc], OF assms(1)] assms(3) by blast
qed

lemma wake_phase:
  assumes "sp t = CvPark" "t \<in> ids k"
  shows "\<exists>pc' k'. sstep\<^sup>*\<^sup>* (free_state q v sp pc k) (free_state q v (sp(t := WaitTest)) pc' k') \<and> ids k' = ids k"
proof -
  obtain k' where "setState t RUNNING k = Some k'" "ids k' = ids k" by (rule setState_ids [OF assms(2)])
  then show ?thesis using run_sem_reach [OF run_wake [where t = t and sp = sp and q = q and pc = pc and v = v], OF assms(1)] by blast
qed

lemma test_phase:
  assumes "sp t = WaitTest" "0 < v"
  shows "\<exists>pc' k'. sstep\<^sup>*\<^sup>* (free_state q v sp pc k) (free_state q v (sp(t := WaitDec)) pc' k') \<and> ids k' = ids k"
  using run_sem_reach [OF run_test [where t = t and sp = sp and v = v], OF assms] by blast

lemma leave_phase:
  assumes "sp t = WaitDec"
  shows "\<exists>pc' k'. sstep\<^sup>*\<^sup>* (free_state q v sp pc k) (free_state q (v - 1) (sp(t := WaitDone)) pc' k') \<and> ids k' = ids k"
  using run_sem_reach [OF run_leave [where t = t and sp = sp and v = v], OF assms] by blast

lemma fold_snoc: "fold (\<lambda>t q. q @ [t]) ts q = q @ ts"
  by (induction ts arbitrary: q) auto

lemma fold_keep: "fold (\<lambda>t q. q) ts q = q" "((\<lambda>v. v) ^^ n) v = v"
proof -
  show "fold (\<lambda>t q. q) ts q = q" by (induction ts) simp_all
  show "((\<lambda>v. v) ^^ n) v = v" by (induction n) simp_all
qed

lemma funpow_minus: "((\<lambda>v. v - 1) ^^ n) (v :: int) = v - int n"
  by (induction n) auto

text \<open>All threads of a list block on a counter of 0; blocked threads all pass a counter of 1.\<close>

lemma block_all:
  assumes "distinct ts" "set ts \<subseteq> ids k"
  obtains sp pc k' where "sstep\<^sup>*\<^sup>* (sem_start 0 k) (free_state ts 0 sp pc k')" "ids k' = ids k" "\<forall>u. sp u = (if u \<in> set ts then CvPark else SIdle)"
proof -
  have start: "sem_start 0 k = free_state [] 0 (\<lambda>_. SIdle) (\<lambda>_. Idle) k" by (simp add: sem_start_def mutex_start_def free_state_def)
  have "\<exists>sp' pc' k'. sstep\<^sup>*\<^sup>* (free_state [] 0 (\<lambda>_. SIdle) (\<lambda>_. Idle) k)
      (free_state (fold (\<lambda>t q. q @ [t]) ts []) (((\<lambda>v. v) ^^ length ts) 0) sp' pc' k') \<and> ids k' = ids k \<and>
      (\<forall>u. sp' u = (if u \<in> set ts then CvPark else (\<lambda>_. SIdle) u))"
    by (rule phase [where ok = "\<lambda>v. v = 0" and a = SIdle]) (use block_phase assms in blast)+
  then show thesis using that unfolding start fold_snoc fold_keep append_Nil by blast
qed

lemma pass_all:
  assumes "distinct ts" "set ts \<subseteq> ids k" "\<forall>u. sp u = (if u \<in> set ts then CvPark else SIdle)"
  obtains sp' pc' k' where "sstep\<^sup>*\<^sup>* (free_state q 1 sp pc k) (free_state q (1 - int (length ts)) sp' pc' k')"
    "\<forall>u. sp' u = (if u \<in> set ts then WaitDone else SIdle)"
proof -
  have "\<exists>sp' pc' k'. sstep\<^sup>*\<^sup>* (free_state q 1 sp pc k) (free_state (fold (\<lambda>t q. q) ts q) (((\<lambda>v. v) ^^ length ts) 1) sp' pc' k') \<and>
      ids k' = ids k \<and> (\<forall>u. sp' u = (if u \<in> set ts then WaitTest else sp u))"
    by (rule phase [where ok = "\<lambda>v. True" and a = CvPark]) (use wake_phase assms in auto)
  then obtain sp1 pc1 k1 where 1: "sstep\<^sup>*\<^sup>* (free_state q 1 sp pc k) (free_state q 1 sp1 pc1 k1)" "ids k1 = ids k"
      "\<forall>u. sp1 u = (if u \<in> set ts then WaitTest else SIdle)" using assms(3) by (auto simp: fold_keep)
  have "\<exists>sp' pc' k'. sstep\<^sup>*\<^sup>* (free_state q 1 sp1 pc1 k1) (free_state (fold (\<lambda>t q. q) ts q) (((\<lambda>v. v) ^^ length ts) 1) sp' pc' k') \<and>
      ids k' = ids k1 \<and> (\<forall>u. sp' u = (if u \<in> set ts then WaitDec else sp1 u))"
    by (rule phase [where ok = "\<lambda>v. 0 < v" and a = WaitTest]) (use test_phase assms(1,2) 1(2,3) in auto)
  then obtain sp2 pc2 k2 where 2: "sstep\<^sup>*\<^sup>* (free_state q 1 sp1 pc1 k1) (free_state q 1 sp2 pc2 k2)" "ids k2 = ids k"
      "\<forall>u. sp2 u = (if u \<in> set ts then WaitDec else SIdle)" using 1(2,3) by (auto simp: fold_keep)
  have "\<exists>sp' pc' k'. sstep\<^sup>*\<^sup>* (free_state q 1 sp2 pc2 k2) (free_state (fold (\<lambda>t q. q) ts q) (((\<lambda>v. v - 1) ^^ length ts) 1) sp' pc' k') \<and>
      ids k' = ids k2 \<and> (\<forall>u. sp' u = (if u \<in> set ts then WaitDone else sp2 u))"
    by (rule phase [where ok = "\<lambda>v. True" and a = WaitDec]) (use leave_phase assms(1,2) 2(2,3) in auto)
  then obtain sp3 pc3 k3 where 3: "sstep\<^sup>*\<^sup>* (free_state q 1 sp2 pc2 k2) (free_state q (1 - int (length ts)) sp3 pc3 k3)"
      "\<forall>u. sp3 u = (if u \<in> set ts then WaitDone else SIdle)" using 2(3) by (auto simp: fold_keep funpow_minus)
  have "sstep\<^sup>*\<^sup>* (free_state q 1 sp pc k) (free_state q (1 - int (length ts)) sp3 pc3 k3)"
    using 1(1) 2(1) 3(1) by (meson rtranclp_trans)
  then show thesis using that 3(2) by blast
qed

text \<open>C14: the semaphore lets more threads pass than it has permits: for any threads \<open>ts\<close> and a thread \<open>p\<close> of the kernel there is an execution from a
  counter of 0 in which \<open>p\<close> posts once and all calls of \<open>wait\<close> by the threads \<open>ts\<close> return, so that the counter ends at one minus
  their number. The threads block one after the other, return from the condition variable without the mutex, and all test
  the counter before one of them decrements it.\<close>

theorem semaphore_overrun:
  assumes "distinct (p # ts)" "set (p # ts) \<subseteq> ids k" "ts \<noteq> []"
  shows "\<exists>s. sstep\<^sup>*\<^sup>* (sem_start 0 k) s \<and> (\<forall>t\<in>set ts. spcs s t = WaitDone) \<and> spcs s p = SIdle \<and> svalue (sem s) = 1 - int (length ts)"
proof -
  have d: "distinct ts" "set ts \<subseteq> ids k" "p \<notin> set ts" "last ts \<in> set ts" using assms by auto
  obtain sp1 pc1 k1 where 1: "sstep\<^sup>*\<^sup>* (sem_start 0 k) (free_state ts 0 sp1 pc1 k1)" "ids k1 = ids k" "\<forall>u. sp1 u = (if u \<in> set ts then CvPark else SIdle)"
    by (rule block_all [OF d(1,2)])
  have "last ts \<in> ids k1" using d(2,4) 1(2) by blast
  then obtain k2 where k2: "unpark (last ts) k1 = Some k2" "ids k2 = ids k" using setState_ids [of "last ts" k1 RUNNING] 1(2) unfolding unpark_setState by metis
  have "run_sem (replicate 16 (Post, p)) (free_state (butlast ts @ [last ts]) 0 sp1 pc1 k1) =
      Some (free_state (butlast ts) (0 + 1) (sp1(p := SIdle)) (pc1(p := Idle)) k2)"
    using 1(3) d(3) by (intro run_post [OF _ k2(1)]) simp
  then have 2: "sstep\<^sup>*\<^sup>* (free_state ts 0 sp1 pc1 k1) (free_state (butlast ts) 1 (sp1(p := SIdle)) (pc1(p := Idle)) k2)"
    using run_sem_reach assms(3) by simp
  have "set ts \<subseteq> ids k2" "\<forall>u. (sp1(p := SIdle)) u = (if u \<in> set ts then CvPark else SIdle)" using 1(3) d(2,3) k2(2) by auto
  from pass_all [OF d(1) this] obtain sp3 pc3 k3 where
    3: "sstep\<^sup>*\<^sup>* (free_state (butlast ts) 1 (sp1(p := SIdle)) (pc1(p := Idle)) k2) (free_state (butlast ts) (1 - int (length ts)) sp3 pc3 k3)"
      "\<forall>u. sp3 u = (if u \<in> set ts then WaitDone else SIdle)" by blast
  have "sstep\<^sup>*\<^sup>* (sem_start 0 k) (free_state (butlast ts) (1 - int (length ts)) sp3 pc3 k3)" using 1(1) 2 3(1) by (meson rtranclp_trans)
  then show ?thesis using 3(2) d(3) by (intro exI [of _ "free_state (butlast ts) (1 - int (length ts)) sp3 pc3 k3"]) (simp add: free_state_def)
qed

theorem semaphore_overrun_witness:
  "\<exists>s. sstep\<^sup>*\<^sup>* (sem_start 0 three_threads) s \<and> spcs s 1 = WaitDone \<and> spcs s 2 = WaitDone \<and> spcs s 3 = SIdle \<and> svalue (sem s) = - 1"
proof -
  have "ids three_threads = {1, 2, 3}" by (simp add: three_threads_def demo_thread_def new_Thread_def insert_commute)
  then show ?thesis using semaphore_overrun [of 3 "[1, 2]" three_threads] by auto
qed

end
