(* ===== verification/Bitset.thy ===== *)
theory Bitset
  imports Cpp_Vector
begin

text \<open>
  The bit set of \<open>kernel/include/kernel/cpp/bitset.hpp\<close>: bits kept in the 64-bit words of a
  \<open>Vector\<close>, read and written through a proxy that holds a word index and a bit offset.
\<close>

abbreviation (input) bitsPerBlock :: nat where "bitsPerBlock \<equiv> 64"

definition BlockMask :: u64 where "BlockMask = NOT 0"

text \<open>\<open>BitProxy\<close> applied to the word it refers to.\<close>

definition proxy_bool :: "nat \<Rightarrow> u64 \<Rightarrow> bool" where
  "proxy_bool offset w \<longleftrightarrow> w AND push_bit offset 1 \<noteq> 0"

definition proxy_assign :: "nat \<Rightarrow> u8 \<Rightarrow> u64 \<Rightarrow> u64" where
  "proxy_assign offset val w =
    (let w = w OR push_bit offset 1 in if val = 0 then w XOR push_bit offset 1 else w)"

record Bitset =
  bdata :: "u64 Vector"
  blen :: nat

definition bitset_len :: "nat \<Rightarrow> nat" where
  "bitset_len sz = (sz + bitsPerBlock - 1) div bitsPerBlock"

definition bitset_new :: "nat \<Rightarrow> Bitset" where
  "bitset_new sz = \<lparr>bdata = vec_new 0 (bitset_len sz) 0, blen = bitset_len sz\<rparr>"

definition bitset_get :: "nat \<Rightarrow> Bitset \<Rightarrow> bool" where
  "bitset_get idx b = proxy_bool (idx mod bitsPerBlock) (vdata (bdata b) ! (idx div bitsPerBlock))"

definition bitset_assign :: "nat \<Rightarrow> u8 \<Rightarrow> Bitset \<Rightarrow> Bitset" where
  "bitset_assign idx val b = (let k = idx div bitsPerBlock; v = bdata b
     in b\<lparr>bdata := v\<lparr>vdata := (vdata v)[k := proxy_assign (idx mod bitsPerBlock) val (vdata v ! k)]\<rparr>\<rparr>)"

definition bitset_flip :: "Bitset \<Rightarrow> Bitset" where
  "bitset_flip b = b\<lparr>bdata := (bdata b)\<lparr>vdata :=
     fold (\<lambda>i d. d[i := d ! i XOR BlockMask]) [0..<m_size (bdata b)] (vdata (bdata b))\<rparr>\<rparr>"

section \<open>Contract\<close>

lemma proxy_bool_bit: "offset < 64 \<Longrightarrow> proxy_bool offset w \<longleftrightarrow> bit w offset"
  using test_bit_mask [of offset w] by (simp add: proxy_bool_def)

lemma bit_proxy_assign:
  "offset < 64 \<Longrightarrow> k < 64 \<Longrightarrow> bit (proxy_assign offset val w) k \<longleftrightarrow> (if k = offset then val \<noteq> 0 else bit w k)"
  by (auto simp: proxy_assign_def Let_def bit_simps)

definition bitset_inv :: "nat \<Rightarrow> Bitset \<Rightarrow> bool" where
  "bitset_inv sz b \<longleftrightarrow> vec_inv (bdata b) \<and> m_size (bdata b) = bitset_len sz \<and> blen b = bitset_len sz"

lemma bitset_word: "bitset_inv sz b \<Longrightarrow> i < sz \<Longrightarrow> i div 64 < length (vdata (bdata b))"
proof -
  assume "bitset_inv sz b" "i < sz"
  then have "bitset_len sz \<le> length (vdata (bdata b))" "i div 64 < bitset_len sz"
    by (auto simp: bitset_inv_def vec_inv_def bitset_len_def)
  then show ?thesis by simp
qed

lemma fold_flip_nth:
  "n \<le> length d \<Longrightarrow> k < length d \<Longrightarrow> fold (\<lambda>i d. d[i := d ! i XOR m]) [0..<n] d ! k = (if k < n then d ! k XOR m else (d ! k :: u64))"
  "length (fold (\<lambda>i d. d[i := d ! i XOR m]) [0..<n] d) = length d"
  by (induction n) (auto simp: nth_list_update less_Suc_eq)

text \<open>A bit set of \<open>size\<close> bits starts with all bits clear; an assignment changes exactly the bit it
  names, to one for any non-zero value; \<open>flip\<close> inverts every bit; all of them keep the word vector
  large enough for every index below \<open>size\<close>.\<close>

theorem bitset_correct:
  assumes "bitset_inv sz b" "i < sz" "j < sz"
  shows "bitset_inv sz (bitset_new sz) \<and> \<not> bitset_get i (bitset_new sz) \<and>
    bitset_inv sz (bitset_assign j v b) \<and>
    (bitset_get i (bitset_assign j v b) \<longleftrightarrow> (if i = j then v \<noteq> 0 else bitset_get i b)) \<and>
    bitset_inv sz (bitset_flip b) \<and> (bitset_get i (bitset_flip b) \<longleftrightarrow> \<not> bitset_get i b)"
proof (intro conjI)
  have n: "bitset_inv sz (bitset_new sz)" by (simp add: bitset_inv_def bitset_new_def vec_new_spec)
  then show "bitset_inv sz (bitset_new sz)" .
  show "\<not> bitset_get i (bitset_new sz)"
    using bitset_word [OF n assms(2)] by (simp add: bitset_get_def bitset_new_def proxy_bool_def)
  show "bitset_inv sz (bitset_assign j v b)" "bitset_inv sz (bitset_flip b)"
    using assms(1) by (simp_all add: bitset_inv_def bitset_assign_def bitset_flip_def vec_inv_def Let_def fold_flip_nth)
  have w: "i div 64 < length (vdata (bdata b))" "j div 64 < length (vdata (bdata b))"
    using bitset_word [OF assms(1)] assms(2,3) by simp_all
  have ij: "i = j \<longleftrightarrow> i div 64 = j div 64 \<and> i mod 64 = j mod 64" by (metis div_mult_mod_eq)
  show "bitset_get i (bitset_assign j v b) \<longleftrightarrow> (if i = j then v \<noteq> 0 else bitset_get i b)"
    using w by (auto simp: ij bitset_get_def bitset_assign_def Let_def proxy_bool_bit bit_proxy_assign nth_list_update)
  have "m_size (bdata b) \<le> length (vdata (bdata b))" "i div 64 < m_size (bdata b)"
    using assms(1) w(1) bitset_word [OF n assms(2)] by (auto simp: bitset_inv_def vec_inv_def bitset_new_def)
  then show "bitset_get i (bitset_flip b) \<longleftrightarrow> \<not> bitset_get i b"
    using w by (simp add: bitset_get_def bitset_flip_def proxy_bool_bit fold_flip_nth) (simp add: BlockMask_def bit_simps)
qed

theorem bitset_correct_witness:
  "bitset_get 70 (bitset_assign 70 1 (bitset_new 100)) \<and> \<not> bitset_get 71 (bitset_assign 70 1 (bitset_new 100))"
proof -
  have n: "bitset_inv 100 (bitset_new 100)" by (simp add: bitset_inv_def bitset_new_def vec_new_spec)
  show ?thesis using bitset_correct [OF n, of 70 70 1] bitset_correct [OF n, of 71 70 1] by simp
qed

end
