(* ===== verification/Ram_Disk.thy ===== *)
theory Ram_Disk
  imports Bitset "HOL-Library.Monad_Syntax"
begin

text \<open>
  The RAM disk file system (\<open>kernel/include/kernel/filesystem/ramdisk.h\<close>,
  \<open>kernel/kernel/filesystem/ramdisk.cpp\<close>, \<open>resource.h\<close>) and its creation by \<open>createRamdisk\<close>
  (\<open>terminal.hpp\<close>). The memory of the disk behind the super block and the inodes, that is the data bit
  set followed by the data blocks, is one list of bytes, \<open>store\<close>; the 64-bit words of the bit set are
  little-endian accesses to it, so that a last word that reaches into the first data block does so in the
  model. A pointer to a data block is the number of the block, or \<^const>\<open>None\<close> for the null pointer.
  Sizes and offsets, which the code keeps far below \<open>2\<^sup>3\<^sup>2\<close>, are \<^typ>\<open>nat\<close>. An operation that follows a
  null block pointer, leaves a buffer, or names an inode that does not exist has no result
  (\<^const>\<open>None\<close>). A file
  system object is named by its device ID. Messages of \<open>printf\<close> are left out.
\<close>

section \<open>Little-endian fields\<close>

definition get_le :: "nat \<Rightarrow> nat \<Rightarrow> u8 list \<Rightarrow> 'a::len word" where
  "get_le n p st = fold (\<lambda>i w. w OR push_bit (8 * i) (ucast (st ! (p + i)))) [0..<n] 0"

definition put_le :: "nat \<Rightarrow> nat \<Rightarrow> 'a::len word \<Rightarrow> u8 list \<Rightarrow> u8 list" where
  "put_le n p v st = fold (\<lambda>i s. s[p + i := ucast (drop_bit (8 * i) v)]) [0..<n] st"

section \<open>Data\<close>

abbreviation (input) BlockSize :: nat where "BlockSize \<equiv> 512"
abbreviation (input) MaxDataBlocks :: nat where "MaxDataBlocks \<equiv> 10"

datatype NodeType = INVALID | FILE | DIRECTORY

record Resource =
  rinode :: int
  rsize :: nat
  rdeviceID :: int

text \<open>The part of \<open>vfs::Node\<close> a file system reads and writes.\<close>

record FsNode =
  vtype :: NodeType
  vfileSystem :: "int option"
  resource :: Resource

record DiskNode =
  inode :: int
  ntype :: NodeType
  blocksInUse :: nat
  nsize :: nat
  dataBlocks :: "nat option list"

record Super =
  iNodeCnt :: nat
  dataBitsetSize :: nat
  blockCnt :: nat

record RamDisk =
  deviceID :: int
  super :: Super
  nodes :: "DiskNode list"
  store :: "u8 list"

section \<open>Blocks and inodes\<close>

definition blockAddr :: "RamDisk \<Rightarrow> nat \<Rightarrow> nat" where
  "blockAddr d b = dataBitsetSize (super d) + BlockSize * b"

text \<open>The elements of the data bit set, and \<open>dataBitset[i] = val\<close>.\<close>

definition testBlock :: "nat \<Rightarrow> RamDisk \<Rightarrow> bool" where
  "testBlock i d = proxy_bool (i mod bitsPerBlock) (get_le 8 (8 * (i div bitsPerBlock)) (store d))"

definition assignBlock :: "nat \<Rightarrow> u8 \<Rightarrow> RamDisk \<Rightarrow> RamDisk" where
  "assignBlock i val d =
    (let p = 8 * (i div bitsPerBlock); w = get_le 8 p (store d) :: u64
     in d\<lparr>store := put_le 8 p (proxy_assign (i mod bitsPerBlock) val w) (store d)\<rparr>)"

definition getFreeDataBlock :: "RamDisk \<Rightarrow> nat option" where
  "getFreeDataBlock d = List.find (\<lambda>i. \<not> testBlock i d) [0..<blockCnt (super d)]"

definition getFreeINode :: "RamDisk \<Rightarrow> nat option" where
  "getFreeINode d = List.find (\<lambda>i. ntype (nodes d ! i) = INVALID) [0..<iNodeCnt (super d)]"

definition updNode :: "nat \<Rightarrow> (DiskNode \<Rightarrow> DiskNode) \<Rightarrow> RamDisk \<Rightarrow> RamDisk" where
  "updNode n f d = d\<lparr>nodes := (nodes d)[n := f (nodes d ! n)]\<rparr>"

definition freeINode :: "nat \<Rightarrow> RamDisk \<Rightarrow> RamDisk" where
  "freeINode n d = updNode n (\<lambda>nd. nd\<lparr>ntype := INVALID\<rparr>) d"

definition freeDataBlock :: "nat \<Rightarrow> RamDisk \<Rightarrow> RamDisk" where
  "freeDataBlock b d = assignBlock b 0 d"

text \<open>\<open>getNode\<close>: the index of the inode, when it exists.\<close>

definition getNode :: "int \<Rightarrow> RamDisk \<Rightarrow> nat option" where
  "getNode i d = (if 0 \<le> i \<and> nat i < length (nodes d) then Some (nat i) else None)"

definition ramdisk_new :: "int \<Rightarrow> RamDisk \<Rightarrow> RamDisk" where
  "ramdisk_new dev d =
    d\<lparr>deviceID := dev,
      store := fold (\<lambda>k. put_le 8 (8 * k) (0 :: u64)) [0..<bitset_len (dataBitsetSize (super d))] (store d)\<rparr>"

definition populateVFSNode :: "int \<Rightarrow> 'a FsNode_scheme \<Rightarrow> RamDisk \<Rightarrow> 'a FsNode_scheme option" where
  "populateVFSNode i v d = do {
     n \<leftarrow> getNode i d;
     let nd = nodes d ! n;
     Some (v\<lparr>vfileSystem := Some (deviceID d), vtype := ntype nd,
       resource := \<lparr>rinode = inode nd, rsize = nsize nd, rdeviceID = deviceID d\<rparr>\<rparr>) }"

section \<open>Reading\<close>

text \<open>The inner loop over the bytes of a block at address \<open>p\<close>, and the outer loop over blocks. The result
  is the bytes placed in the buffer, whose number is \<open>bytesRead\<close>.\<close>

function read_block :: "u8 list \<Rightarrow> nat \<Rightarrow> nat \<Rightarrow> nat \<Rightarrow> u8 list \<Rightarrow> u8 list option" where
  "read_block st p j sz buf =
    (if j < BlockSize \<and> length buf < sz
     then if p + j < length st then read_block st p (j + 1) sz (buf @ [st ! (p + j)]) else None
     else Some buf)"
  by pat_completeness auto
termination by (relation "measure (\<lambda>(st, p, j, sz, buf). 512 - j)") auto

function read_blocks :: "RamDisk \<Rightarrow> nat \<Rightarrow> nat \<Rightarrow> nat \<Rightarrow> nat \<Rightarrow> u8 list \<Rightarrow> u8 list option" where
  "read_blocks d n i prevDone sz buf =
    (if i < blocksInUse (nodes d ! n) \<and> length buf < sz
     then do {
       b \<leftarrow> dataBlocks (nodes d ! n) ! i;
       buf \<leftarrow> read_block (store d) (blockAddr d b) prevDone sz buf;
       read_blocks d n (i + 1) 0 sz buf }
     else Some buf)"
  by pat_completeness auto
termination by (relation "measure (\<lambda>(d, n, i, prev, sz, buf). blocksInUse (nodes d ! n) - i)") auto

definition disk_read :: "Resource \<Rightarrow> nat \<Rightarrow> nat \<Rightarrow> RamDisk \<Rightarrow> u8 list option" where
  "disk_read r offset sz d = do {
     n \<leftarrow> getNode (rinode r) d;
     if offset > nsize (nodes d ! n) then Some []
     else let sz = min sz (nsize (nodes d ! n) - offset)
          in read_blocks d n (offset div BlockSize) (offset mod BlockSize) sz [] }"

section \<open>Writing\<close>

function write_block :: "nat \<Rightarrow> nat \<Rightarrow> nat \<Rightarrow> u8 list \<Rightarrow> u8 list \<Rightarrow> nat \<Rightarrow> (u8 list \<times> nat) option" where
  "write_block p j sz buf st bytesWritten =
    (if j < BlockSize \<and> bytesWritten < sz
     then if p + j < length st \<and> bytesWritten < length buf
          then write_block p (j + 1) sz buf (st[p + j := buf ! bytesWritten]) (bytesWritten + 1)
          else None
     else Some (st, bytesWritten))"
  by pat_completeness auto
termination by (relation "measure (\<lambda>(p, j, sz, buf, st, k). 512 - j)") auto

text \<open>The branch \<open>i == node->blocksInUse\<close>: a new block for the node.\<close>

definition addBlock :: "nat \<Rightarrow> nat \<Rightarrow> RamDisk \<Rightarrow> RamDisk" where
  "addBlock n newBlock d = assignBlock newBlock 1
     (updNode n (\<lambda>nd. nd\<lparr>dataBlocks := (dataBlocks nd)[blocksInUse nd := Some newBlock],
                         blocksInUse := blocksInUse nd + 1\<rparr>) d)"

text \<open>One round of the loop writes into block \<open>i\<close>; \<open>break\<close> on a full disk ends the loop.\<close>

function write_blocks :: "nat \<Rightarrow> nat \<Rightarrow> u8 list \<Rightarrow> nat \<Rightarrow> nat \<Rightarrow> RamDisk \<Rightarrow> nat \<Rightarrow> (RamDisk \<times> nat) option" where
  "write_blocks n sz buf i prevDone d bytesWritten =
    (if i < MaxDataBlocks \<and> bytesWritten < sz
     then if i = blocksInUse (nodes d ! n) \<and> getFreeDataBlock d = None then Some (d, bytesWritten)
          else do {
            let d = (if i = blocksInUse (nodes d ! n) then addBlock n (the (getFreeDataBlock d)) d else d);
            b \<leftarrow> dataBlocks (nodes d ! n) ! i;
            (st, k) \<leftarrow> write_block (blockAddr d b) prevDone sz buf (store d) bytesWritten;
            write_blocks n sz buf (i + 1) 0 (d\<lparr>store := st\<rparr>) k }
     else Some (d, bytesWritten))"
  by pat_completeness auto
termination by (relation "measure (\<lambda>(n, sz, buf, i, prev, d, k). 10 - i)") auto

definition disk_write :: "Resource \<Rightarrow> nat \<Rightarrow> nat \<Rightarrow> u8 list \<Rightarrow> RamDisk \<Rightarrow> (RamDisk \<times> Resource \<times> nat) option" where
  "disk_write r offset sz buf d = do {
     n \<leftarrow> getNode (rinode r) d;
     if offset > MaxDataBlocks * BlockSize then Some (d, r, 0)
     else do {
       let sz = min sz (MaxDataBlocks * BlockSize - offset);
       (d, k) \<leftarrow> write_blocks n sz buf (offset div BlockSize) (offset mod BlockSize) d 0;
       let d = updNode n (\<lambda>nd. nd\<lparr>nsize := max (nsize nd) (offset + k)\<rparr>) d;
       Some (d, r\<lparr>rsize := nsize (nodes d ! n)\<rparr>, k) } }"

declare read_block.simps [simp del] read_blocks.simps [simp del]
declare write_block.simps [simp del] write_blocks.simps [simp del]

section \<open>Creating and removing nodes\<close>

definition disk_create :: "NodeType \<Rightarrow> 'a FsNode_scheme \<Rightarrow> RamDisk \<Rightarrow> (RamDisk \<times> 'a FsNode_scheme) option" where
  "disk_create type v d = do {
     n \<leftarrow> getFreeINode d;
     let d = updNode n (\<lambda>nd. nd\<lparr>blocksInUse := 0, inode := int n, nsize := 0, ntype := type\<rparr>) d;
     v \<leftarrow> populateVFSNode (int n) v d;
     (d, r, _) \<leftarrow> disk_write (resource v) 0 BlockSize (replicate BlockSize 0) d;
     let d = updNode n (\<lambda>nd. nd\<lparr>nsize := if type = DIRECTORY then 4 else 0\<rparr>) d;
     Some (d, v\<lparr>resource := r\<lparr>rsize := nsize (nodes d ! n)\<rparr>\<rparr>) }"

fun free_blocks :: "nat option list \<Rightarrow> RamDisk \<Rightarrow> RamDisk option" where
  "free_blocks [] d = Some d"
| "free_blocks (None # ps) d = None"
| "free_blocks (Some b # ps) d = free_blocks ps (freeDataBlock b d)"

definition disk_remove :: "'a FsNode_scheme \<Rightarrow> RamDisk \<Rightarrow> RamDisk option" where
  "disk_remove v d = do {
     n \<leftarrow> getNode (rinode (resource v)) d;
     d \<leftarrow> free_blocks (take (blocksInUse (nodes d ! n)) (dataBlocks (nodes d ! n))) d;
     Some (freeINode n d) }"

section \<open>Directories\<close>

text \<open>A directory is a file of a 4-byte entry count and entries of a 16-byte name and a 4-byte inode.\<close>

record DirEntry =
  fileName :: "u8 list"
  einode :: u32

definition encode_entry :: "DirEntry \<Rightarrow> u8 list" where
  "encode_entry e = fileName e @ put_le 4 0 (einode e) (replicate 4 0)"

definition entry_at :: "nat \<Rightarrow> u8 list \<Rightarrow> DirEntry" where
  "entry_at p buf = \<lparr>fileName = take 16 (drop p buf), einode = get_le 4 (p + 16) buf\<rparr>"

text \<open>The loop of \<open>readDir\<close>: every entry goes to slot \<open>realEntries\<close>, which is kept unless its inode is
  \<open>-1\<close>.\<close>

definition read_entries :: "nat \<Rightarrow> u8 list \<Rightarrow> DirEntry list" where
  "read_entries cnt buf =
    (let (res, realEntries) = fold (\<lambda>i (res, r).
        let e = entry_at (4 + 20 * i) buf in (res[r := e], if einode e \<noteq> - 1 then r + 1 else r))
        [0..<cnt] (replicate cnt (entry_at 0 (replicate 20 0)), 0)
     in take realEntries res)"

text \<open>\<open>readDir\<close> up to its end: the entries it collects. The function has no \<open>return\<close> there, so that its
  result is undefined (\<open>disk_readDir\<close>) unless it left at the test for an empty directory. A read past the
  buffer of \<open>size\<close> bytes is \<^const>\<open>None\<close>, as is the failed assertion on the type.\<close>

definition readDir_collect :: "'a FsNode_scheme \<Rightarrow> RamDisk \<Rightarrow> DirEntry list option" where
  "readDir_collect v d = do {
     n \<leftarrow> getNode (rinode (resource v)) d;
     if ntype (nodes d ! n) \<noteq> DIRECTORY then None
     else do {
       buf \<leftarrow> disk_read (resource v) 0 (nsize (nodes d ! n)) d;
       if length buf < 4 then None
       else let cnt = unat (get_le 4 0 buf :: u32)
            in if 4 + 20 * cnt \<le> length buf then Some (read_entries cnt buf) else None } }"

definition disk_readDir :: "'a FsNode_scheme \<Rightarrow> RamDisk \<Rightarrow> DirEntry list option" where
  "disk_readDir v d = do { es \<leftarrow> readDir_collect v d; n \<leftarrow> getNode (rinode (resource v)) d;
     buf \<leftarrow> disk_read (resource v) 0 (nsize (nodes d ! n)) d;
     if (get_le 4 0 buf :: u32) = 0 then Some [] else None }"

definition disk_writeDir :: "'a FsNode_scheme \<Rightarrow> DirEntry list \<Rightarrow> RamDisk \<Rightarrow> (RamDisk \<times> 'a FsNode_scheme) option" where
  "disk_writeDir v es d = do {
     n \<leftarrow> getNode (rinode (resource v)) d;
     let data = concat (map encode_entry es);
     (d, r, _) \<leftarrow> disk_write (resource v) (nsize (nodes d ! n)) (20 * length es) data d;
     hd \<leftarrow> disk_read r 0 4 d;
     let header = hd @ drop (length hd) (replicate 4 0);
     let header = put_le 4 0 (get_le 4 0 header + of_nat (length es) :: u32) header;
     (d, r, _) \<leftarrow> disk_write r 0 4 header d;
     Some (d, v\<lparr>resource := r\<rparr>) }"

text \<open>\<open>removeDirEntry\<close> takes every block of the directory for a \<open>Dir\<close> with a header of its own and works on
  the block's memory.\<close>

fun remove_in_block :: "nat \<Rightarrow> nat list \<Rightarrow> u32 \<Rightarrow> u8 list \<Rightarrow> u8 list option" where
  "remove_in_block p [] ino st = Some st"
| "remove_in_block p (i # is) ino st =
    (let q = p + 4 + 20 * i + 16
     in if q + 4 \<le> length st
        then remove_in_block p is ino (if get_le 4 q st = ino then put_le 4 q (- 1 :: u32) st else st)
        else None)"

fun remove_in_blocks :: "nat option list \<Rightarrow> u32 \<Rightarrow> RamDisk \<Rightarrow> RamDisk option" where
  "remove_in_blocks [] ino d = Some d"
| "remove_in_blocks (None # ps) ino d = None"
| "remove_in_blocks (Some b # ps) ino d = do {
     let p = blockAddr d b;
     st \<leftarrow> remove_in_block p [0..<nat (sint (get_le 4 p (store d) :: u32))] ino (store d);
     remove_in_blocks ps ino (d\<lparr>store := st\<rparr>) }"

definition disk_removeDirEntry :: "'a FsNode_scheme \<Rightarrow> DirEntry \<Rightarrow> RamDisk \<Rightarrow> RamDisk option" where
  "disk_removeDirEntry v e d = do {
     n \<leftarrow> getNode (rinode (resource v)) d;
     remove_in_blocks (take (blocksInUse (nodes d ! n)) (dataBlocks (nodes d ! n))) (einode e) d }"

section \<open>Formatting a disk (\<open>terminal.hpp\<close>)\<close>

definition blank_node :: DiskNode where
  "blank_node = \<lparr>inode = 0, ntype = INVALID, blocksInUse = 0, nsize = 0, dataBlocks = replicate MaxDataBlocks None\<rparr>"

definition createRamdisk :: "int \<Rightarrow> nat \<Rightarrow> nat \<Rightarrow> RamDisk option" where
  "createRamdisk dev nodeCount blockCount = do {
     let bitsetSize = (blockCount + 7) div 8;
     let mem = \<lparr>deviceID = 0, super = \<lparr>iNodeCnt = nodeCount, dataBitsetSize = bitsetSize, blockCnt = blockCount\<rparr>,
       nodes = replicate nodeCount blank_node, store = replicate (bitsetSize + BlockSize * blockCount) 0\<rparr>;
     (rdfs, _) \<leftarrow> disk_create DIRECTORY \<lparr>vtype = INVALID, vfileSystem = None,
       resource = \<lparr>rinode = 0, rsize = 0, rdeviceID = 0\<rparr>\<rparr> (ramdisk_new 1 mem);
     Some (ramdisk_new dev rdfs) }"

section \<open>Fields and bits of the store\<close>

lemma length_put_le [simp]: "length (put_le n p v st) = length st"
  unfolding put_le_def by (induction n) simp_all

lemma put_le_nth:
  "x < length st \<Longrightarrow> put_le n p v st ! x = (if p \<le> x \<and> x < p + n then ucast (drop_bit (8 * (x - p)) v) else st ! x)"
proof (induction n)
  case (Suc n)
  then have "put_le (Suc n) p v st ! x = (put_le n p v st)[p + n := ucast (drop_bit (8 * n) v)] ! x"
    by (simp add: put_le_def)
  then show ?case using Suc by (cases "x = p + n") auto
qed (auto simp: put_le_def)

lemma bit_get_le:
  "bit (get_le n p st :: 'a::len word) k \<longleftrightarrow> k < LENGTH('a) \<and> k < 8 * n \<and> bit (st ! (p + k div 8)) (k mod 8)"
proof (induction n)
  case (Suc n)
  have "get_le (Suc n) p st = (get_le n p st OR push_bit (8 * n) (ucast (st ! (p + n))) :: 'a word)"
    by (simp add: get_le_def)
  then have b: "bit (get_le (Suc n) p st :: 'a word) k \<longleftrightarrow>
      k < LENGTH('a) \<and> (k < 8 * n \<and> bit (st ! (p + k div 8)) (k mod 8) \<or> 8 * n \<le> k \<and> bit (st ! (p + n)) (k - 8 * n))"
    using Suc by (auto simp: bit_simps)
  have "8 * n \<le> k \<and> bit (st ! (p + n)) (k - 8 * n) \<longleftrightarrow> 8 * n \<le> k \<and> k < 8 * Suc n \<and> bit (st ! (p + k div 8)) (k mod 8)"
  proof (cases "8 * n \<le> k \<and> k < 8 * Suc n")
    case True
    then have q: "k div 8 = n" by (simp add: div_nat_eqI)
    then have "k mod 8 = k - 8 * n" by (simp add: modulo_nat_def mult.commute)
    then show ?thesis using True q by simp
  next
    case False
    then show ?thesis using bit_imp_le_length [of "st ! (p + n)" "k - 8 * n"] by auto
  qed
  then show ?case unfolding b by auto
qed (simp add: get_le_def)

lemma get_put_le:
  assumes "p + n \<le> length st" "8 * n = LENGTH('a::len)"
  shows "get_le n p (put_le n p (v :: 'a word) st) = v"
proof (rule bit_eqI)
  fix k
  assume "possible_bit TYPE('a word) k"
  then have k: "k < 8 * n" using assms(2) by simp
  then have q: "k div 8 < n" by linarith
  then have "put_le n p v st ! (p + k div 8) = ucast (drop_bit (8 * (k div 8)) v)"
    using assms(1) by (subst put_le_nth) auto
  then show "bit (get_le n p (put_le n p v st) :: 'a word) k \<longleftrightarrow> bit v k"
    using k assms(2) by (auto simp: bit_get_le bit_simps)
qed

lemma get_le_cong:
  "(\<And>i. i < n \<Longrightarrow> st ! (p + i) = st' ! (q + i)) \<Longrightarrow> get_le n p st = get_le n q st'"
  unfolding get_le_def by (intro fold_cong) auto

lemma bit_word_pos: "8 * (i div 64) + i mod 64 div 8 = i div (8 :: nat)" "i mod 64 mod 8 = i mod (8 :: nat)"
proof -
  have "i mod (8 * 8) = 8 * (i div 8 mod 8) + i mod 8" by (rule mod_mult2_eq)
  then have m: "i mod 64 = 8 * (i div 8 mod 8) + i mod 8" by simp
  have "i div 64 = i div 8 div 8" by (simp add: div_mult2_eq [symmetric])
  then show "8 * (i div 64) + i mod 64 div 8 = i div 8" by (simp add: m)
  show "i mod 64 mod 8 = i mod 8" by (simp add: m)
qed

lemma testBlock_bit: "testBlock i d \<longleftrightarrow> bit (store d ! (i div 8)) (i mod 8)"
  by (simp add: testBlock_def proxy_bool_bit bit_get_le bit_word_pos)

lemma assignBlock_simps [simp]:
  "super (assignBlock i v d) = super d" "nodes (assignBlock i v d) = nodes d"
  "deviceID (assignBlock i v d) = deviceID d" "length (store (assignBlock i v d)) = length (store d)"
  by (simp_all add: assignBlock_def Let_def)

lemma assignBlock_bit:
  assumes "x < length (store d)" "k < 8"
  shows "bit (store (assignBlock i v d) ! x) k \<longleftrightarrow> (if i = 8 * x + k then v \<noteq> 0 else bit (store d ! x) k)"
proof (cases "8 * (i div 64) \<le> x \<and> x < 8 * (i div 64) + 8")
  case True
  define y where "y = x - 8 * (i div 64)"
  define m where "m = 8 * y + k"
  have y: "y < 8" "x = 8 * (i div 64) + y" using True by (auto simp: y_def)
  have m: "m < 64" "m div 8 = y" "m mod 8 = k" using y(1) assms(2) by (simp_all add: m_def)
  have "i = 64 * (i div 64) + i mod 64" by simp
  then have i: "m = i mod 64 \<longleftrightarrow> i = 8 * x + k" using y(2) unfolding m_def by linarith
  have "bit (store (assignBlock i v d) ! x) k \<longleftrightarrow>
      bit (proxy_assign (i mod 64) v (get_le 8 (8 * (i div 64)) (store d))) m"
    using assms True unfolding assignBlock_def Let_def m_def y_def
    by (simp add: put_le_nth bit_simps)
  also have "\<dots> \<longleftrightarrow> (if i = 8 * x + k then v \<noteq> 0 else bit (store d ! x) k)"
    using m i y by (simp add: bit_proxy_assign bit_get_le)
  finally show ?thesis .
next
  case False
  then have "x \<noteq> i div 8" using div_mult_mod_eq [of "i div 8" 8] mod_less_divisor [of 8 "i div 8"]
    by (auto simp: div_mult2_eq [symmetric])
  then have "i \<noteq> 8 * x + k" using assms(2) by auto
  then show ?thesis using assms False by (auto simp: assignBlock_def Let_def put_le_nth)
qed

lemma assignBlock_other:
  assumes "x < length (store d)" "x \<noteq> i div 8"
  shows "store (assignBlock i v d) ! x = store d ! x"
proof (rule bit_eqI)
  fix k
  assume "possible_bit TYPE(8 word) k"
  then have "k < 8" by simp
  moreover from this have "i \<noteq> 8 * x + k" using assms(2) by auto
  ultimately show "bit (store (assignBlock i v d) ! x) k = bit (store d ! x) k"
    using assignBlock_bit [OF assms(1)] by simp
qed

lemma testBlock_assign:
  "j div 8 < length (store d) \<Longrightarrow> testBlock j (assignBlock i v d) \<longleftrightarrow> (if j = i then v \<noteq> 0 else testBlock j d)"
  using assignBlock_bit [of "j div 8" d "j mod 8" i v] by (auto simp: testBlock_bit)

section \<open>Reading and writing a block\<close>

definition patch :: "nat \<Rightarrow> 'a list \<Rightarrow> 'a list \<Rightarrow> 'a list" where
  "patch p ys xs = take p xs @ ys @ drop (p + length ys) xs"

lemma patch_Nil [simp]: "patch p [] xs = xs"
  by (simp add: patch_def)

lemma length_patch [simp]: "p + length ys \<le> length xs \<Longrightarrow> length (patch p ys xs) = length xs"
  by (simp add: patch_def)

lemma patch_append: "p + length ys \<le> length xs \<Longrightarrow> patch p ys xs @ zs = patch p ys (xs @ zs)"
  by (simp add: patch_def)

lemma patch_patch:
  "p + length xs + length ys \<le> length zs \<Longrightarrow> patch (p + length xs) ys (patch p xs zs) = patch p (xs @ ys) zs"
  by (simp add: patch_def ac_simps)

lemma patch_update: "p < length xs \<Longrightarrow> xs[p := y] = patch p [y] xs"
  by (simp add: patch_def upd_conv_take_nth_drop)

lemma read_block_eq:
  assumes "p + 512 \<le> length st" "j \<le> 512"
  shows "read_block st p j sz buf = Some (buf @ take (min (512 - j) (sz - length buf)) (drop (p + j) st))"
  using assms
proof (induction st p j sz buf rule: read_block.induct)
  case (1 st p j sz buf)
  show ?case
  proof (cases "j < 512 \<and> length buf < sz")
    case True
    have "min (512 - j) (sz - length buf) = Suc (min (512 - Suc j) (sz - length (buf @ [st ! (p + j)])))"
      using True by auto
    moreover have "drop (p + j) st = st ! (p + j) # drop (p + Suc j) st"
      using True "1.prems" by (simp add: Cons_nth_drop_Suc)
    ultimately show ?thesis using 1 True by (subst read_block.simps) simp
  next
    case False
    then show ?thesis by (subst read_block.simps) auto
  qed
qed

lemma write_block_eq:
  assumes "p + 512 \<le> length st" "j \<le> 512" "sz \<le> length buf" "k \<le> sz"
  shows "write_block p j sz buf st k =
    Some (patch (p + j) (take (min (512 - j) (sz - k)) (drop k buf)) st, k + min (512 - j) (sz - k))"
  using assms
proof (induction p j sz buf st k rule: write_block.induct)
  case (1 p j sz buf st k)
  show ?case
  proof (cases "j < 512 \<and> k < sz")
    case True
    let ?m = "min (512 - Suc j) (sz - Suc k)"
    have m: "min (512 - j) (sz - k) = Suc ?m" using True by auto
    have "drop k buf = buf ! k # drop (Suc k) buf" using True "1.prems" by (simp add: Cons_nth_drop_Suc)
    then have t: "take (min (512 - j) (sz - k)) (drop k buf) = [buf ! k] @ take ?m (drop (Suc k) buf)" by (simp add: m)
    have "Suc (p + j + min (511 - j) (sz - Suc k)) \<le> length st" using True "1.prems"(1) by linarith
    then have "patch (p + Suc j) (take ?m (drop (Suc k) buf)) (st[p + j := buf ! k]) =
        patch (p + j) (take (min (512 - j) (sz - k)) (drop k buf)) st"
      using True "1.prems" patch_patch [of "p + j" "[buf ! k]" "take ?m (drop (Suc k) buf)" st]
      by (simp add: t patch_update del: take_Suc_Cons)
    then show ?thesis using 1 True m by (subst write_block.simps) simp
  next
    case False
    then show ?thesis by (subst write_block.simps) auto
  qed
qed

section \<open>Invariant and abstraction\<close>

definition valid :: "RamDisk \<Rightarrow> nat \<Rightarrow> bool" where
  "valid d n \<longleftrightarrow> n < length (nodes d) \<and> ntype (nodes d ! n) \<noteq> INVALID"

text \<open>Slot \<open>i\<close> of node \<open>n\<close> holds block \<open>b\<close>.\<close>

definition holds :: "RamDisk \<Rightarrow> nat \<Rightarrow> nat \<Rightarrow> nat \<Rightarrow> bool" where
  "holds d n i b \<longleftrightarrow> i < blocksInUse (nodes d ! n) \<and> dataBlocks (nodes d ! n) ! i = Some b"

definition geometry :: "RamDisk \<Rightarrow> bool" where
  "geometry d \<longleftrightarrow> length (nodes d) = iNodeCnt (super d) \<and>
    length (store d) = dataBitsetSize (super d) + 512 * blockCnt (super d) \<and>
    blockCnt (super d) \<le> 8 * dataBitsetSize (super d) \<and>
    (\<forall>n<length (nodes d). length (dataBlocks (nodes d ! n)) = 10)"

definition node_ok :: "RamDisk \<Rightarrow> nat \<Rightarrow> bool" where
  "node_ok d n \<longleftrightarrow> inode (nodes d ! n) = int n \<and> blocksInUse (nodes d ! n) \<le> 10 \<and>
    nsize (nodes d ! n) \<le> 512 * blocksInUse (nodes d ! n) \<and>
    (\<forall>i<blocksInUse (nodes d ! n). \<exists>b. dataBlocks (nodes d ! n) ! i = Some b \<and> b < blockCnt (super d) \<and> testBlock b d)"

definition unshared :: "RamDisk \<Rightarrow> bool" where
  "unshared d \<longleftrightarrow> (\<forall>n m i j b. valid d n \<longrightarrow> valid d m \<longrightarrow> holds d n i b \<longrightarrow> holds d m j b \<longrightarrow> n = m \<and> i = j)"

definition disk_inv :: "RamDisk \<Rightarrow> bool" where
  "disk_inv d \<longleftrightarrow> geometry d \<and> (\<forall>n. valid d n \<longrightarrow> node_ok d n) \<and> unshared d"

definition block :: "RamDisk \<Rightarrow> nat \<Rightarrow> u8 list" where
  "block d b = take 512 (drop (blockAddr d b) (store d))"

definition owned :: "RamDisk \<Rightarrow> nat \<Rightarrow> nat list" where
  "owned d n = map the (take (blocksInUse (nodes d ! n)) (dataBlocks (nodes d ! n)))"

definition allocated :: "RamDisk \<Rightarrow> nat \<Rightarrow> u8 list" where
  "allocated d n = concat (map (block d) (owned d n))"

definition contents :: "RamDisk \<Rightarrow> nat \<Rightarrow> u8 list" where
  "contents d n = take (nsize (nodes d ! n)) (allocated d n)"

definition freeCnt :: "RamDisk \<Rightarrow> nat" where
  "freeCnt d = card {b. b < blockCnt (super d) \<and> \<not> testBlock b d}"

lemma disk_inv_geometry: "disk_inv d \<Longrightarrow> geometry d"
  by (simp add: disk_inv_def)

lemma disk_inv_node: "disk_inv d \<Longrightarrow> valid d n \<Longrightarrow> node_ok d n"
  by (simp add: disk_inv_def)

lemma held_in_use: "disk_inv d \<Longrightarrow> valid d n \<Longrightarrow> holds d n i b \<Longrightarrow> b < blockCnt (super d) \<and> testBlock b d"
  using disk_inv_node [of d n] by (fastforce simp: node_ok_def holds_def)

lemma block_fits:
  assumes "geometry d" "b < blockCnt (super d)"
  shows "blockAddr d b + 512 \<le> length (store d)" "length (block d b) = 512"
    "b div 8 < length (store d)" "b div 8 < dataBitsetSize (super d)"
proof -
  have "512 * b + 512 \<le> 512 * blockCnt (super d)" using assms(2) by simp
  then show f: "blockAddr d b + 512 \<le> length (store d)" using assms(1) by (simp add: geometry_def blockAddr_def)
  show "length (block d b) = 512" using f by (simp add: block_def)
  show "b div 8 < dataBitsetSize (super d)" using assms by (simp add: geometry_def less_mult_imp_div_less mult.commute)
  then show "b div 8 < length (store d)" using assms by (simp add: geometry_def)
qed

lemma owned_slots:
  assumes "disk_inv d" "valid d n"
  shows "length (owned d n) = blocksInUse (nodes d ! n)"
    "\<And>i. i < blocksInUse (nodes d ! n) \<Longrightarrow> dataBlocks (nodes d ! n) ! i = Some (owned d n ! i) \<and>
      owned d n ! i < blockCnt (super d) \<and> testBlock (owned d n ! i) d"
proof -
  have g: "length (dataBlocks (nodes d ! n)) = 10" and ok: "node_ok d n"
    using assms by (auto simp: disk_inv_def geometry_def valid_def)
  show l: "length (owned d n) = blocksInUse (nodes d ! n)"
    using g ok by (simp add: owned_def node_ok_def)
  fix i
  assume i: "i < blocksInUse (nodes d ! n)"
  then obtain b where b: "dataBlocks (nodes d ! n) ! i = Some b" "b < blockCnt (super d)" "testBlock b d"
    using ok by (auto simp: node_ok_def)
  have "owned d n ! i = b" using i g ok b(1) by (simp add: owned_def node_ok_def)
  then show "dataBlocks (nodes d ! n) ! i = Some (owned d n ! i) \<and>
      owned d n ! i < blockCnt (super d) \<and> testBlock (owned d n ! i) d" using b by simp
qed

lemma set_owned:
  assumes "disk_inv d" "valid d n"
  shows "b \<in> set (owned d n) \<longleftrightarrow> (\<exists>i. holds d n i b)"
  using owned_slots [OF assms] by (auto simp: in_set_conv_nth holds_def)

lemma owned_blocks: "disk_inv d \<Longrightarrow> valid d n \<Longrightarrow> b \<in> set (owned d n) \<Longrightarrow> b < blockCnt (super d) \<and> testBlock b d"
  using owned_slots [of d n] by (auto simp: in_set_conv_nth)

lemma owned_distinct: "disk_inv d \<Longrightarrow> valid d n \<Longrightarrow> distinct (owned d n)"
proof (unfold distinct_conv_nth, intro allI impI)
  fix i j
  assume d: "disk_inv d" "valid d n" and ij: "i < length (owned d n)" "j < length (owned d n)" "i \<noteq> j"
  note sl = owned_slots [OF d]
  have "holds d n i (owned d n ! i)" "holds d n j (owned d n ! j)" using ij sl by (auto simp: holds_def)
  then show "owned d n ! i \<noteq> owned d n ! j" using d ij(3) unfolding disk_inv_def unshared_def by metis
qed

lemma owned_disjoint: "disk_inv d \<Longrightarrow> valid d n \<Longrightarrow> valid d m \<Longrightarrow> n \<noteq> m \<Longrightarrow> set (owned d n) \<inter> set (owned d m) = {}"
proof -
  assume d: "disk_inv d" "valid d n" "valid d m" "n \<noteq> m"
  then have "\<not> (holds d n i b \<and> holds d m j b)" for i j b unfolding disk_inv_def unshared_def by blast
  then show ?thesis using set_owned [OF d(1,2)] set_owned [OF d(1,3)] by auto
qed

lemma length_allocated:
  assumes "disk_inv d" "valid d n"
  shows "length (allocated d n) = 512 * blocksInUse (nodes d ! n)"
proof -
  have "map (length \<circ> block d) (owned d n) = map (\<lambda>_. 512) (owned d n)"
    using owned_blocks [OF assms] block_fits(2) [OF disk_inv_geometry [OF assms(1)]] by simp
  then have "length (allocated d n) = sum_list (map (\<lambda>_. 512) (owned d n))"
    by (simp only: allocated_def length_concat map_map)
  then show ?thesis using owned_slots(1) [OF assms] by (simp add: sum_list_triv)
qed

lemma drop_concat_blocks:
  assumes "\<forall>x\<in>set xs. length x = 512" "i < length xs" "j \<le> 512"
  shows "drop (512 * i + j) (concat xs) = drop j (xs ! i) @ drop (512 * Suc i) (concat xs)"
  using assms
proof (induction xs arbitrary: i)
  case (Cons x xs)
  show ?case
  proof (cases i)
    case 0
    then show ?thesis using Cons.prems by simp
  next
    case (Suc i')
    then show ?thesis using Cons.IH [of i'] Cons.prems by (simp add: algebra_simps)
  qed
qed simp

lemma patch_concat_blocks:
  assumes "\<forall>x\<in>set xs. length x = 512" "i < length xs" "j + length ys \<le> 512"
  shows "concat (xs[i := patch j ys (xs ! i)]) = patch (512 * i + j) ys (concat xs)"
  using assms
proof (induction xs arbitrary: i)
  case (Cons x xs)
  show ?case
  proof (cases i)
    case 0
    then show ?thesis using Cons.prems by (simp add: patch_def)
  next
    case (Suc i')
    then have "concat ((x # xs)[i := patch j ys ((x # xs) ! i)]) = x @ patch (512 * i' + j) ys (concat xs)"
      using Cons.IH [of i'] Cons.prems by simp
    then show ?thesis using Suc Cons.prems by (simp add: patch_def add.assoc)
  qed
qed simp

section \<open>Reading a file\<close>

lemma read_blocks_eq:
  assumes "disk_inv d" "valid d n" "prev \<le> 512"
  shows "read_blocks d n i prev sz buf = Some (buf @ take (sz - length buf) (drop (512 * i + prev) (allocated d n)))"
  using assms(3)
proof (induction "blocksInUse (nodes d ! n) - i" arbitrary: i prev buf)
  case 0
  then show ?case using length_allocated [OF assms(1,2)] by (subst read_blocks.simps) auto
next
  case (Suc x)
  note sl = owned_slots [OF assms(1,2)]
  show ?case
  proof (cases "length buf < sz")
    case True
    have i: "i < blocksInUse (nodes d ! n)" using Suc(2) by simp
    define b where "b = owned d n ! i"
    have b: "dataBlocks (nodes d ! n) ! i = Some b" "b < blockCnt (super d)" using sl(2) [OF i] by (simp_all add: b_def)
    note fits = block_fits [OF disk_inv_geometry [OF assms(1)] b(2)]
    define t where "t = take (min (512 - prev) (sz - length buf)) (drop (blockAddr d b + prev) (store d))"
    have t: "t = take (sz - length buf) (drop prev (block d b))"
      by (simp add: t_def block_def drop_take min.commute add.commute)
    have lt: "length t = min (512 - prev) (sz - length buf)" using fits Suc.prems by (simp add: t_def)
    have blk: "\<forall>x\<in>set (map (block d) (owned d n)). length x = 512"
      using owned_blocks [OF assms(1,2)] block_fits(2) [OF disk_inv_geometry [OF assms(1)]] by auto
    have dr: "drop (512 * i + prev) (allocated d n) = drop prev (block d b) @ drop (512 * Suc i) (allocated d n)"
      using drop_concat_blocks [OF blk, of i prev] i sl(1) Suc.prems by (simp add: allocated_def b_def)
    have IH: "read_blocks d n (Suc i) 0 sz (buf @ t) =
        Some (buf @ t @ take (sz - length (buf @ t)) (drop (512 * Suc i) (allocated d n)))"
      using Suc(1) [of "Suc i" 0 "buf @ t"] Suc(2) by simp
    have "read_blocks d n i prev sz buf = read_blocks d n (Suc i) 0 sz (buf @ t)"
      using True i b fits Suc.prems by (subst read_blocks.simps) (simp add: read_block_eq t_def)
    also have "\<dots> = Some (buf @ take (sz - length buf) (drop (512 * i + prev) (allocated d n)))"
    proof -
      have "length (drop prev (block d b)) = 512 - prev" using fits by simp
      moreover have "sz - length (buf @ t) = sz - length buf - (512 - prev)" using lt by simp
      ultimately show ?thesis unfolding IH dr take_append t [symmetric] by simp
    qed
    finally show ?thesis .
  next
    case False
    then show ?thesis by (subst read_blocks.simps) simp
  qed
qed

lemma getNode_valid: "valid d n \<Longrightarrow> rinode r = int n \<Longrightarrow> getNode (rinode r) d = Some n"
  by (simp add: getNode_def valid_def)

lemma length_contents: "disk_inv d \<Longrightarrow> valid d n \<Longrightarrow> length (contents d n) = nsize (nodes d ! n)"
proof -
  assume d: "disk_inv d" "valid d n"
  then have "node_ok d n" by (simp add: disk_inv_def)
  then show ?thesis using length_allocated [OF d] by (simp add: contents_def node_ok_def)
qed

lemma disk_read_eq:
  assumes "disk_inv d" "valid d n" "rinode r = int n"
  shows "disk_read r offset sz d = Some (take sz (drop offset (contents d n)))"
proof (cases "offset > nsize (nodes d ! n)")
  case True
  then show ?thesis
    using length_contents [OF assms(1,2)] by (simp add: disk_read_def getNode_valid [OF assms(2,3)])
next
  case False
  have "512 * (offset div 512) + offset mod 512 = offset" by simp
  then show ?thesis
    using False read_blocks_eq [OF assms(1,2), of "offset mod 512" "offset div 512" _ "[]"]
    by (simp add: disk_read_def getNode_valid [OF assms(2,3)] contents_def drop_take min.commute)
qed

section \<open>Changing the store\<close>

lemma block_patch:
  assumes "geometry d" "b < blockCnt (super d)" "b' < blockCnt (super d)" "j + length ys \<le> 512"
  shows "block (d\<lparr>store := patch (blockAddr d b + j) ys (store d)\<rparr>) b' =
    (if b' = b then patch j ys (block d b) else block d b')"
proof (rule nth_equalityI)
  let ?st = "patch (blockAddr d b + j) ys (store d)" and ?d = "d\<lparr>store := patch (blockAddr d b + j) ys (store d)\<rparr>"
  note f = block_fits [OF assms(1)]
  have len: "length ?st = length (store d)" using f(1) [OF assms(2)] assms(4) by simp
  have pnth: "patch p ys xs ! x = (if p \<le> x \<and> x < p + length ys then ys ! (x - p) else xs ! x)"
    if "p + length ys \<le> length xs" "x < length xs" for p x and xs :: "u8 list"
    using that by (auto simp: patch_def nth_append)
  have bl: "length (block ?d b') = 512" using f(1) [OF assms(3)] len by (simp add: block_def blockAddr_def)
  show "length (block ?d b') = length (if b' = b then patch j ys (block d b) else block d b')"
    using bl f(2) assms by simp
  fix x
  assume "x < length (block ?d b')"
  then have x: "x < 512" using bl by simp
  have i: "blockAddr d b' + x < length (store d)" using f(1) [OF assms(3)] x by simp
  have "block ?d b' ! x = ?st ! (blockAddr d b' + x)"
    using x f(1) [OF assms(3)] len by (simp add: block_def blockAddr_def)
  also have "\<dots> = (if blockAddr d b + j \<le> blockAddr d b' + x \<and> blockAddr d b' + x < blockAddr d b + j + length ys
      then ys ! (blockAddr d b' + x - (blockAddr d b + j)) else store d ! (blockAddr d b' + x))"
    using pnth [of "blockAddr d b + j" "store d" "blockAddr d b' + x"] i f(1) [OF assms(2)] assms(4) by simp
  also have "\<dots> = (if b' = b then patch j ys (block d b) else block d b') ! x"
  proof (cases "b' = b")
    case True
    then show ?thesis
      using pnth [of j "block d b" x] f [OF assms(2)] assms(4) x by (auto simp: block_def)
  next
    case False
    then have "b' < b \<or> b < b'" by auto
    then have "\<not> (blockAddr d b + j \<le> blockAddr d b' + x \<and> blockAddr d b' + x < blockAddr d b + j + length ys)"
      using x assms(4) by (auto simp: blockAddr_def)
    then show ?thesis using False x f(1) [OF assms(3)] by (auto simp: block_def)
  qed
  finally show "block ?d b' ! x = (if b' = b then patch j ys (block d b) else block d b') ! x" .
qed

lemma testBlock_patch:
  assumes "geometry d" "i < blockCnt (super d)" "b < blockCnt (super d)" "j + length ys \<le> 512"
  shows "testBlock i (d\<lparr>store := patch (blockAddr d b + j) ys (store d)\<rparr>) = testBlock i d"
proof -
  have "i div 8 < blockAddr d b + j" using block_fits(4) [OF assms(1,2)] by (simp add: blockAddr_def)
  then show ?thesis
    using block_fits(3) [OF assms(1,2)] by (simp add: testBlock_bit patch_def nth_append)
qed

lemma owned_store [simp]: "owned (d\<lparr>store := st\<rparr>) n = owned d n" "valid (d\<lparr>store := st\<rparr>) n = valid d n"
  "holds (d\<lparr>store := st\<rparr>) n i b = holds d n i b" "blockAddr (d\<lparr>store := st\<rparr>) b = blockAddr d b"
  by (simp_all add: owned_def valid_def holds_def blockAddr_def)

lemma store_patch_inv:
  assumes "disk_inv d" "b < blockCnt (super d)" "j + length ys \<le> 512"
  shows "disk_inv (d\<lparr>store := patch (blockAddr d b + j) ys (store d)\<rparr>)"
    "freeCnt (d\<lparr>store := patch (blockAddr d b + j) ys (store d)\<rparr>) = freeCnt d"
proof -
  let ?d = "d\<lparr>store := patch (blockAddr d b + j) ys (store d)\<rparr>"
  note g = disk_inv_geometry [OF assms(1)]
  have t: "testBlock i ?d = testBlock i d" if "i < blockCnt (super d)" for i
    using testBlock_patch [OF g that assms(2,3)] .
  have "geometry ?d" using g block_fits(1) [OF g assms(2)] assms(3) by (simp add: geometry_def)
  moreover have "node_ok ?d n" if "valid d n" for n
  proof -
    have "node_ok d n" using assms(1) that by (simp add: disk_inv_def)
    then show ?thesis unfolding node_ok_def using t by fastforce
  qed
  ultimately show "disk_inv ?d" using assms(1) by (simp add: disk_inv_def unshared_def)
  show "freeCnt ?d = freeCnt d"
    unfolding freeCnt_def by (rule arg_cong [of _ _ card]) (use t in auto)
qed

lemma allocated_patch:
  assumes "disk_inv d" "valid d n" "i < blocksInUse (nodes d ! n)" "j + length ys \<le> 512"
  shows "allocated (d\<lparr>store := patch (blockAddr d (owned d n ! i) + j) ys (store d)\<rparr>) n =
      patch (512 * i + j) ys (allocated d n)"
    "valid d m \<Longrightarrow> m \<noteq> n \<Longrightarrow>
      allocated (d\<lparr>store := patch (blockAddr d (owned d n ! i) + j) ys (store d)\<rparr>) m = allocated d m"
proof -
  define b where "b = owned d n ! i"
  let ?d = "d\<lparr>store := patch (blockAddr d b + j) ys (store d)\<rparr>"
  note g = disk_inv_geometry [OF assms(1)]
  have i: "i < length (owned d n)" using owned_slots(1) [OF assms(1,2)] assms(3) by simp
  have b: "b < blockCnt (super d)" using owned_slots(2) [OF assms(1-3)] by (simp add: b_def)
  have blk: "block ?d b' = (if b' = b then patch j ys (block d b) else block d b')" if "b' < blockCnt (super d)" for b'
    using block_patch [OF g b that assms(4)] .
  have "map (block ?d) (owned d n) = (map (block d) (owned d n))[i := patch j ys (block d b)]"
  proof (rule nth_equalityI)
    fix k
    assume "k < length (map (block ?d) (owned d n))"
    then have k: "k < length (owned d n)" by simp
    have "owned d n ! k = b \<longleftrightarrow> k = i"
      using nth_eq_iff_index_eq [OF owned_distinct [OF assms(1,2)] k i] by (simp add: b_def)
    moreover have "owned d n ! k < blockCnt (super d)" using owned_blocks [OF assms(1,2)] k by simp
    ultimately show "map (block ?d) (owned d n) ! k = (map (block d) (owned d n))[i := patch j ys (block d b)] ! k"
      using k by (auto simp: blk nth_list_update)
  qed simp
  moreover have "\<forall>x\<in>set (map (block d) (owned d n)). length x = 512"
    using owned_blocks [OF assms(1,2)] block_fits(2) [OF g] by auto
  ultimately show "allocated (d\<lparr>store := patch (blockAddr d (owned d n ! i) + j) ys (store d)\<rparr>) n =
      patch (512 * i + j) ys (allocated d n)"
    using patch_concat_blocks [of "map (block d) (owned d n)" i j ys] i assms(4)
    by (simp add: allocated_def b_def)
  assume m: "valid d m" "m \<noteq> n"
  have "b \<in> set (owned d n)" using i by (simp add: b_def)
  then have "b \<notin> set (owned d m)" using owned_disjoint [OF assms(1) m(1) assms(2) m(2)] by auto
  then have "map (block ?d) (owned d m) = map (block d) (owned d m)"
    using owned_blocks [OF assms(1) m(1)] by (auto simp: blk)
  then show "allocated (d\<lparr>store := patch (blockAddr d (owned d n ! i) + j) ys (store d)\<rparr>) m = allocated d m"
    by (simp only: allocated_def owned_store b_def [symmetric])
qed

section \<open>Taking a new block\<close>

lemma getFreeDataBlock_Some:
  assumes "getFreeDataBlock d = Some b"
  shows "b < blockCnt (super d)" "\<not> testBlock b d"
  using assms by (auto simp: getFreeDataBlock_def find_Some_iff)

lemma getFreeDataBlock_None: "getFreeDataBlock d = None \<longleftrightarrow> freeCnt d = 0"
  by (auto simp: getFreeDataBlock_def find_None_iff freeCnt_def)

lemma block_assign:
  assumes "geometry d" "i < blockCnt (super d)" "b < blockCnt (super d)"
  shows "block (assignBlock i v d) b = block d b"
proof (rule nth_equalityI)
  have a: "blockAddr (assignBlock i v d) b = blockAddr d b" by (simp add: blockAddr_def)
  show "length (block (assignBlock i v d) b) = length (block d b)" by (simp add: block_def a)
  fix x
  assume x: "x < length (block (assignBlock i v d) b)"
  then have xl: "blockAddr d b + x < length (store d)" "x < 512" by (auto simp: block_def a)
  have "blockAddr d b + x \<noteq> i div 8" using block_fits(4) [OF assms(1,2)] by (simp add: blockAddr_def)
  then show "block (assignBlock i v d) b ! x = block d b ! x"
    using xl by (simp add: block_def a assignBlock_other)
qed

lemma addBlock_simps:
  "super (addBlock n b d) = super d" "deviceID (addBlock n b d) = deviceID d"
  "length (nodes (addBlock n b d)) = length (nodes d)" "length (store (addBlock n b d)) = length (store d)"
  "nodes (addBlock n b d) = (nodes d)[n := (nodes d ! n)\<lparr>dataBlocks := (dataBlocks (nodes d ! n))[blocksInUse (nodes d ! n) := Some b],
     blocksInUse := blocksInUse (nodes d ! n) + 1\<rparr>]"
  by (simp_all add: addBlock_def updNode_def)

lemma addBlock_spec:
  assumes "disk_inv d" "valid d n" "blocksInUse (nodes d ! n) < 10" "getFreeDataBlock d = Some b"
  shows "disk_inv (addBlock n b d)" "freeCnt d = Suc (freeCnt (addBlock n b d))"
    "allocated (addBlock n b d) n = allocated d n @ block d b"
    "valid d m \<Longrightarrow> m \<noteq> n \<Longrightarrow> allocated (addBlock n b d) m = allocated d m"
    "valid (addBlock n b d) m = valid d m"
proof -
  let ?d = "addBlock n b d" and ?u = "blocksInUse (nodes d ! n)"
  note g = disk_inv_geometry [OF assms(1)] and fb = getFreeDataBlock_Some [OF assms(4)]
  have n: "n < length (nodes d)" using assms(2) by (simp add: valid_def)
  have dl: "length (dataBlocks (nodes d ! n)) = 10" using g n by (simp add: geometry_def)
  note nd = addBlock_simps(5) [of n b d]
  have node: "nodes ?d ! m = (if m = n then (nodes d ! n)\<lparr>dataBlocks := (dataBlocks (nodes d ! n))[?u := Some b],
     blocksInUse := ?u + 1\<rparr> else nodes d ! m)" for m
    using n by (cases "m < length (nodes d)") (auto simp: nd nth_list_update)
  have v: "valid ?d m = valid d m" for m by (auto simp: valid_def node addBlock_simps(3))
  show "valid ?d m = valid d m" by (rule v)
  have t: "testBlock j ?d \<longleftrightarrow> j = b \<or> testBlock j d" if "j < blockCnt (super d)" for j
    using testBlock_assign [of j "updNode n (\<lambda>nd. nd\<lparr>dataBlocks := (dataBlocks nd)[blocksInUse nd := Some b],
        blocksInUse := blocksInUse nd + 1\<rparr>) d" b 1] block_fits(3) [OF g that]
    by (auto simp: addBlock_def updNode_def testBlock_bit)
  have h: "holds ?d m i c \<longleftrightarrow> holds d m i c \<or> m = n \<and> i = ?u \<and> c = b" for m i c
    using dl assms(3) by (auto simp: holds_def node less_Suc_eq)
  have used: "\<not> holds d m i b" if "valid d m" for m i
    using held_in_use [OF assms(1) that] fb(2) by blast
  have gd: "geometry ?d"
    using g n by (auto simp: geometry_def addBlock_simps(1,3,4) node)
  have ok: "node_ok ?d m" if "valid d m" for m
  proof -
    have "node_ok d m" using assms(1) that by (simp add: disk_inv_def)
    then show ?thesis
      using t fb(1) dl assms(3) unfolding node_ok_def addBlock_simps(1) node
      by (auto simp: less_Suc_eq nth_list_update)
  qed
  have uniq: "m = m' \<and> i = j" if "valid d m" "valid d m'" "holds ?d m i c" "holds ?d m' j c" for m m' i j c
    using that used assms(1) unfolding h disk_inv_def unshared_def by blast
  show "disk_inv ?d" unfolding disk_inv_def unshared_def v using gd ok uniq by blast
  have "{j. j < blockCnt (super d) \<and> \<not> testBlock j d} = insert b {j. j < blockCnt (super d) \<and> \<not> testBlock j ?d}"
    using t fb by auto
  moreover have "b \<notin> {j. j < blockCnt (super d) \<and> \<not> testBlock j ?d}" using t fb(1) by auto
  ultimately show "freeCnt d = Suc (freeCnt ?d)" by (simp add: freeCnt_def addBlock_simps(1))
  have blk: "block ?d c = block d c" if "c < blockCnt (super d)" for c
  proof -
    let ?e = "updNode n (\<lambda>nd. nd\<lparr>dataBlocks := (dataBlocks nd)[blocksInUse nd := Some b], blocksInUse := blocksInUse nd + 1\<rparr>) d"
    have "geometry ?e" using gd by (simp add: geometry_def addBlock_def)
    then show ?thesis
      using block_assign [of ?e b c 1] fb(1) that by (simp add: addBlock_def) (simp add: updNode_def block_def blockAddr_def)
  qed
  have "owned ?d n = owned d n @ [b]"
    using dl assms(3) by (simp add: owned_def node take_Suc_conv_app_nth)
  moreover have "map (block ?d) (owned d n) = map (block d) (owned d n)"
    using owned_blocks [OF assms(1,2)] by (auto simp: blk)
  ultimately show "allocated ?d n = allocated d n @ block d b" using fb(1) by (simp add: allocated_def blk del: map_eq_conv)
  assume m: "valid d m" "m \<noteq> n"
  then have "owned ?d m = owned d m" by (simp add: owned_def node)
  moreover have "map (block ?d) (owned d m) = map (block d) (owned d m)"
    using owned_blocks [OF assms(1) m(1)] by (auto simp: blk)
  ultimately show "allocated ?d m = allocated d m" by (simp add: allocated_def del: map_eq_conv)
qed

end
