(* ===== verification/Vfs.thy ===== *)
theory Vfs
  imports Cpp_String Ram_Disk
begin

text \<open>
  The virtual file system (\<open>kernel/include/kernel/filesystem/vfs.h\<close>,
  \<open>kernel/kernel/filesystem/vfs.cpp\<close>): a tree of nodes kept in memory over the file systems that hold
  their data. Node pointers are indices into a list of nodes, in the order of their allocation; a deleted
  node is \<^const>\<open>None\<close>. The abstract class \<open>FileSystem\<close> is a record of operations on the state of
  all file systems, and \<open>fss\<close> gives the object behind a file system pointer. Path names are HOL strings and
  are split by the function that \<open>String::split\<close> is proved equal to in \<open>Cpp_String\<close>. An operation that
  follows a null or dangling pointer, or that a file system leaves undefined, is \<^const>\<open>None\<close>. The lock of
  \<open>VFS\<close> is the one of theory \<open>Mutex\<close>; here the operations run one at a time. Messages are left out.
\<close>

section \<open>Nodes and file systems (\<open>vfs.h\<close>)\<close>

record VNode = FsNode +
  name :: string
  children :: "nat list"
  parent :: "nat option"

record 'f FileSystem =
  fs_create :: "NodeType \<Rightarrow> VNode \<Rightarrow> 'f \<Rightarrow> ('f \<times> VNode) option"
  fs_remove :: "VNode \<Rightarrow> 'f \<Rightarrow> 'f option"
  fs_read :: "Resource \<Rightarrow> nat \<Rightarrow> nat \<Rightarrow> 'f \<Rightarrow> u8 list option"
  fs_write :: "Resource \<Rightarrow> nat \<Rightarrow> nat \<Rightarrow> u8 list \<Rightarrow> 'f \<Rightarrow> ('f \<times> Resource \<times> nat) option"
  fs_readDir :: "VNode \<Rightarrow> 'f \<Rightarrow> DirEntry list option"
  fs_writeDir :: "VNode \<Rightarrow> DirEntry list \<Rightarrow> 'f \<Rightarrow> ('f \<times> VNode) option"
  fs_removeDirEntry :: "VNode \<Rightarrow> DirEntry \<Rightarrow> 'f \<Rightarrow> 'f option"
  fs_populateVFSNode :: "int \<Rightarrow> VNode \<Rightarrow> 'f \<Rightarrow> VNode option"

record 'f VFS =
  root :: nat
  heap :: "VNode option list"
  fstate :: 'f

type_synonym 'f fsTable = "int \<Rightarrow> 'f FileSystem"

text \<open>The entry of a directory for a name: its bytes past the end of the name are those of the uninitialised
  structure, \<open>junk\<close>.\<close>

definition fromStringName :: "u8 list \<Rightarrow> string \<Rightarrow> int \<Rightarrow> DirEntry" where
  "fromStringName junk nm ino =
    (let len = min (length nm) 16
     in \<lparr>fileName = map of_char (take len nm) @ drop len junk, einode = of_int ino\<rparr>)"

text \<open>The characters up to the first NUL, as the conversion of \<open>entry.fileName\<close> to a string reads them.
  A name field without a NUL is read on into the bytes of the inode behind it (an inode below \<open>2\<^sup>2\<^sup>4\<close> has a zero
  byte, so that the string ends there).\<close>

definition entryName :: "DirEntry \<Rightarrow> string" where
  "entryName e = map (\<lambda>b. char_of (unat b)) (takeWhile (\<lambda>b. b \<noteq> 0) (encode_entry e))"

definition deref :: "nat \<Rightarrow> 'f VFS \<Rightarrow> VNode option" where
  "deref p s = (if p < length (heap s) then heap s ! p else None)"

definition set_node :: "nat \<Rightarrow> VNode \<Rightarrow> 'f VFS \<Rightarrow> 'f VFS" where
  "set_node p nd s = s\<lparr>heap := (heap s)[p := Some nd]\<rparr>"

definition blank_vnode :: "int option \<Rightarrow> VNode" where
  "blank_vnode fs = \<lparr>vtype = INVALID, vfileSystem = fs, resource = \<lparr>rinode = 0, rsize = 0, rdeviceID = 0\<rparr>,
     name = [], children = [], parent = None\<rparr>"

definition node_populate :: "'f fsTable \<Rightarrow> int option \<Rightarrow> string \<Rightarrow> int \<Rightarrow> VNode \<Rightarrow> 'f \<Rightarrow> VNode option" where
  "node_populate fss fs nm ino nd f = do { i \<leftarrow> fs; fs_populateVFSNode (fss i) ino (nd\<lparr>name := nm\<rparr>) f }"

definition node_create :: "'f fsTable \<Rightarrow> NodeType \<Rightarrow> VNode \<Rightarrow> 'f \<Rightarrow> ('f \<times> VNode) option" where
  "node_create fss ty nd f = do { i \<leftarrow> vfileSystem nd; fs_create (fss i) ty nd f }"

definition node_remove :: "'f fsTable \<Rightarrow> VNode \<Rightarrow> 'f \<Rightarrow> 'f option" where
  "node_remove fss nd f = do { i \<leftarrow> vfileSystem nd; fs_remove (fss i) nd f }"

definition node_read :: "'f fsTable \<Rightarrow> nat \<Rightarrow> nat \<Rightarrow> VNode \<Rightarrow> 'f \<Rightarrow> u8 list option" where
  "node_read fss offset sz nd f = do { i \<leftarrow> vfileSystem nd; fs_read (fss i) (resource nd) offset sz f }"

definition node_write :: "'f fsTable \<Rightarrow> nat \<Rightarrow> nat \<Rightarrow> u8 list \<Rightarrow> VNode \<Rightarrow> 'f \<Rightarrow> ('f \<times> VNode \<times> nat) option" where
  "node_write fss offset sz buf nd f = do {
     i \<leftarrow> vfileSystem nd;
     (f, r, k) \<leftarrow> fs_write (fss i) (resource nd) offset sz buf f;
     Some (f, nd\<lparr>resource := r\<rparr>, k) }"

definition node_readDir :: "'f fsTable \<Rightarrow> VNode \<Rightarrow> 'f \<Rightarrow> DirEntry list option" where
  "node_readDir fss nd f = do { i \<leftarrow> vfileSystem nd; fs_readDir (fss i) nd f }"

definition node_writeDir :: "'f fsTable \<Rightarrow> DirEntry list \<Rightarrow> VNode \<Rightarrow> 'f \<Rightarrow> ('f \<times> VNode) option" where
  "node_writeDir fss es nd f = do { i \<leftarrow> vfileSystem nd; fs_writeDir (fss i) nd es f }"

definition node_removeDirEntry :: "'f fsTable \<Rightarrow> DirEntry \<Rightarrow> VNode \<Rightarrow> 'f \<Rightarrow> 'f option" where
  "node_removeDirEntry fss e nd f = do { i \<leftarrow> vfileSystem nd; fs_removeDirEntry (fss i) nd e f }"

section \<open>Resolving paths (\<open>vfs.cpp\<close>)\<close>

definition new_VFS :: "'f fsTable \<Rightarrow> int option \<Rightarrow> int \<Rightarrow> string \<Rightarrow> 'f \<Rightarrow> 'f VFS option" where
  "new_VFS fss fs ino nm f = do {
     nd \<leftarrow> node_populate fss fs nm ino (blank_vnode fs) f;
     Some \<lparr>root = 0, heap = [Some nd], fstate = f\<rparr> }"

text \<open>The body of the loop of \<open>addChildren\<close> for one entry of the directory.\<close>

definition addChild :: "'f fsTable \<Rightarrow> nat \<Rightarrow> DirEntry \<Rightarrow> 'f VFS \<Rightarrow> 'f VFS option" where
  "addChild fss par e s = do {
     pn \<leftarrow> deref par s;
     nd \<leftarrow> node_populate fss (vfileSystem pn) (entryName e) (sint (einode e)) (blank_vnode (vfileSystem pn)) (fstate s);
     let q = length (heap s);
     let s = s\<lparr>heap := heap s @ [Some (nd\<lparr>parent := Some par\<rparr>)]\<rparr>;
     Some (set_node par (pn\<lparr>children := children pn @ [q]\<rparr>) s) }"

fun addChildren_loop :: "'f fsTable \<Rightarrow> nat \<Rightarrow> DirEntry list \<Rightarrow> 'f VFS \<Rightarrow> 'f VFS option" where
  "addChildren_loop fss par [] s = Some s"
| "addChildren_loop fss par (e # es) s = do { s \<leftarrow> addChild fss par e s; addChildren_loop fss par es s }"

definition addChildren :: "'f fsTable \<Rightarrow> nat \<Rightarrow> 'f VFS \<Rightarrow> 'f VFS option" where
  "addChildren fss par s = do {
     pn \<leftarrow> deref par s;
     es \<leftarrow> node_readDir fss pn (fstate s);
     addChildren_loop fss par es s }"

text \<open>The loop over the children: the first one of the given name; \<open>Some None\<close> when there is none.\<close>

fun find_child :: "string \<Rightarrow> nat list \<Rightarrow> 'f VFS \<Rightarrow> nat option option" where
  "find_child nm [] s = Some None"
| "find_child nm (c # cs) s = do {
     nd \<leftarrow> deref c s;
     if name nd = nm then Some (Some c) else find_child nm cs s }"

fun resolvePathUtil :: "'f fsTable \<Rightarrow> nat \<Rightarrow> string list \<Rightarrow> 'f VFS \<Rightarrow> (nat option \<times> 'f VFS) option" where
  "resolvePathUtil fss cur [] s = Some (Some cur, s)"
| "resolvePathUtil fss cur (e # es) s = do {
     nd \<leftarrow> deref cur s;
     s \<leftarrow> (if children nd = [] then addChildren fss cur s else Some s);
     nd \<leftarrow> deref cur s;
     r \<leftarrow> find_child e (children nd) s;
     (case r of None \<Rightarrow> Some (None, s) | Some c \<Rightarrow> resolvePathUtil fss c es s) }"

definition resolvePath :: "'f fsTable \<Rightarrow> string \<Rightarrow> 'f VFS \<Rightarrow> (nat option \<times> 'f VFS) option" where
  "resolvePath fss path s = do {
     let pathEntries = path_split CHR ''/'' path;
     rn \<leftarrow> deref (root s) s;
     if hd pathEntries \<noteq> name rn then Some (None, s)
     else resolvePathUtil fss (root s) (tl pathEntries) s }"

text \<open>The loop that moves the last component of a path to \<open>dirName\<close>; a path without \<open>/\<close> ends in a call of
  \<open>back\<close> on the empty string.\<close>

fun pop_name :: "string \<Rightarrow> string \<Rightarrow> (string \<times> string) option" where
  "pop_name [] dirName = None"
| "pop_name (c # cs) dirName =
    (if c = CHR ''/'' then Some (rev (c # cs), rev dirName) else pop_name cs (dirName @ [c]))"

definition split_parent :: "string \<Rightarrow> (string \<times> string) option" where
  "split_parent path = pop_name (rev path) []"

section \<open>Operations of the VFS\<close>

definition vfs_readDir :: "'f fsTable \<Rightarrow> string \<Rightarrow> 'f VFS \<Rightarrow> (nat list \<times> 'f VFS) option" where
  "vfs_readDir fss path s = do {
     (r, s) \<leftarrow> resolvePath fss path s;
     (case r of None \<Rightarrow> Some ([], s) | Some p \<Rightarrow> do { nd \<leftarrow> deref p s; Some (children nd, s) }) }"

text \<open>\<open>mkdir\<close> and \<open>mkfile\<close> are the same code but for the type of the new node.\<close>

definition vfs_make :: "NodeType \<Rightarrow> 'f fsTable \<Rightarrow> u8 list \<Rightarrow> string \<Rightarrow> 'f VFS \<Rightarrow> (nat option \<times> 'f VFS) option" where
  "vfs_make ty fss junk path s = do {
     (parentPath, nm) \<leftarrow> split_parent path;
     (r, s) \<leftarrow> resolvePath fss parentPath s;
     (case r of None \<Rightarrow> Some (None, s)
      | Some par \<Rightarrow> do {
          pn \<leftarrow> deref par s;
          (f, nd) \<leftarrow> node_create fss ty (blank_vnode (vfileSystem pn)) (fstate s);
          let q = length (heap s);
          let s = s\<lparr>heap := heap s @ [Some (nd\<lparr>name := nm, parent := Some par\<rparr>)], fstate := f\<rparr>;
          let pn = pn\<lparr>children := children pn @ [q]\<rparr>;
          (f, pn) \<leftarrow> node_writeDir fss [fromStringName junk nm (rinode (resource nd))] pn (fstate s);
          Some (Some q, set_node par pn (s\<lparr>fstate := f\<rparr>)) }) }"

definition vfs_mkdir :: "'f fsTable \<Rightarrow> u8 list \<Rightarrow> string \<Rightarrow> 'f VFS \<Rightarrow> (nat option \<times> 'f VFS) option" where
  "vfs_mkdir = vfs_make DIRECTORY"

definition vfs_mkfile :: "'f fsTable \<Rightarrow> u8 list \<Rightarrow> string \<Rightarrow> 'f VFS \<Rightarrow> (nat option \<times> 'f VFS) option" where
  "vfs_mkfile = vfs_make FILE"

definition vfs_openNode :: "'f fsTable \<Rightarrow> string \<Rightarrow> 'f VFS \<Rightarrow> (nat option \<times> 'f VFS) option" where
  "vfs_openNode fss path s = resolvePath fss path s"

definition vfs_mnt :: "'f fsTable \<Rightarrow> string \<Rightarrow> int option \<Rightarrow> int \<Rightarrow> 'f VFS \<Rightarrow> (nat option \<times> 'f VFS) option" where
  "vfs_mnt fss path fs ino s = do {
     (n, s) \<leftarrow> vfs_openNode fss path s;
     if n \<noteq> None then Some (None, s)
     else do {
       (parentPath, nm) \<leftarrow> split_parent path;
       (r, s) \<leftarrow> resolvePath fss parentPath s;
       (case r of None \<Rightarrow> Some (None, s)
        | Some par \<Rightarrow> do {
            nd \<leftarrow> node_populate fss fs nm ino (blank_vnode fs) (fstate s);
            pn \<leftarrow> deref par s;
            let q = length (heap s);
            let s = s\<lparr>heap := heap s @ [Some (nd\<lparr>parent := Some par\<rparr>)]\<rparr>;
            Some (Some q, set_node par (pn\<lparr>children := children pn @ [q]\<rparr>) s) }) } }"

text \<open>\<open>fastErase\<close> of a child (theory \<open>Cpp_Vector\<close>) on the list of children.\<close>

definition erase_child :: "nat \<Rightarrow> nat list \<Rightarrow> nat list" where
  "erase_child c cs =
    (case List.find (\<lambda>i. cs ! i = c) [0..<length cs] of None \<Rightarrow> cs
     | Some i \<Rightarrow> butlast (if i \<noteq> length cs - 1 then swap_at i (length cs - 1) cs else cs))"

text \<open>The part \<open>rmdir\<close> and \<open>rmfile\<close> share.\<close>

definition vfs_unlink :: "'f fsTable \<Rightarrow> nat \<Rightarrow> VNode \<Rightarrow> 'f VFS \<Rightarrow> 'f VFS option" where
  "vfs_unlink fss p nd s = do {
     f \<leftarrow> node_remove fss nd (fstate s);
     par \<leftarrow> parent nd;
     pn \<leftarrow> deref par s;
     let pn = pn\<lparr>children := erase_child p (children pn)\<rparr>;
     f \<leftarrow> node_removeDirEntry fss \<lparr>fileName = replicate 16 0, einode = of_int (rinode (resource nd))\<rparr> pn f;
     let s = set_node par pn s;
     Some (s\<lparr>heap := (heap s)[p := None], fstate := f\<rparr>) }"

definition vfs_rmdir :: "'f fsTable \<Rightarrow> string \<Rightarrow> 'f VFS \<Rightarrow> 'f VFS option" where
  "vfs_rmdir fss path s = do {
     (r, s) \<leftarrow> resolvePath fss path s;
     p \<leftarrow> r;
     nd \<leftarrow> deref p s;
     if children nd \<noteq> [] then Some s
     else if vtype nd \<noteq> DIRECTORY then Some s
     else vfs_unlink fss p nd s }"

definition vfs_rmfile :: "'f fsTable \<Rightarrow> string \<Rightarrow> 'f VFS \<Rightarrow> 'f VFS option" where
  "vfs_rmfile fss path s = do {
     (r, s) \<leftarrow> resolvePath fss path s;
     p \<leftarrow> r;
     nd \<leftarrow> deref p s;
     if vtype nd \<noteq> FILE then Some s
     else vfs_unlink fss p nd s }"

definition vfs_read :: "'f fsTable \<Rightarrow> string \<Rightarrow> nat \<Rightarrow> nat \<Rightarrow> 'f VFS \<Rightarrow> (u8 list \<times> 'f VFS) option" where
  "vfs_read fss path offset sz s = do {
     (r, s) \<leftarrow> resolvePath fss path s;
     (case r of None \<Rightarrow> Some ([], s)
      | Some p \<Rightarrow> do {
          nd \<leftarrow> deref p s;
          if vtype nd = INVALID then Some ([], s)
          else do { bytes \<leftarrow> node_read fss offset sz nd (fstate s); Some (bytes, s) } }) }"

definition vfs_write :: "'f fsTable \<Rightarrow> string \<Rightarrow> nat \<Rightarrow> nat \<Rightarrow> u8 list \<Rightarrow> 'f VFS \<Rightarrow> 'f VFS option" where
  "vfs_write fss path offset sz buf s = do {
     (r, s) \<leftarrow> resolvePath fss path s;
     (case r of None \<Rightarrow> Some s
      | Some p \<Rightarrow> do {
          nd \<leftarrow> deref p s;
          if vtype nd = INVALID then Some s
          else do { (f, nd, _) \<leftarrow> node_write fss offset sz buf nd (fstate s);
                    Some (set_node p nd (s\<lparr>fstate := f\<rparr>)) } }) }"

section \<open>The RAM disk as a file system\<close>

definition ramdisk_ops :: "RamDisk FileSystem" where
  "ramdisk_ops = \<lparr>fs_create = disk_create, fs_remove = disk_remove, fs_read = disk_read, fs_write = disk_write,
     fs_readDir = disk_readDir, fs_writeDir = disk_writeDir, fs_removeDirEntry = disk_removeDirEntry,
     fs_populateVFSNode = populateVFSNode\<rparr>"

lemma ramdisk_ops_simps [simp]:
  "fs_create ramdisk_ops = disk_create" "fs_remove ramdisk_ops = disk_remove" "fs_read ramdisk_ops = disk_read"
  "fs_write ramdisk_ops = disk_write" "fs_readDir ramdisk_ops = disk_readDir" "fs_writeDir ramdisk_ops = disk_writeDir"
  "fs_removeDirEntry ramdisk_ops = disk_removeDirEntry" "fs_populateVFSNode ramdisk_ops = populateVFSNode"
  by (simp_all add: ramdisk_ops_def)

lemma blank_vnode_simps [simp]:
  "vfileSystem (blank_vnode fs) = fs" "children (blank_vnode fs) = []" "name (blank_vnode fs) = []" "parent (blank_vnode fs) = None"
  by (simp_all add: blank_vnode_def)

section \<open>Growth of the tree\<close>

text \<open>The tree only grows in this sense under path resolution and creation: nodes keep their address and name,
  and children are added at the end.\<close>

definition grows :: "'f VFS \<Rightarrow> 'f VFS \<Rightarrow> bool" where
  "grows s s' \<longleftrightarrow> root s' = root s \<and>
    (\<forall>p nd. deref p s = Some nd \<longrightarrow> (\<exists>nd' cs. deref p s' = Some nd' \<and> name nd' = name nd \<and> children nd' = children nd @ cs))"

lemma grows_refl: "grows s s"
  by (auto simp: grows_def)

lemma growsD: "grows s s' \<Longrightarrow> deref p s = Some nd \<Longrightarrow> \<exists>nd' cs. deref p s' = Some nd' \<and> name nd' = name nd \<and> children nd' = children nd @ cs"
  by (simp add: grows_def)

lemma grows_trans: "grows s s' \<Longrightarrow> grows s' s'' \<Longrightarrow> grows s s''"
  unfolding grows_def by (metis append.assoc)

lemma deref_len: "deref p s = Some nd \<Longrightarrow> p < length (heap s)"
  by (simp add: deref_def split: if_splits)

lemma deref_set_node: "q < length (heap s) \<Longrightarrow> deref p (set_node q nd s) = (if p = q then Some nd else deref p s)"
  by (simp add: deref_def set_node_def)

lemma deref_app:
  "deref p (s\<lparr>heap := heap s @ [x], fstate := f\<rparr>) = (if p < length (heap s) then deref p s else if p = length (heap s) then x else None)"
  "deref p (s\<lparr>heap := heap s @ [x]\<rparr>) = (if p < length (heap s) then deref p s else if p = length (heap s) then x else None)"
  "deref p (s\<lparr>fstate := f\<rparr>) = deref p s"
  by (auto simp: deref_def nth_append)

lemma grows_set_node:
  assumes "deref p s = Some nd" "name nd' = name nd" "children nd' = children nd @ cs"
  shows "grows s (set_node p nd' s)"
  using assms deref_len [OF assms(1)] by (auto simp: grows_def deref_set_node) (auto simp: set_node_def)

lemma grows_new_child:
  assumes "deref par s = Some pn" "name pn' = name pn" "children pn' = children pn @ cs"
  shows "grows s (set_node par pn' (s\<lparr>heap := heap s @ [x], fstate := f\<rparr>))"
    "grows s (set_node par pn' (s\<lparr>heap := heap s @ [x]\<rparr>))"
  using assms deref_len [OF assms(1)]
  by (auto simp: grows_def deref_set_node deref_app dest: deref_len) (auto simp: set_node_def deref_def)

lemma addChild_grows: "addChild fss par e s = Some s' \<Longrightarrow> grows s s'"
  by (auto simp: addChild_def Let_def split: bind_splits intro!: grows_new_child)

lemma addChildren_loop_grows: "addChildren_loop fss par es s = Some s' \<Longrightarrow> grows s s'"
  by (induction es arbitrary: s) (auto intro: grows_refl grows_trans addChild_grows split: bind_splits)

lemma addChildren_grows: "addChildren fss par s = Some s' \<Longrightarrow> grows s s'"
  by (auto simp: addChildren_def intro: addChildren_loop_grows split: bind_splits)

lemma resolve_grows: "resolvePathUtil fss cur es s = Some (r, s') \<Longrightarrow> grows s s'"
proof (induction es arbitrary: cur s)
  case Nil
  then show ?case by (simp add: grows_refl)
next
  case (Cons e es)
  then obtain nd s1 nd1 x where a: "deref cur s = Some nd" "(if children nd = [] then addChildren fss cur s else Some s) = Some s1"
    "deref cur s1 = Some nd1" "find_child e (children nd1) s1 = Some x"
    "(case x of None \<Rightarrow> Some (None, s1) | Some c \<Rightarrow> resolvePathUtil fss c es s1) = Some (r, s')"
    by (auto split: bind_splits)
  have "grows s s1" using a(2) addChildren_grows grows_refl by (auto split: if_splits)
  moreover have "grows s1 s'" using a(5) Cons.IH by (auto split: option.splits intro: grows_refl)
  ultimately show ?case by (rule grows_trans)
qed

section \<open>Walks\<close>

text \<open>Following a path through the tree as it is, through nodes whose children are loaded.\<close>

fun walk :: "'f VFS \<Rightarrow> nat \<Rightarrow> string list \<Rightarrow> nat option" where
  "walk s cur [] = Some cur"
| "walk s cur (e # es) = do {
     nd \<leftarrow> deref cur s;
     r \<leftarrow> find_child e (children nd) s;
     c \<leftarrow> r;
     walk s c es }"

lemma find_child_Some:
  "find_child nm cs s = Some (Some c) \<longleftrightarrow>
    (\<exists>us vs nd. cs = us @ c # vs \<and> deref c s = Some nd \<and> name nd = nm \<and> (\<forall>u\<in>set us. \<exists>n. deref u s = Some n \<and> name n \<noteq> nm))"
proof (induction cs)
  case (Cons a cs)
  show ?case
  proof (cases "deref a s")
    case (Some nd)
    show ?thesis
    proof (cases "name nd = nm")
      case True
      then have "find_child nm (a # cs) s = Some (Some c) \<longleftrightarrow> a = c" using Some by simp
      moreover have "a = c" if "a # cs = us @ c # vs" "\<forall>u\<in>set us. \<exists>n. deref u s = Some n \<and> name n \<noteq> nm" for us vs
        using that True Some by (cases us) auto
      ultimately show ?thesis using True Some by (metis append_Nil empty_iff list.set(1))
    next
      case False
      then have e: "find_child nm (a # cs) s = find_child nm cs s" using Some by simp
      show ?thesis
        unfolding e Cons
      proof (intro iffI; elim exE conjE)
        fix us vs n
        assume h: "cs = us @ c # vs" "deref c s = Some n" "name n = nm" "\<forall>u\<in>set us. \<exists>n. deref u s = Some n \<and> name n \<noteq> nm"
        then show "\<exists>us vs nd. a # cs = us @ c # vs \<and> deref c s = Some nd \<and> name nd = nm \<and>
            (\<forall>u\<in>set us. \<exists>n. deref u s = Some n \<and> name n \<noteq> nm)"
          using Some False by (intro exI [of _ "a # us"] exI [of _ vs] exI [of _ n]) simp
      next
        fix us vs n
        assume h: "a # cs = us @ c # vs" "deref c s = Some n" "name n = nm" "\<forall>u\<in>set us. \<exists>n. deref u s = Some n \<and> name n \<noteq> nm"
        then obtain us' where "us = a # us'" using Some False by (cases us) auto
        then show "\<exists>us vs nd. cs = us @ c # vs \<and> deref c s = Some nd \<and> name nd = nm \<and>
            (\<forall>u\<in>set us. \<exists>n. deref u s = Some n \<and> name n \<noteq> nm)"
          using h by (intro exI [of _ us'] exI [of _ vs] exI [of _ n]) simp
      qed
    qed
  next
    case None
    then have "us = [] \<Longrightarrow> a # cs = us @ c # vs \<Longrightarrow> deref c s = None" for us vs by simp
    then show ?thesis using None by (auto simp: Cons_eq_append_conv)
  qed
qed simp

lemma find_child_grows:
  assumes "find_child nm cs s = Some (Some c)" "grows s s'"
  shows "find_child nm (cs @ ds) s' = Some (Some c)"
proof -
  obtain us vs nd where f: "cs = us @ c # vs" "deref c s = Some nd" "name nd = nm"
    "\<forall>u\<in>set us. \<exists>n. deref u s = Some n \<and> name n \<noteq> nm"
    using assms(1) find_child_Some by metis
  have "\<exists>n. deref u s' = Some n \<and> name n \<noteq> nm" if "u \<in> set us" for u
    using f(4) that growsD [OF assms(2)] by metis
  moreover obtain nd' where "deref c s' = Some nd'" "name nd' = nm" using growsD [OF assms(2) f(2)] f(3) by metis
  ultimately show ?thesis
    unfolding find_child_Some using f(1) by (intro exI [of _ us] exI [of _ "vs @ ds"] exI [of _ nd']) simp
qed

lemma walk_grows: "walk s cur es = Some p \<Longrightarrow> grows s s' \<Longrightarrow> walk s' cur es = Some p"
proof (induction es arbitrary: cur)
  case (Cons e es)
  then obtain nd c where a: "deref cur s = Some nd" "find_child e (children nd) s = Some (Some c)" "walk s c es = Some p"
    by (auto split: bind_splits)
  obtain nd' cs where "deref cur s' = Some nd'" "children nd' = children nd @ cs" using growsD [OF Cons.prems(2) a(1)] by blast
  then show ?case using find_child_grows [OF a(2) Cons.prems(2), of cs] Cons.IH [OF a(3) Cons.prems(2)] by simp
qed simp

lemma walk_append: "walk s cur (es @ es') = Option.bind (walk s cur es) (\<lambda>p. walk s p es')"
  by (induction es arbitrary: cur) (auto split: bind_splits)

lemma resolve_walk: "resolvePathUtil fss cur es s = Some (Some p, s') \<Longrightarrow> walk s' cur es = Some p"
proof (induction es arbitrary: cur s)
  case (Cons e es)
  then obtain nd s1 nd1 c where a: "deref cur s1 = Some nd1" "find_child e (children nd1) s1 = Some (Some c)"
    "resolvePathUtil fss c es s1 = Some (Some p, s')"
    by (auto split: bind_splits option.splits)
  have g: "grows s1 s'" by (rule resolve_grows [OF a(3)])
  obtain nd' cs where "deref cur s' = Some nd'" "children nd' = children nd1 @ cs" using growsD [OF g a(1)] by blast
  then show ?case using find_child_grows [OF a(2) g, of cs] Cons.IH [OF a(3)] by simp
qed simp

lemma walk_resolve: "walk s cur es = Some p \<Longrightarrow> resolvePathUtil fss cur es s = Some (Some p, s)"
proof (induction es arbitrary: cur)
  case (Cons e es)
  then obtain nd c where a: "deref cur s = Some nd" "find_child e (children nd) s = Some (Some c)" "walk s c es = Some p"
    by (auto split: bind_splits)
  then have "children nd \<noteq> []" by auto
  then show ?case using a Cons.IH by simp
qed simp

text \<open>Path names at the level of \<open>resolvePath\<close>.\<close>

definition reaches :: "'f VFS \<Rightarrow> string \<Rightarrow> nat \<Rightarrow> bool" where
  "reaches s path p \<longleftrightarrow> (\<exists>rn. deref (root s) s = Some rn \<and> hd (path_split CHR ''/'' path) = name rn \<and>
     walk s (root s) (tl (path_split CHR ''/'' path)) = Some p)"

lemma resolve_reaches: "resolvePath fss path s = Some (Some p, s') \<Longrightarrow> reaches s' path p \<and> grows s s'"
proof -
  assume "resolvePath fss path s = Some (Some p, s')"
  then obtain rn where r: "deref (root s) s = Some rn" "hd (path_split CHR ''/'' path) = name rn"
    "resolvePathUtil fss (root s) (tl (path_split CHR ''/'' path)) s = Some (Some p, s')"
    by (auto simp: resolvePath_def Let_def split: bind_splits if_splits)
  have g: "grows s s'" by (rule resolve_grows [OF r(3)])
  then have "root s' = root s" by (simp add: grows_def)
  then show ?thesis using g r resolve_walk [OF r(3)] growsD [OF g r(1)] by (auto simp: reaches_def)
qed

lemma reaches_resolve: "reaches s path p \<Longrightarrow> resolvePath fss path s = Some (Some p, s)"
  by (auto simp: reaches_def resolvePath_def Let_def walk_resolve)

lemma reaches_grows: "reaches s path p \<Longrightarrow> grows s s' \<Longrightarrow> reaches s' path p"
proof -
  assume g: "grows s s'" and "reaches s path p"
  then obtain rn where r: "deref (root s) s = Some rn" "hd (path_split CHR ''/'' path) = name rn"
    "walk s (root s) (tl (path_split CHR ''/'' path)) = Some p" by (auto simp: reaches_def)
  have "root s' = root s" using g by (simp add: grows_def)
  moreover obtain rn' where "deref (root s) s' = Some rn'" "name rn' = name rn" using growsD [OF g r(1)] by blast
  ultimately show ?thesis using r walk_grows [OF r(3) g] by (simp add: reaches_def)
qed

section \<open>Path names\<close>

lemma pop_name_eq: "pop_name rs dn = (case dropWhile (\<lambda>c. c \<noteq> CHR ''/'') rs of [] \<Rightarrow> None
    | c # cs \<Rightarrow> Some (rev (c # cs), rev (dn @ takeWhile (\<lambda>c. c \<noteq> CHR ''/'') rs)))"
proof (induction rs arbitrary: dn)
  case (Cons a rs)
  show ?case
    by (cases "a = CHR ''/''"; cases "dropWhile (\<lambda>c. c \<noteq> CHR ''/'') rs") (simp_all add: Cons del: dropWhile_eq_Nil_conv)
qed simp

lemma split_parent_Some:
  assumes "split_parent path = Some (pp, nm)"
  obtains u where "pp = u @ ''/''" "path = u @ CHR ''/'' # nm" "CHR ''/'' \<notin> set nm"
proof -
  obtain c cs where c: "dropWhile (\<lambda>c. c \<noteq> CHR ''/'') (rev path) = c # cs" "pp = rev (c # cs)"
    "nm = rev (takeWhile (\<lambda>c. c \<noteq> CHR ''/'') (rev path))"
    using assms by (auto simp: split_parent_def pop_name_eq split: list.splits)
  moreover have "c = CHR ''/''" using c(1) by (simp add: dropWhile_eq_Cons_conv)
  ultimately have d: "dropWhile (\<lambda>c. c \<noteq> CHR ''/'') (rev path) = CHR ''/'' # cs" "pp = rev (CHR ''/'' # cs)"
    "nm = rev (takeWhile (\<lambda>c. c \<noteq> CHR ''/'') (rev path))" by simp_all
  have "rev path = rev nm @ CHR ''/'' # cs" using d(1,3) by (metis rev_rev_ident takeWhile_dropWhile_id)
  then have "path = rev cs @ CHR ''/'' # nm" by (metis append.assoc append_Cons append_Nil rev.simps(2) rev_append rev_rev_ident)
  moreover have "CHR ''/'' \<notin> set nm" using d(3) by (auto dest: set_takeWhileD)
  ultimately show ?thesis using that [of "rev cs"] d(2) by simp
qed

lemma split_on_snoc: "d \<notin> set nm \<Longrightarrow> split_on d (u @ d # nm) = split_on d u @ [nm]"
proof (induction d u rule: split_on.induct)
  case (1 d u)
  have "dropWhile (\<lambda>c. c \<noteq> d) nm = []" using "1.prems" by (auto simp: dropWhile_eq_Nil_conv)
  then have nm: "split_on d nm = [nm]" by (subst split_on.simps) (simp only: list.case)
  show ?case
  proof (cases "dropWhile (\<lambda>c. c \<noteq> d) u")
    case Nil
    then have su: "split_on d u = [u]" by (subst split_on.simps) (simp only: list.case)
    have "\<forall>c\<in>set u. c \<noteq> d" using Nil by (simp add: dropWhile_eq_Nil_conv)
    then have "split_on d (u @ d # nm) = u # split_on d nm"
      by (subst split_on.simps) (simp add: dropWhile_append takeWhile_append)
    then show ?thesis using su nm by simp
  next
    case (Cons x rest)
    then have "x = d" using hd_dropWhile [of "\<lambda>c. c \<noteq> d" u] by auto
    have e: "\<not> (\<forall>c\<in>set u. c \<noteq> d)" using Cons by (auto simp: dropWhile_eq_Nil_conv [symmetric])
    have "dropWhile (\<lambda>c. c \<noteq> d) (u @ d # nm) = x # rest @ d # nm" "takeWhile (\<lambda>c. c \<noteq> d) (u @ d # nm) = takeWhile (\<lambda>c. c \<noteq> d) u"
      using Cons e by (auto simp: dropWhile_append takeWhile_append)
    then have "split_on d (u @ d # nm) = takeWhile (\<lambda>c. c \<noteq> d) u # split_on d (rest @ d # nm)"
      by (subst split_on.simps) simp
    also have "split_on d (rest @ d # nm) = split_on d rest @ [nm]" using 1 Cons by simp
    finally show ?thesis using Cons by (subst (2) split_on.simps) simp
  qed
qed

lemma path_split_child:
  assumes "split_parent path = Some (pp, nm)" "nm \<noteq> []"
  shows "path_split CHR ''/'' path = path_split CHR ''/'' pp @ [nm]" "path_split CHR ''/'' pp \<noteq> []"
proof -
  obtain u where u: "pp = u @ ''/''" "path = u @ CHR ''/'' # nm" "CHR ''/'' \<notin> set nm"
    using split_parent_Some [OF assms(1)] .
  have "path_split CHR ''/'' path = split_on CHR ''/'' u @ [nm]"
    using split_on_snoc [OF u(3), of u] assms(2) by (simp add: path_split_def u(2))
  moreover have "path_split CHR ''/'' pp = split_on CHR ''/'' u"
    using split_on_snoc [of "CHR ''/''" "[]" u] by (simp add: path_split_def u(1))
  ultimately show "path_split CHR ''/'' path = path_split CHR ''/'' pp @ [nm]" "path_split CHR ''/'' pp \<noteq> []"
    using split_on_nonempty by auto
qed

end
