(* ===== verification/Disk_Files.thy ===== *)
theory Disk_Files
  imports Ram_Disk
begin

text \<open>
  The contract of the RAM disk: writing, creating and removing files and directory entries on a well-formed
  disk (\<open>disk_inv\<close> of \<open>Ram_Disk\<close>), in terms of the contents of its files; the concrete disks of the
  witnesses; and the disk \<open>createRamdisk\<close> makes, which is not well-formed.
\<close>

section \<open>Writing a file\<close>

text \<open>What a write may change: the blocks of node \<open>n\<close> and nothing else.\<close>

definition only_node :: "nat \<Rightarrow> RamDisk \<Rightarrow> RamDisk \<Rightarrow> bool" where
  "only_node n d d' \<longleftrightarrow> super d' = super d \<and> deviceID d' = deviceID d \<and> length (nodes d') = length (nodes d) \<and>
    ntype (nodes d' ! n) = ntype (nodes d ! n) \<and> inode (nodes d' ! n) = inode (nodes d ! n) \<and>
    (\<forall>m. m \<noteq> n \<longrightarrow> nodes d' ! m = nodes d ! m) \<and>
    (\<forall>m. valid d m \<longrightarrow> m \<noteq> n \<longrightarrow> allocated d' m = allocated d m)"

lemma only_node_refl: "only_node n d d"
  by (simp add: only_node_def)

lemma only_node_valid: "only_node n d d' \<Longrightarrow> valid d' m = valid d m"
  by (cases "m = n") (auto simp: only_node_def valid_def)

lemma only_node_trans: "only_node n d d' \<Longrightarrow> only_node n d' d'' \<Longrightarrow> only_node n d d''"
  using only_node_valid [of n d d'] by (auto simp: only_node_def)

definition room :: "RamDisk \<Rightarrow> nat \<Rightarrow> nat" where
  "room d n = 512 * min 10 (blocksInUse (nodes d ! n) + freeCnt d)"

text \<open>One round of the loop in \<open>RamDisk::write\<close>, with the block it needs.\<close>

lemma ensure_block:
  assumes "disk_inv d" "valid d n" "i < 10" "i \<le> blocksInUse (nodes d ! n)"
    "\<not> (i = blocksInUse (nodes d ! n) \<and> getFreeDataBlock d = None)"
    "d1 = (if i = blocksInUse (nodes d ! n) then addBlock n (the (getFreeDataBlock d)) d else d)"
  obtains fresh where "disk_inv d1" "only_node n d d1" "i < blocksInUse (nodes d1 ! n)" "room d1 n = room d n"
    "nsize (nodes d1 ! n) = nsize (nodes d ! n)" "allocated d1 n = allocated d n @ fresh"
proof (cases "i = blocksInUse (nodes d ! n)")
  case True
  then obtain b where b: "getFreeDataBlock d = Some b" using assms(5) by auto
  have d1: "d1 = addBlock n b d" using True b assms(6) by simp
  have n: "n < length (nodes d)" using assms(2) by (simp add: valid_def)
  have u: "blocksInUse (nodes d ! n) < 10" using True assms(3) by simp
  note ab = addBlock_spec [OF assms(1,2) u b]
  have nd: "nodes d1 ! n = (nodes d ! n)\<lparr>dataBlocks := (dataBlocks (nodes d ! n))[blocksInUse (nodes d ! n) := Some b],
      blocksInUse := blocksInUse (nodes d ! n) + 1\<rparr>" "m \<noteq> n \<Longrightarrow> nodes d1 ! m = nodes d ! m" for m
    using n by (simp_all add: d1 addBlock_simps)
  have "only_node n d d1" using ab(4) nd by (simp add: only_node_def addBlock_simps(1-3) d1)
  moreover have "room d1 n = room d n" using ab(2) nd by (simp add: room_def d1)
  ultimately show ?thesis using that ab(1,3) nd True by (simp add: d1)
next
  case False
  then show ?thesis using that [of "[]"] assms only_node_refl by simp
qed

lemma write_round:
  assumes "disk_inv d" "valid d n" "i < 10" "i \<le> blocksInUse (nodes d ! n)"
    "\<not> (i = blocksInUse (nodes d ! n) \<and> getFreeDataBlock d = None)" "prev < 512" "k < sz" "sz \<le> length buf"
  defines "m \<equiv> min (512 - prev) (sz - k)"
  obtains d2 fresh where "write_blocks n sz buf i prev d k = write_blocks n sz buf (Suc i) 0 d2 (k + m)"
    "disk_inv d2" "only_node n d d2" "Suc i \<le> blocksInUse (nodes d2 ! n)" "room d2 n = room d n" "512 * Suc i \<le> room d n"
    "nsize (nodes d2 ! n) = nsize (nodes d ! n)"
    "allocated d2 n = patch (512 * i + prev) (take m (drop k buf)) (allocated d n @ fresh)"
    "512 * i + prev + m \<le> length (allocated d n @ fresh)"
proof -
  define d1 where "d1 = (if i = blocksInUse (nodes d ! n) then addBlock n (the (getFreeDataBlock d)) d else d)"
  obtain fresh where d1: "disk_inv d1" "only_node n d d1" "i < blocksInUse (nodes d1 ! n)" "room d1 n = room d n"
    "nsize (nodes d1 ! n) = nsize (nodes d ! n)" "allocated d1 n = allocated d n @ fresh"
    using ensure_block [OF assms(1-5) d1_def] by blast
  have v1: "valid d1 n" using only_node_valid [OF d1(2)] assms(2) by simp
  define b where "b = owned d1 n ! i"
  have b: "dataBlocks (nodes d1 ! n) ! i = Some b" "b < blockCnt (super d1)"
    using owned_slots(2) [OF d1(1) v1 d1(3)] by (simp_all add: b_def)
  define ys where "ys = take m (drop k buf)"
  have ly: "length ys = m" using assms(7,8) by (simp add: ys_def m_def)
  have pm: "prev + length ys \<le> 512" using assms(6) by (simp add: ly m_def)
  define d2 where "d2 = d1\<lparr>store := patch (blockAddr d1 b + prev) ys (store d1)\<rparr>"
  have wb: "write_block (blockAddr d1 b) prev sz buf (store d1) k = Some (store d2, k + m)"
    using write_block_eq [of "blockAddr d1 b" "store d1" prev sz buf k] assms(6-8)
      block_fits(1) [OF disk_inv_geometry [OF d1(1)] b(2)] by (simp add: d2_def ys_def m_def)
  have nd2: "nodes d2 = nodes d1" by (simp add: d2_def)
  have "only_node n d1 d2"
    using allocated_patch(2) [OF d1(1) v1 d1(3) pm] by (simp add: only_node_def d2_def b_def)
  then have o2: "only_node n d d2" using d1(2) only_node_trans by blast
  have a2: "allocated d2 n = patch (512 * i + prev) ys (allocated d n @ fresh)"
    using allocated_patch(1) [OF d1(1) v1 d1(3) pm] by (simp add: d2_def b_def d1(6))
  have len: "512 * i + prev + m \<le> length (allocated d n @ fresh)"
    using length_allocated [OF d1(1) v1] d1(3,6) pm ly by (simp add: algebra_simps)
  have "Suc i \<le> min 10 (blocksInUse (nodes d1 ! n) + freeCnt d1)" using d1(3) assms(3) by simp
  then have "512 * Suc i \<le> room d1 n" unfolding room_def by (rule mult_le_mono2)
  moreover have "room d2 n = room d n"
    using store_patch_inv(2) [OF d1(1) b(2) pm] nd2 d1(4) by (simp add: room_def d2_def)
  moreover have "write_blocks n sz buf i prev d k = write_blocks n sz buf (Suc i) 0 d2 (k + m)"
    using assms(3,5,7) wb b(1) by (subst write_blocks.simps) (auto simp: d1_def [symmetric] d2_def)
  ultimately show ?thesis
    using that store_patch_inv(1) [OF d1(1) b(2) pm] o2 d1(3-5) nd2 a2 len by (simp add: d2_def ys_def)
qed

lemma patch_join:
  assumes "p + length ys \<le> length (xs @ us)" "zs = [] \<or> p + length ys = q"
    "zs \<noteq> [] \<Longrightarrow> q + length zs \<le> length (xs @ us @ vs)"
  shows "patch q zs (patch p ys (xs @ us) @ vs) = patch p (ys @ zs) (xs @ us @ vs)"
proof (cases "zs = []")
  case True
  then show ?thesis using patch_append [OF assms(1), of vs] by simp
next
  case False
  then show ?thesis
    using assms patch_append [OF assms(1), of vs] patch_patch [of p ys zs "xs @ us @ vs"] by simp
qed

lemma write_amount:
  assumes "prev < 512" "k \<le> sz" "512 * Suc i \<le> r"
  shows "min sz (k + min (512 - prev) (sz - k) + (r - 512 * Suc i)) = min sz (k + (r - (512 * i + prev)))"
proof -
  obtain s where r: "r = 512 * Suc i + s" using assms(3) le_Suc_ex by blast
  show ?thesis unfolding r using assms(1,2) by (cases "sz - k \<le> 512 - prev") auto
qed

lemma write_blocks_spec:
  assumes "disk_inv d" "valid d n" "i \<le> blocksInUse (nodes d ! n)" "prev < 512" "k \<le> sz" "sz \<le> length buf"
    "512 * i + prev + (sz - k) \<le> 5120"
  shows "\<exists>d' k' fresh. write_blocks n sz buf i prev d k = Some (d', k') \<and> disk_inv d' \<and> only_node n d d' \<and>
    nsize (nodes d' ! n) = nsize (nodes d ! n) \<and> room d' n = room d n \<and> k' = min sz (k + (room d n - (512 * i + prev))) \<and>
    allocated d' n = patch (512 * i + prev) (take (k' - k) (drop k buf)) (allocated d n @ fresh) \<and>
    (k < k' \<longrightarrow> 512 * i + prev + (k' - k) \<le> length (allocated d n @ fresh))"
  using assms
proof (induction "10 - i" arbitrary: i prev d k)
  case 0
  then have "sz = k" by simp
  then have "write_blocks n sz buf i prev d k = Some (d, k)" by (subst write_blocks.simps) simp
  then show ?case using 0 \<open>sz = k\<close> by (auto simp: only_node_refl intro!: exI [of _ "[]"])
next
  case (Suc x)
  have i: "i < 10" using Suc(2) by simp
  consider "\<not> k < sz" | "k < sz" "i = blocksInUse (nodes d ! n) \<and> getFreeDataBlock d = None"
    | "k < sz" "\<not> (i = blocksInUse (nodes d ! n) \<and> getFreeDataBlock d = None)" by blast
  then show ?case
  proof cases
    case 1
    then have "write_blocks n sz buf i prev d k = Some (d, k)" by (subst write_blocks.simps) simp
    then show ?thesis using Suc.prems 1 by (auto simp: only_node_refl intro!: exI [of _ "[]"])
  next
    case 2
    then have "write_blocks n sz buf i prev d k = Some (d, k)" using i by (subst write_blocks.simps) simp
    moreover have "room d n = 512 * i" using 2(2) i by (simp add: room_def getFreeDataBlock_None)
    ultimately show ?thesis using Suc.prems by (auto simp: only_node_refl intro!: exI [of _ "[]"])
  next
    case 3
    define m where "m = min (512 - prev) (sz - k)"
    obtain d2 fresh where d2: "write_blocks n sz buf i prev d k = write_blocks n sz buf (Suc i) 0 d2 (k + m)"
      "disk_inv d2" "only_node n d d2" "Suc i \<le> blocksInUse (nodes d2 ! n)" "room d2 n = room d n" "512 * Suc i \<le> room d n"
      "nsize (nodes d2 ! n) = nsize (nodes d ! n)"
      "allocated d2 n = patch (512 * i + prev) (take m (drop k buf)) (allocated d n @ fresh)"
      "512 * i + prev + m \<le> length (allocated d n @ fresh)"
      using write_round [OF Suc.prems(1,2) i Suc.prems(3) 3(2) Suc.prems(4) 3(1) Suc.prems(6)] unfolding m_def by blast
    have x: "x = 10 - Suc i" using Suc(2) by simp
    have c: "k + m \<le> sz" "512 * Suc i + 0 + (sz - (k + m)) \<le> 5120" using Suc.prems(5,7) i by (auto simp: m_def)
    have v2: "valid d2 n" using only_node_valid [OF d2(3)] Suc.prems(2) by simp
    obtain d' k' fresh' where IH: "write_blocks n sz buf (Suc i) 0 d2 (k + m) = Some (d', k')" "disk_inv d'"
      "only_node n d2 d'" "nsize (nodes d' ! n) = nsize (nodes d2 ! n)" "room d' n = room d n" "k' = min sz (k + m + (room d n - 512 * Suc i))"
      "allocated d' n = patch (512 * Suc i) (take (k' - (k + m)) (drop (k + m) buf)) (allocated d2 n @ fresh')"
      "k + m < k' \<longrightarrow> 512 * Suc i + (k' - (k + m)) \<le> length (allocated d2 n @ fresh')"
      using Suc(1) [OF x d2(2) v2 d2(4) zero_less_numeral c(1) Suc.prems(6) c(2), unfolded d2(5) add_0_right]
      by blast
    define ys zs where "ys = take m (drop k buf)" and "zs = take (k' - (k + m)) (drop (k + m) buf)"
    have "k' = min sz (k + (room d n - (512 * i + prev)))"
      using write_amount [OF Suc.prems(4,5) d2(6)] unfolding IH(6) m_def by simp
    moreover have "k + m \<le> k'" "k' \<le> sz" using c(1) unfolding IH(6) by simp_all
    ultimately have k': "k' = min sz (k + (room d n - (512 * i + prev)))" "k + m \<le> k'" "k' \<le> sz" .
    have l: "length ys = m" "length zs = k' - (k + m)" "length (allocated d2 n) = length (allocated d n @ fresh)"
      using k' c(1) Suc.prems(6) d2(8,9) by (auto simp: ys_def zs_def)
    have end_block: "k' = k + m \<or> 512 * i + prev + m = 512 * Suc i" using k'(2,3) Suc.prems(4,5) unfolding m_def by auto
    have yz: "take (k' - k) (drop k buf) = ys @ zs"
      using k'(2) take_add [of m "k' - (k + m)" "drop k buf"] by (simp add: ys_def zs_def add.commute)
    have "allocated d' n = patch (512 * i + prev) (ys @ zs) (allocated d n @ fresh @ fresh')"
      unfolding IH(7) d2(8) ys_def [symmetric] zs_def [symmetric]
      using d2(9) l end_block IH(8) k'(2) by (intro patch_join) auto
    moreover have "512 * i + prev + (k' - k) \<le> length (allocated d n @ fresh @ fresh')"
      using d2(9) end_block IH(8) k'(2) l(3) by (cases "k' = k + m") auto
    moreover have "nsize (nodes d' ! n) = nsize (nodes d ! n)" using IH(4) d2(7) by simp
    ultimately show ?thesis
      using d2(1) IH(1,2,5) k'(1) only_node_trans [OF d2(3) IH(3)] unfolding yz [symmetric] by metis
  qed
qed

text \<open>Changing the size of a node within its blocks.\<close>

lemma set_size_spec:
  assumes "disk_inv d" "valid d n" "s \<le> 512 * blocksInUse (nodes d ! n)"
  shows "disk_inv (updNode n (\<lambda>nd. nd\<lparr>nsize := s\<rparr>) d)"
    "only_node n d (updNode n (\<lambda>nd. nd\<lparr>nsize := s\<rparr>) d)"
    "allocated (updNode n (\<lambda>nd. nd\<lparr>nsize := s\<rparr>) d) n = allocated d n"
    "nsize (nodes (updNode n (\<lambda>nd. nd\<lparr>nsize := s\<rparr>) d) ! n) = s"
    "freeCnt (updNode n (\<lambda>nd. nd\<lparr>nsize := s\<rparr>) d) = freeCnt d"
    "room (updNode n (\<lambda>nd. nd\<lparr>nsize := s\<rparr>) d) n = room d n"
proof -
  let ?d = "updNode n (\<lambda>nd. nd\<lparr>nsize := s\<rparr>) d"
  have n: "n < length (nodes d)" using assms(2) by (simp add: valid_def)
  have node: "nodes ?d ! m = (if m = n then (nodes d ! n)\<lparr>nsize := s\<rparr> else nodes d ! m)" for m
    using n by (cases "m < length (nodes d)") (auto simp: updNode_def nth_list_update)
  have s: "super ?d = super d" "store ?d = store d" "length (nodes ?d) = length (nodes d)" "deviceID ?d = deviceID d"
    by (simp_all add: updNode_def)
  have v: "valid ?d m = valid d m" and h: "holds ?d m i b = holds d m i b" and t: "testBlock b ?d = testBlock b d"
    and o: "owned ?d m = owned d m" and bl: "block ?d b = block d b" for m i b
    by (simp_all add: valid_def holds_def testBlock_bit owned_def block_def blockAddr_def node s)
  have "node_ok ?d m" if "valid d m" for m
    using disk_inv_node [OF assms(1) that] assms(3) by (auto simp: node_ok_def node s t)
  moreover have "geometry ?d" using disk_inv_geometry [OF assms(1)] by (simp add: geometry_def s node)
  ultimately show "disk_inv ?d" using assms(1) by (simp add: disk_inv_def unshared_def v h)
  have "map (block ?d) (owned d m) = map (block d) (owned d m)" for m by (simp add: bl)
  then have a: "allocated ?d m = allocated d m" for m by (simp only: allocated_def o)
  show "allocated ?d n = allocated d n" by (rule a)
  show "only_node n d ?d" by (simp add: only_node_def s node a)
  show "nsize (nodes ?d ! n) = s" by (simp add: node)
  show fr: "freeCnt ?d = freeCnt d" by (simp add: freeCnt_def s t)
  show "room ?d n = room d n" by (simp add: room_def fr) (simp add: node)
qed

lemma take_patch:
  assumes "p \<le> s" "s \<le> length xs" "p + length ys \<le> length (xs @ zs)"
  shows "take (max s (p + length ys)) (patch p ys (xs @ zs)) = patch p ys (take s xs)"
proof (cases "p + length ys \<le> s")
  case True
  then have m: "max s (p + length ys) = p + length ys + (s - (p + length ys))" by simp
  have "take (p + length ys + (s - (p + length ys))) (patch p ys (xs @ zs)) =
      take p xs @ ys @ take (s - (p + length ys)) (drop (p + length ys) xs)"
    using assms True by (simp add: patch_def)
  then show ?thesis using True assms unfolding m by (simp add: patch_def drop_take min_absorb1 [OF assms(1)])
next
  case False
  then have "max s (p + length ys) = p + length ys" by simp
  then show ?thesis using False assms by (simp add: patch_def min_absorb1 [OF assms(1)])
qed

lemma room_ge: "blocksInUse (nodes d ! n) \<le> 10 \<Longrightarrow> 512 * blocksInUse (nodes d ! n) \<le> room d n"
  by (simp add: room_def)

lemma disk_write_room:
  assumes "disk_inv d" "valid d n" "rinode r = int n" "offset \<le> length (contents d n)"
    "min sz (5120 - offset) \<le> length buf"
  defines "k \<equiv> min (min sz (5120 - offset)) (room d n - offset)"
  obtains d' where "disk_write r offset sz buf d = Some (d', r\<lparr>rsize := length (contents d' n)\<rparr>, k)"
    "disk_inv d'" "only_node n d d'" "contents d' n = patch offset (take k buf) (contents d n)" "room d' n = room d n"
proof -
  let ?sz = "min sz (5120 - offset)"
  have ok: "node_ok d n" using disk_inv_node [OF assms(1,2)] .
  have off: "offset \<le> nsize (nodes d ! n)" using assms(4) length_contents [OF assms(1,2)] by simp
  then have o: "offset \<le> 512 * blocksInUse (nodes d ! n)" "blocksInUse (nodes d ! n) \<le> 10"
    using ok by (auto simp: node_ok_def)
  have d: "offset div 512 \<le> blocksInUse (nodes d ! n)" "512 * (offset div 512) + offset mod 512 = offset" "offset \<le> 5120"
    using o by auto
  have m: "offset mod 512 < 512" by simp
  have le: "512 * (offset div 512) + offset mod 512 + (?sz - 0) \<le> 5120" unfolding d(2) using d(3) by simp
  obtain d1 fresh where w: "write_blocks n ?sz buf (offset div 512) (offset mod 512) d 0 = Some (d1, k)" "disk_inv d1"
    "only_node n d d1" "nsize (nodes d1 ! n) = nsize (nodes d ! n)"
    "allocated d1 n = patch offset (take k buf) (allocated d n @ fresh)"
    "0 < k \<longrightarrow> offset + k \<le> length (allocated d n @ fresh)" "room d1 n = room d n"
    using write_blocks_spec [OF assms(1,2) d(1) m le0 assms(5) le, unfolded d(2) add_0 diff_zero drop_0]
    by (metis k_def)
  have lk: "length (take k buf) = k" using assms(5) by (simp add: k_def)
  have la: "offset \<le> length (allocated d n)" using o length_allocated [OF assms(1,2)] by simp
  have fit: "offset + k \<le> length (allocated d n @ fresh)" using w(6) la by (cases "k = 0") auto
  have v1: "valid d1 n" using only_node_valid [OF w(3)] assms(2) by simp
  define s where "s = max (nsize (nodes d ! n)) (offset + k)"
  have "length (allocated d1 n) = length (allocated d n @ fresh)" using w(5) fit lk by simp
  moreover have "nsize (nodes d ! n) \<le> length (allocated d n)"
    using ok length_allocated [OF assms(1,2)] by (simp add: node_ok_def)
  ultimately have s: "s \<le> 512 * blocksInUse (nodes d1 ! n)"
    using fit length_allocated [OF w(2) v1] by (simp add: s_def)
  note ss = set_size_spec [OF w(2) v1 s]
  define d' where "d' = updNode n (\<lambda>nd. nd\<lparr>nsize := s\<rparr>) d1"
  have "take s (patch offset (take k buf) (allocated d n @ fresh)) =
      patch offset (take k buf) (take (nsize (nodes d ! n)) (allocated d n))"
    using take_patch [of offset "nsize (nodes d ! n)" "allocated d n" "take k buf" fresh] off fit lk
      ok length_allocated [OF assms(1,2)] by (simp add: s_def node_ok_def)
  then have c: "contents d' n = patch offset (take k buf) (contents d n)"
    by (simp add: contents_def d'_def ss(3,4) w(5))
  have "updNode n (\<lambda>nd. nd\<lparr>nsize := max (nsize nd) (offset + k)\<rparr>) d1 = d'"
    by (simp add: d'_def updNode_def w(4) s_def)
  moreover have "nsize (nodes d' ! n) = length (contents d' n)"
    using length_contents [OF ss(1)] only_node_valid [OF ss(2)] v1 by (simp add: d'_def)
  ultimately have "disk_write r offset sz buf d = Some (d', r\<lparr>rsize := length (contents d' n)\<rparr>, k)"
    using w(1) d(3) by (simp add: disk_write_def getNode_valid [OF assms(2,3)])
  then show ?thesis using that ss(1,2,6) only_node_trans [OF w(3)] c w(7) by (simp add: d'_def)
qed

lemma disk_write_spec:
  assumes "disk_inv d" "valid d n" "rinode r = int n" "offset \<le> length (contents d n)"
    "min sz (5120 - offset) \<le> length buf"
  defines "k \<equiv> min (min sz (5120 - offset)) (room d n - offset)"
  obtains d' where "disk_write r offset sz buf d = Some (d', r\<lparr>rsize := length (contents d' n)\<rparr>, k)"
    "disk_inv d'" "only_node n d d'" "contents d' n = patch offset (take k buf) (contents d n)"
  unfolding k_def using disk_write_room [OF assms(1-5)] by blast

lemma only_node_contents: "only_node n d d' \<Longrightarrow> valid d m \<Longrightarrow> m \<noteq> n \<Longrightarrow> contents d' m = contents d m"
  by (simp add: only_node_def contents_def)

text \<open>C28: the RAM disk stores files: on a well-formed disk a write at an offset up to the size of file \<open>n\<close>
  stores as many bytes as asked for, up to the maximal file size of ten blocks and the free space of the disk,
  and returns that number; the file then is the old one with these bytes in place (longer if the write went past its
  end), a read at the same offset returns exactly them, every other file is unchanged, and the disk stays
  well-formed.\<close>

theorem disk_write_read:
  assumes "disk_inv d" "valid d n" "rinode r = int n" "offset \<le> length (contents d n)"
    "min sz (5120 - offset) \<le> length buf"
  shows "\<exists>d' r' k. disk_write r offset sz buf d = Some (d', r', k) \<and>
    k = min (min sz (5120 - offset)) (room d n - offset) \<and> disk_inv d' \<and>
    contents d' n = take offset (contents d n) @ take k buf @ drop (offset + k) (contents d n) \<and>
    rsize r' = length (contents d' n) \<and> disk_read r' offset k d' = Some (take k buf) \<and>
    (\<forall>m. valid d' m = valid d m) \<and> (\<forall>m. valid d m \<and> m \<noteq> n \<longrightarrow> contents d' m = contents d m)"
proof -
  define k where "k = min (min sz (5120 - offset)) (room d n - offset)"
  obtain d' where w: "disk_write r offset sz buf d = Some (d', r\<lparr>rsize := length (contents d' n)\<rparr>, k)"
    "disk_inv d'" "only_node n d d'" "contents d' n = patch offset (take k buf) (contents d n)"
    using disk_write_spec [OF assms] unfolding k_def by blast
  have lk: "length (take k buf) = k" using assms(5) by (simp add: k_def)
  have c: "contents d' n = take offset (contents d n) @ take k buf @ drop (offset + k) (contents d n)"
    using w(4) lk by (simp add: patch_def)
  have "valid d' n" using only_node_valid [OF w(3)] assms(2) by simp
  then have "disk_read (r\<lparr>rsize := length (contents d' n)\<rparr>) offset k d' = Some (take k buf)"
    using disk_read_eq [OF w(2), of n "r\<lparr>rsize := length (contents d' n)\<rparr>"] assms(3,4) lk by (simp add: c)
  then show ?thesis
    using w(1,2) c only_node_valid [OF w(3)] only_node_contents [OF w(3)] k_def by auto
qed

text \<open>Reading is functionally correct: on a well-formed disk \<open>RamDisk::read\<close> returns exactly the bytes
  of the file from the offset on, at most the number asked for, and nothing at an offset past the end.\<close>

theorem disk_read_correct:
  assumes "disk_inv d" "valid d n" "rinode r = int n"
  shows "disk_read r offset sz d = Some (take sz (drop offset (contents d n)))"
  by (rule disk_read_eq [OF assms])

section \<open>Creating and removing files\<close>

lemma getFreeINode_Some: "getFreeINode d = Some n \<Longrightarrow> length (nodes d) = iNodeCnt (super d) \<Longrightarrow> n < length (nodes d) \<and> \<not> valid d n"
  by (auto simp: getFreeINode_def find_Some_iff valid_def)

definition fresh_node :: "NodeType \<Rightarrow> nat \<Rightarrow> RamDisk \<Rightarrow> RamDisk" where
  "fresh_node ty n d = updNode n (\<lambda>nd. nd\<lparr>blocksInUse := 0, inode := int n, nsize := 0, ntype := ty\<rparr>) d"

lemma fresh_node_spec:
  assumes "disk_inv d" "n < length (nodes d)" "\<not> valid d n" "ty \<noteq> INVALID"
  shows "disk_inv (fresh_node ty n d)" "valid (fresh_node ty n d) m \<longleftrightarrow> m = n \<or> valid d m"
    "contents (fresh_node ty n d) n = []" "valid d m \<Longrightarrow> contents (fresh_node ty n d) m = contents d m"
    "freeCnt (fresh_node ty n d) = freeCnt d" "blocksInUse (nodes (fresh_node ty n d) ! n) = 0"
proof -
  let ?d = "fresh_node ty n d"
  have node: "nodes ?d ! m = (if m = n then (nodes d ! n)\<lparr>blocksInUse := 0, inode := int n, nsize := 0, ntype := ty\<rparr> else nodes d ! m)" for m
    using assms(2) by (cases "m < length (nodes d)") (auto simp: fresh_node_def updNode_def nth_list_update)
  have s: "super ?d = super d" "store ?d = store d" "length (nodes ?d) = length (nodes d)"
    by (simp_all add: fresh_node_def updNode_def)
  have v: "valid ?d m \<longleftrightarrow> m = n \<or> valid d m" and t: "testBlock b ?d = testBlock b d"
    and h: "holds ?d m i b \<longleftrightarrow> m \<noteq> n \<and> holds d m i b" and bl: "block ?d b = block d b" for m b i
    using assms by (auto simp: valid_def holds_def testBlock_bit block_def blockAddr_def node s)
  show "valid ?d m \<longleftrightarrow> m = n \<or> valid d m" by (rule v)
  have "node_ok ?d m" if "valid ?d m" for m
  proof (cases "m = n")
    case False
    then have "node_ok d m" using that v disk_inv_node [OF assms(1)] by blast
    then show ?thesis using False by (simp add: node_ok_def node s t)
  qed (simp add: node_ok_def node s)
  moreover have "geometry ?d" using disk_inv_geometry [OF assms(1)] by (simp add: geometry_def s node)
  moreover have "unshared ?d" using assms(1) unfolding disk_inv_def unshared_def v h by blast
  ultimately show "disk_inv ?d" by (simp add: disk_inv_def)
  show "contents ?d n = []" by (simp add: contents_def node)
  show "freeCnt ?d = freeCnt d" by (simp add: freeCnt_def s t)
  show "blocksInUse (nodes ?d ! n) = 0" by (simp add: node)
  assume m: "valid d m"
  then have "m \<noteq> n" using assms(3) by auto
  then have "owned ?d m = owned d m" "nsize (nodes ?d ! m) = nsize (nodes d ! m)" by (simp_all add: owned_def node)
  moreover have "map (block ?d) (owned d m) = map (block d) (owned d m)" by (simp add: bl)
  ultimately show "contents ?d m = contents d m" by (simp only: contents_def allocated_def)
qed

lemma disk_create_spec:
  assumes "disk_inv d" "getFreeINode d = Some n" "freeCnt d > 0" "ty \<noteq> INVALID"
  shows "\<exists>d' v'. disk_create ty v d = Some (d', v') \<and> disk_inv d' \<and> \<not> valid d n \<and>
    (\<forall>m. valid d' m \<longleftrightarrow> m = n \<or> valid d m) \<and>
    contents d' n = (if ty = DIRECTORY then [0, 0, 0, 0] else []) \<and>
    vtype v' = ty \<and> rinode (resource v') = int n \<and> rsize (resource v') = length (contents d' n) \<and>
    (\<forall>m. valid d m \<longrightarrow> contents d' m = contents d m)"
proof -
  have n: "n < length (nodes d)" "\<not> valid d n"
    using getFreeINode_Some [OF assms(2)] disk_inv_geometry [OF assms(1)] by (auto simp: geometry_def)
  note fn = fresh_node_spec [OF assms(1) n assms(4)]
  define d0 where "d0 = fresh_node ty n d"
  have v0: "valid d0 n" using fn(2) by (simp add: d0_def)
  obtain w where w: "populateVFSNode (int n) v d0 = Some w" "vtype w = ty" "rinode (resource w) = int n"
    using n(1) by (simp add: populateVFSNode_def getNode_def d0_def fresh_node_def updNode_def)
  have r: "room d0 n \<ge> 512" using fn(5,6) assms(3) by (simp add: room_def d0_def)
  obtain d1 where d1: "disk_write (resource w) 0 512 (replicate 512 0) d0 = Some (d1, (resource w)\<lparr>rsize := length (contents d1 n)\<rparr>, 512)"
    "disk_inv d1" "only_node n d0 d1" "contents d1 n = replicate 512 0"
    using disk_write_spec [of d0 n "resource w" 0 512 "replicate 512 0"] fn(1,3) v0 w(3) r
    by (auto simp: d0_def [symmetric] patch_def)
  have v1: "valid d1 m \<longleftrightarrow> m = n \<or> valid d m" for m using only_node_valid [OF d1(3)] fn(2) by (simp add: d0_def)
  define s where "s = (if ty = DIRECTORY then 4 else 0 :: nat)"
  have "nsize (nodes d1 ! n) = 512" using length_contents [OF d1(2), of n] v1 d1(4) by simp
  moreover have "node_ok d1 n" using disk_inv_node [OF d1(2)] v1 by blast
  ultimately have "512 \<le> 512 * blocksInUse (nodes d1 ! n)" by (simp add: node_ok_def)
  then have s: "s \<le> 512 * blocksInUse (nodes d1 ! n)" by (simp add: s_def)
  have vn: "valid d1 n" using v1 by blast
  note ss = set_size_spec [OF d1(2) vn s]
  define d' where "d' = updNode n (\<lambda>nd. nd\<lparr>nsize := s\<rparr>) d1"
  have "s \<le> 512" by (simp add: s_def)
  have "contents d' n = take s (allocated d1 n)" by (simp add: contents_def d'_def ss(3,4))
  also have "\<dots> = take s (take 512 (allocated d1 n))" using \<open>s \<le> 512\<close> by (simp add: min_absorb1)
  also have "take 512 (allocated d1 n) = replicate 512 0" using d1(4) \<open>nsize (nodes d1 ! n) = 512\<close> by (simp add: contents_def)
  finally have c: "contents d' n = replicate s 0" using \<open>s \<le> 512\<close> by (simp add: min_absorb1)
  have "contents d' m = contents d m" if "valid d m" for m
    using that n(2) only_node_contents [OF ss(2), of m] only_node_contents [OF d1(3), of m] fn(2,4) v1
    by (auto simp: d'_def d0_def)
  moreover have "disk_create ty v d = Some (d', w\<lparr>resource := (resource w)\<lparr>rsize := s\<rparr>\<rparr>)"
    using assms(2) w(1) d1(1) ss(4) by (simp add: disk_create_def d0_def [symmetric, unfolded fresh_node_def] s_def [symmetric] d'_def [symmetric])
  moreover have "replicate 4 (0 :: u8) = [0, 0, 0, 0]" by (simp add: numeral_eq_Suc)
  ultimately show ?thesis
    using ss(1) c n(2) only_node_valid [OF ss(2)] v1 w(2,3) by (auto simp: d'_def s_def)
qed

text \<open>Creating a node: on a well-formed disk with a free inode and a free block, \<open>RamDisk::create\<close> takes
  an unused inode, returns a node that refers to it with the requested type and the right size, and leaves an
  empty file, or a directory whose entry count is zero; all other files keep their contents and the disk stays
  well-formed.\<close>

theorem disk_create_correct:
  assumes "disk_inv d" "getFreeINode d = Some n" "freeCnt d > 0" "ty \<noteq> INVALID"
  shows "\<exists>d' v'. disk_create ty v d = Some (d', v') \<and> disk_inv d' \<and> \<not> valid d n \<and>
    (\<forall>m. valid d' m \<longleftrightarrow> m = n \<or> valid d m) \<and>
    contents d' n = (if ty = DIRECTORY then [0, 0, 0, 0] else []) \<and>
    vtype v' = ty \<and> rinode (resource v') = int n \<and> rsize (resource v') = length (contents d' n) \<and>
    (\<forall>m. valid d m \<longrightarrow> contents d' m = contents d m)"
  by (rule disk_create_spec [OF assms])

lemma free_blocks_spec:
  assumes "geometry d" "\<forall>b\<in>set bs. b < blockCnt (super d)"
  shows "\<exists>d'. free_blocks (map Some bs) d = Some d' \<and> nodes d' = nodes d \<and> super d' = super d \<and> geometry d' \<and>
    (\<forall>c<blockCnt (super d). (testBlock c d' \<longleftrightarrow> testBlock c d \<and> c \<notin> set bs) \<and> block d' c = block d c)"
  using assms
proof (induction bs arbitrary: d)
  case (Cons b bs)
  let ?d = "freeDataBlock b d"
  have g: "geometry ?d" "nodes ?d = nodes d" "super ?d = super d"
    using Cons.prems(1) by (simp_all add: freeDataBlock_def geometry_def)
  have t: "testBlock c ?d \<longleftrightarrow> testBlock c d \<and> c \<noteq> b" "block ?d c = block d c" if "c < blockCnt (super d)" for c
    using testBlock_assign [of c d b 0] block_fits(3) [OF Cons.prems(1) that] block_assign [OF Cons.prems(1) _ that, of b 0]
      Cons.prems(2) by (auto simp: freeDataBlock_def)
  show ?case using Cons.IH [OF g(1)] Cons.prems(2) g(2,3) t by auto
qed simp

lemma disk_remove_spec:
  assumes "disk_inv d" "valid d n" "rinode (resource v) = int n"
  shows "\<exists>d'. disk_remove v d = Some d' \<and> disk_inv d' \<and> (\<forall>m. valid d' m \<longleftrightarrow> m \<noteq> n \<and> valid d m) \<and>
    freeCnt d' = freeCnt d + blocksInUse (nodes d ! n) \<and> (\<forall>m. valid d' m \<longrightarrow> contents d' m = contents d m) \<and>
    (\<forall>m. m \<noteq> n \<longrightarrow> nodes d' ! m = nodes d ! m) \<and> length (nodes d') = length (nodes d)"
proof -
  note sl = owned_slots [OF assms(1,2)] and g = disk_inv_geometry [OF assms(1)]
  have ok: "node_ok d n" "length (dataBlocks (nodes d ! n)) = 10"
    using disk_inv_node [OF assms(1,2)] g assms(2) by (auto simp: geometry_def valid_def)
  have bs: "take (blocksInUse (nodes d ! n)) (dataBlocks (nodes d ! n)) = map Some (owned d n)"
    using sl ok by (intro nth_equalityI) (auto simp: node_ok_def)
  have lt: "\<forall>b\<in>set (owned d n). b < blockCnt (super d)" using owned_blocks [OF assms(1,2)] by blast
  obtain d1 where d1: "free_blocks (map Some (owned d n)) d = Some d1" "nodes d1 = nodes d" "super d1 = super d" "geometry d1"
    "\<And>c. c < blockCnt (super d) \<Longrightarrow> testBlock c d1 \<longleftrightarrow> testBlock c d \<and> c \<notin> set (owned d n)"
    "\<And>c. c < blockCnt (super d) \<Longrightarrow> block d1 c = block d c"
    using free_blocks_spec [OF g lt] by blast
  define d' where "d' = freeINode n d1"
  have n: "n < length (nodes d)" using assms(2) by (simp add: valid_def)
  have node: "nodes d' ! m = (if m = n then (nodes d ! n)\<lparr>ntype := INVALID\<rparr> else nodes d ! m)" for m
    using n by (cases "m < length (nodes d)") (auto simp: d'_def freeINode_def updNode_def d1(2) nth_list_update)
  have s: "super d' = super d" "store d' = store d1" "length (nodes d') = length (nodes d)"
    by (simp_all add: d'_def freeINode_def updNode_def d1(2,3))
  have v: "valid d' m \<longleftrightarrow> m \<noteq> n \<and> valid d m" and t: "testBlock b d' = testBlock b d1"
    and h: "holds d' m i b = holds d m i b" and bl: "block d' b = block d1 b" for m b i
    by (auto simp: valid_def holds_def testBlock_bit block_def blockAddr_def node s d1(3))
  have t': "testBlock c d' \<longleftrightarrow> testBlock c d \<and> c \<notin> set (owned d n)" if "c < blockCnt (super d)" for c
    using d1(5) [OF that] by (simp add: t)
  have "node_ok d' m" if m: "m \<noteq> n" "valid d m" for m
  proof -
    have "c < blockCnt (super d) \<and> testBlock c d'" if "holds d m i c" for i c
      using held_in_use [OF assms(1) m(2) that] t' set_owned [OF assms(1,2)] assms(1,2) m that
      unfolding disk_inv_def unshared_def by blast
    then show ?thesis
      using disk_inv_node [OF assms(1) m(2)] m(1) unfolding node_ok_def holds_def s node by auto
  qed
  moreover have "geometry d'" using d1(2,4) n by (auto simp: geometry_def s d1(3) node)
  moreover have "unshared d'" using assms(1) unfolding disk_inv_def unshared_def v h by blast
  ultimately have inv: "disk_inv d'" by (simp add: disk_inv_def v)
  have "{b. b < blockCnt (super d) \<and> \<not> testBlock b d'} = {b. b < blockCnt (super d) \<and> \<not> testBlock b d} \<union> set (owned d n)"
    using t' lt by auto
  moreover have "{b. b < blockCnt (super d) \<and> \<not> testBlock b d} \<inter> set (owned d n) = {}"
    using owned_blocks [OF assms(1,2)] by auto
  ultimately have "freeCnt d' = freeCnt d + card (set (owned d n))"
    by (simp add: freeCnt_def s card_Un_disjoint)
  then have "freeCnt d' = freeCnt d + blocksInUse (nodes d ! n)"
    using distinct_card [OF owned_distinct [OF assms(1,2)]] sl(1) by simp
  moreover have "contents d' m = contents d m" if "m \<noteq> n" "valid d m" for m
  proof -
    have "owned d' m = owned d m" "nsize (nodes d' ! m) = nsize (nodes d ! m)" using that by (simp_all add: owned_def node)
    moreover have "map (block d') (owned d m) = map (block d) (owned d m)"
      using owned_blocks [OF assms(1) that(2)] d1(6) by (simp add: bl)
    ultimately show ?thesis by (simp only: contents_def allocated_def)
  qed
  moreover have "disk_remove v d = Some d'"
    using d1(1) by (simp add: disk_remove_def getNode_valid [OF assms(2,3)] bs d'_def)
  ultimately show ?thesis using inv v node s(3) by auto
qed

text \<open>Removing a file gives back its inode and exactly its blocks: the disk stays well-formed, the
  number of free blocks grows by the number of blocks the file had, and every other file keeps its contents.\<close>

theorem disk_remove_correct:
  assumes "disk_inv d" "valid d n" "rinode (resource v) = int n"
  shows "\<exists>d'. disk_remove v d = Some d' \<and> disk_inv d' \<and> (\<forall>m. valid d' m \<longleftrightarrow> m \<noteq> n \<and> valid d m) \<and>
    freeCnt d' = freeCnt d + blocksInUse (nodes d ! n) \<and> (\<forall>m. valid d' m \<longrightarrow> contents d' m = contents d m)"
  using disk_remove_spec [OF assms] by blast

section \<open>A small disk\<close>

text \<open>One file of three bytes in block 1 of three.\<close>

definition demo_disk :: RamDisk where
  "demo_disk = \<lparr>deviceID = 1, super = \<lparr>iNodeCnt = 2, dataBitsetSize = 1, blockCnt = 3\<rparr>,
     nodes = [\<lparr>inode = 0, ntype = FILE, blocksInUse = 1, nsize = 3, dataBlocks = Some 1 # replicate 9 None\<rparr>, blank_node],
     store = 2 # replicate 1536 7\<rparr>"

definition demo_res :: Resource where
  "demo_res = \<lparr>rinode = 0, rsize = 3, rdeviceID = 1\<rparr>"

definition demo_node :: FsNode where
  "demo_node = \<lparr>vtype = FILE, vfileSystem = None, resource = demo_res\<rparr>"

lemma demo_valid: "valid demo_disk n \<longleftrightarrow> n = 0"
  by (auto simp: valid_def demo_disk_def blank_node_def less_Suc_eq)

lemma demo_test: "testBlock 0 demo_disk = False" "testBlock 1 demo_disk = True" "testBlock 2 demo_disk = False"
  by (simp_all add: testBlock_bit demo_disk_def bit_simps)

lemma demo_holds: "holds demo_disk 0 i b \<longleftrightarrow> i = 0 \<and> b = 1"
  by (auto simp: holds_def demo_disk_def)

lemma demo_inv: "disk_inv demo_disk"
proof -
  have "geometry demo_disk" by (auto simp: geometry_def demo_disk_def blank_node_def less_Suc_eq)
  moreover have "node_ok demo_disk 0" using demo_test(2) by (auto simp: node_ok_def demo_disk_def)
  moreover have "unshared demo_disk" by (simp add: unshared_def demo_valid demo_holds)
  ultimately show ?thesis by (simp add: disk_inv_def demo_valid)
qed

lemma demo_free: "freeCnt demo_disk = 2"
proof -
  have "{b. b < 3 \<and> \<not> testBlock b demo_disk} = {0, 2}"
    using demo_test by (auto simp: less_Suc_eq numeral_eq_Suc)
  then show ?thesis by (simp add: freeCnt_def) (simp add: demo_disk_def)
qed

lemma demo_contents: "contents demo_disk 0 = [7, 7, 7]"
proof -
  have "block demo_disk 1 = replicate 512 7"
    by (simp add: block_def blockAddr_def demo_disk_def drop_Cons' )
  then show ?thesis by (simp add: contents_def allocated_def owned_def) (simp add: demo_disk_def numeral_eq_Suc)
qed

theorem disk_read_correct_witness: "disk_read demo_res 1 10 demo_disk = Some [7, 7]"
  using disk_read_correct [OF demo_inv, of 0 demo_res 1 10] by (simp add: demo_valid demo_res_def demo_contents)

theorem disk_write_read_witness:
  "\<exists>d' r'. disk_write demo_res 2 3 [1, 2, 3] demo_disk = Some (d', r', 3) \<and> contents d' 0 = [7, 7, 1, 2, 3] \<and>
     disk_read r' 2 3 d' = Some [1, 2, 3]"
proof -
  have "room demo_disk 0 = 1536" by (simp add: room_def demo_free) (simp add: demo_disk_def)
  then show ?thesis
    using disk_write_read [OF demo_inv, of 0 demo_res 2 3 "[1, 2, 3]"]
    by (simp add: demo_valid demo_res_def demo_contents) blast
qed

theorem disk_create_correct_witness:
  "\<exists>d' v'. disk_create DIRECTORY demo_node demo_disk = Some (d', v') \<and> contents d' 1 = [0, 0, 0, 0] \<and> contents d' 0 = [7, 7, 7]"
proof -
  have "getFreeINode demo_disk = Some 1"
    by (simp add: getFreeINode_def demo_disk_def blank_node_def numeral_eq_Suc)
  then show ?thesis
    using disk_create_correct [OF demo_inv, of 1 DIRECTORY demo_node] by (auto simp: demo_valid demo_contents demo_free)
qed

theorem disk_remove_correct_witness:
  "\<exists>d'. disk_remove demo_node demo_disk = Some d' \<and> freeCnt d' = 3 \<and> \<not> valid d' 0"
proof -
  have "blocksInUse (nodes demo_disk ! 0) = 1" by (simp add: demo_disk_def)
  then show ?thesis
    using disk_remove_correct [OF demo_inv, of 0 demo_node] by (auto simp: demo_valid demo_free demo_node_def demo_res_def)
qed

section \<open>Formatting loses the root directory\<close>

lemma write_first:
  assumes "geometry d" "n < length (nodes d)" "blocksInUse (nodes d ! n) = 0" "getFreeDataBlock d = Some b"
    "length buf = 512"
  shows "write_blocks n 512 buf 0 0 d 0 =
    Some ((addBlock n b d)\<lparr>store := patch (blockAddr d b) buf (store (addBlock n b d))\<rparr>, 512)"
proof -
  let ?d = "addBlock n b d"
  have dl: "length (dataBlocks (nodes d ! n)) = 10" using assms(1,2) by (simp add: geometry_def)
  have nd: "dataBlocks (nodes ?d ! n) ! 0 = Some b" using assms(2,3) dl by (simp add: addBlock_simps)
  have a: "blockAddr ?d b = blockAddr d b" by (simp add: blockAddr_def addBlock_simps)
  have "blockAddr d b + 512 \<le> length (store ?d)"
    using block_fits(1) [OF assms(1)] getFreeDataBlock_Some(1) [OF assms(4)] by (simp add: addBlock_simps)
  then have "write_block (blockAddr d b) 0 512 buf (store ?d) 0 = Some (patch (blockAddr d b) buf (store ?d), 512)"
    using write_block_eq [of "blockAddr d b" "store ?d" 0 512 buf 0] assms(5) by simp
  then show ?thesis
    using assms(3,4) nd a
    by (subst write_blocks.simps) (simp add: Let_def write_blocks.simps [of n 512 buf "Suc 0"])
qed

lemma disk_create_first:
  assumes "geometry d" "getFreeINode d = Some n" "getFreeDataBlock d = Some b"
  shows "\<exists>d' v'. disk_create ty v d = Some (d', v') \<and> geometry d' \<and> super d' = super d \<and>
    holds d' n 0 b \<and> ntype (nodes d' ! n) = ty \<and> (\<forall>m. m \<noteq> n \<longrightarrow> nodes d' ! m = nodes d ! m)"
proof -
  have n: "n < length (nodes d)" using getFreeINode_Some [OF assms(2)] assms(1) by (simp add: geometry_def)
  define d0 where "d0 = fresh_node ty n d"
  have d0: "length (nodes d0) = length (nodes d)" "super d0 = super d" "store d0 = store d"
    by (simp_all add: d0_def fresh_node_def updNode_def)
  have node0: "nodes d0 ! m = (if m = n then (nodes d ! n)\<lparr>blocksInUse := 0, inode := int n, nsize := 0, ntype := ty\<rparr> else nodes d ! m)" for m
    using n by (cases "m < length (nodes d)") (auto simp: d0_def fresh_node_def updNode_def nth_list_update)
  have g0: "geometry d0" using assms(1) by (simp add: geometry_def d0 node0)
  have f0: "getFreeDataBlock d0 = Some b" using assms(3) by (simp add: getFreeDataBlock_def testBlock_def d0)
  have dl: "length (dataBlocks (nodes d ! n)) = 10" using assms(1) n by (simp add: geometry_def)
  obtain w where w: "populateVFSNode (int n) v d0 = Some w" "rinode (resource w) = int n"
    using n by (simp add: populateVFSNode_def getNode_def d0 node0)
  let ?d1 = "(addBlock n b d0)\<lparr>store := patch (blockAddr d0 b) (replicate 512 0) (store (addBlock n b d0))\<rparr>"
  have wr: "write_blocks n 512 (replicate 512 0) 0 0 d0 0 = Some (?d1, 512)"
    using write_first [OF g0 _ _ f0, of n "replicate 512 0"] n by (simp add: d0 node0)
  have gn: "getNode (int n) d0 = Some n" using n by (simp add: getNode_def d0)
  define d' where "d' = updNode n (\<lambda>nd. nd\<lparr>nsize := if ty = DIRECTORY then 4 else 0\<rparr>)
      (updNode n (\<lambda>nd. nd\<lparr>nsize := max (nsize nd) 512\<rparr>) ?d1)"
  have node: "nodes d' ! m = (if m = n then (nodes d0 ! n)\<lparr>dataBlocks := (dataBlocks (nodes d ! n))[0 := Some b],
      blocksInUse := 1, nsize := if ty = DIRECTORY then 4 else 0\<rparr> else nodes d ! m)" for m
    using n by (cases "m < length (nodes d)") (auto simp: d'_def updNode_def addBlock_simps nth_list_update d0 node0)
  have "blockAddr d0 b + 512 \<le> length (store d0)"
    using block_fits(1) [OF g0] getFreeDataBlock_Some(1) [OF f0] by simp
  then have "geometry d'" using g0 dl
    by (auto simp: geometry_def node) (auto simp: d'_def updNode_def addBlock_simps d0 node0)
  moreover have "super d' = super d" by (simp add: d'_def updNode_def addBlock_simps d0)
  moreover have "\<exists>v'. disk_create ty v d = Some (d', v')"
    using assms(2) w wr gn unfolding disk_create_def disk_write_def
    by (simp add: d0_def [symmetric, unfolded fresh_node_def] d'_def [symmetric] Let_def)
  moreover have "holds d' n 0 b" using dl by (simp add: holds_def node)
  moreover have "ntype (nodes d' ! n) = ty" by (simp add: node node0)
  ultimately show ?thesis using node by auto
qed

lemma wipe_words:
  "length (fold (\<lambda>k. put_le 8 (8 * k) (0 :: u64)) [0..<m] st) = length st"
  "x < length st \<Longrightarrow> fold (\<lambda>k. put_le 8 (8 * k) (0 :: u64)) [0..<m] st ! x = (if x < 8 * m then 0 else st ! x)"
  by (induction m) (auto simp: put_le_nth)

lemma ramdisk_new_spec:
  assumes "geometry d"
  shows "geometry (ramdisk_new dev d)" "nodes (ramdisk_new dev d) = nodes d" "super (ramdisk_new dev d) = super d"
    "i < blockCnt (super d) \<Longrightarrow> i < 64 * bitset_len (dataBitsetSize (super d)) \<Longrightarrow> \<not> testBlock i (ramdisk_new dev d)"
proof -
  show "geometry (ramdisk_new dev d)" "nodes (ramdisk_new dev d) = nodes d" "super (ramdisk_new dev d) = super d"
    using assms by (simp_all add: ramdisk_new_def geometry_def wipe_words)
  assume i: "i < blockCnt (super d)" "i < 64 * bitset_len (dataBitsetSize (super d))"
  then have "i div 8 < 8 * bitset_len (dataBitsetSize (super d))" by simp
  then show "\<not> testBlock i (ramdisk_new dev d)"
    using wipe_words(2) [OF block_fits(3) [OF assms i(1)]] by (simp add: testBlock_bit ramdisk_new_def)
qed

lemma free_first:
  assumes "geometry d" "0 < blockCnt (super d)" "\<not> testBlock 0 d"
  shows "getFreeDataBlock d = Some 0"
  using assms by (simp add: getFreeDataBlock_def upt_conv_Cons)

text \<open>C29: \<open>createRamdisk\<close> gives a disk whose root directory does not own its block: it constructs the disk,
  creates the root directory in block 0, and constructs the disk again, which clears the bit set of used blocks.
  The result is not well-formed, and the next node that is created gets the block of the root directory.\<close>

theorem createRamdisk_shares_root:
  assumes "2 \<le> nodeCount" "1 \<le> blockCount"
  shows "\<exists>d. createRamdisk dev nodeCount blockCount = Some d \<and> valid d 0 \<and> ntype (nodes d ! 0) = DIRECTORY \<and>
    holds d 0 0 0 \<and> \<not> testBlock 0 d \<and> \<not> disk_inv d \<and>
    (\<forall>ty (v :: FsNode). \<exists>d' v'. disk_create ty v d = Some (d', v') \<and> holds d' 0 0 0 \<and> holds d' 1 0 0)"
proof -
  define s where "s = \<lparr>iNodeCnt = nodeCount, dataBitsetSize = (blockCount + 7) div 8, blockCnt = blockCount\<rparr>"
  define m where "m = \<lparr>deviceID = 0, super = s, nodes = replicate nodeCount blank_node,
    store = replicate ((blockCount + 7) div 8 + 512 * blockCount) (0 :: u8)\<rparr>"
  have bit0: "0 < 64 * bitset_len (dataBitsetSize s)" "0 < blockCnt s" using assms(2) by (auto simp: s_def bitset_len_def)
  have gm: "geometry m" by (auto simp: geometry_def m_def s_def blank_node_def)
  have sm: "super m = s" by (simp add: m_def)
  note new = ramdisk_new_spec [OF gm, unfolded sm]
  have i0: "getFreeINode (ramdisk_new 1 m) = Some 0"
    using assms(1) by (simp add: getFreeINode_def new(2,3) upt_conv_Cons) (simp add: s_def m_def blank_node_def upt_conv_Cons)
  have f0: "getFreeDataBlock (ramdisk_new 1 m) = Some 0"
    by (rule free_first [OF new(1)]) (use bit0 new(3,4) in simp_all)
  obtain rdfs v' where c: "disk_create DIRECTORY \<lparr>vtype = INVALID, vfileSystem = None,
       resource = \<lparr>rinode = 0, rsize = 0, rdeviceID = 0\<rparr>\<rparr> (ramdisk_new 1 m) = Some (rdfs, v')" "geometry rdfs"
    "super rdfs = s" "holds rdfs 0 0 0" "ntype (nodes rdfs ! 0) = DIRECTORY"
    "\<And>k. k \<noteq> 0 \<Longrightarrow> nodes rdfs ! k = nodes (ramdisk_new 1 m) ! k"
    using disk_create_first [OF new(1) i0 f0] new(3) by metis
  define d where "d = ramdisk_new dev rdfs"
  note rn = ramdisk_new_spec [OF c(2), unfolded c(3)]
  have cr: "createRamdisk dev nodeCount blockCount = Some d"
    using c(1) by (simp add: createRamdisk_def d_def m_def s_def Let_def)
  have gd: "geometry d" using rn(1) by (simp add: d_def)
  have t: "\<not> testBlock 0 d" using rn(4) bit0 by (simp add: d_def)
  have h: "holds d 0 0 0" "ntype (nodes d ! 0) = DIRECTORY" using c(4,5) rn(2) by (simp_all add: d_def holds_def)
  have l: "length (nodes d) = nodeCount" using rn(1,3) by (simp add: d_def geometry_def s_def)
  have v: "valid d 0" using h(2) l assms(1) by (simp add: valid_def)
  have ninv: "\<not> disk_inv d" using held_in_use [OF _ v h(1)] t by blast
  have n1: "ntype (nodes d ! 1) = INVALID"
    using c(6) [of 1] assms(1) new(2) rn(2) by (simp add: d_def m_def blank_node_def)
  have i1: "getFreeINode d = Some 1"
    using assms(1) h(2) n1 l rn(1,3) by (simp add: getFreeINode_def d_def geometry_def s_def upt_conv_Cons)
  have f1: "getFreeDataBlock d = Some 0"
    using free_first [of d] rn(1,3) t bit0 by (simp add: d_def)
  have "\<exists>d' v'. disk_create ty v d = Some (d', v') \<and> holds d' 0 0 0 \<and> holds d' 1 0 0" for ty and v :: FsNode
  proof -
    obtain d' v' where "disk_create ty v d = Some (d', v')" "holds d' 1 0 0" "\<And>m. m \<noteq> 1 \<Longrightarrow> nodes d' ! m = nodes d ! m"
      using disk_create_first [OF gd i1 f1] by metis
    then show ?thesis using h(1) by (auto simp: holds_def)
  qed
  then show ?thesis using cr v h t ninv by blast
qed

theorem createRamdisk_shares_root_witness:
  "\<exists>d. createRamdisk 1 50 50 = Some d \<and> \<not> disk_inv d"
  using createRamdisk_shares_root [of 50 50 1] by auto

section \<open>Directories\<close>

definition le4 :: "u32 \<Rightarrow> u8 list" where
  "le4 x = put_le 4 0 x (replicate 4 0)"

definition dir_bytes :: "DirEntry list \<Rightarrow> u8 list" where
  "dir_bytes es = le4 (of_nat (length es)) @ concat (map encode_entry es)"

definition names_ok :: "DirEntry list \<Rightarrow> bool" where
  "names_ok es \<longleftrightarrow> (\<forall>e\<in>set es. length (fileName e) = 16)"

lemma length_le4 [simp]: "length (le4 x) = 4"
  by (simp add: le4_def)

lemma get_le4: "get_le 4 0 (le4 x @ xs) = x"
proof -
  have "get_le 4 0 (le4 x @ xs) = get_le 4 0 (le4 x)" by (rule get_le_cong) (simp add: nth_append)
  also have "\<dots> = x" unfolding le4_def by (rule get_put_le) simp_all
  finally show ?thesis .
qed

lemma put_le4: "length xs = 4 \<Longrightarrow> put_le 4 0 (x :: u32) xs = le4 x"
  unfolding le4_def by (rule nth_equalityI) (auto simp: put_le_nth)

lemma get_le_shift: "length xs = p \<Longrightarrow> get_le n (p + q) (xs @ ys) = get_le n q ys"
  by (rule get_le_cong) (simp add: nth_append)

lemma encode_entry_bytes: "encode_entry e = fileName e @ le4 (einode e)"
  by (simp add: encode_entry_def le4_def)

lemma length_entries: "names_ok es \<Longrightarrow> length (concat (map encode_entry es)) = 20 * length es"
  by (induction es) (auto simp: names_ok_def encode_entry_bytes)

lemma entry_at_shift: "length xs = p \<Longrightarrow> entry_at (p + q) (xs @ ys) = entry_at q ys"
  using get_le_shift [of xs p 4 "q + 16" ys] by (simp add: entry_at_def add.assoc)

lemma entry_at_head: "length (fileName e) = 16 \<Longrightarrow> entry_at 0 (encode_entry e @ ys) = e"
proof -
  assume l: "length (fileName e) = 16"
  have "(get_le 4 (16 + 0) (fileName e @ le4 (einode e) @ ys) :: u32) = get_le 4 0 (le4 (einode e) @ ys)"
    by (rule get_le_shift [OF l])
  then have "(get_le 4 16 (fileName e @ le4 (einode e) @ ys) :: u32) = einode e" by (simp add: get_le4)
  then show ?thesis using l by (simp add: entry_at_def encode_entry_bytes)
qed

lemma entry_at_nth:
  "names_ok es \<Longrightarrow> i < length es \<Longrightarrow> entry_at (20 * i) (concat (map encode_entry es) @ ys) = es ! i"
proof (induction es arbitrary: i)
  case (Cons e es)
  have l: "length (encode_entry e) = 20" using Cons.prems(1) by (simp add: names_ok_def encode_entry_bytes)
  show ?case
  proof (cases i)
    case 0
    then show ?thesis using entry_at_head [of e] Cons.prems(1) by (simp add: names_ok_def)
  next
    case (Suc j)
    then show ?thesis
      using Cons.IH [of j] Cons.prems entry_at_shift [OF l, of "20 * j"] by (simp add: names_ok_def)
  qed
qed simp

lemma collect_loop:
  assumes "\<And>i. i < k \<Longrightarrow> f i = es ! i" "k \<le> length es" "length res = length es"
  shows "\<exists>res'. fold (\<lambda>i (res, r). let e = f i in (res[r := e], if einode e \<noteq> - 1 then r + 1 else r)) [0..<k] (res, 0 :: nat) =
      (res', length (filter (\<lambda>e. einode e \<noteq> - 1) (take k es))) \<and> length res' = length es \<and>
      take (length (filter (\<lambda>e. einode e \<noteq> - 1) (take k es))) res' = filter (\<lambda>e. einode e \<noteq> - 1) (take k es)"
  using assms
proof (induction k)
  case (Suc k)
  define r where "r = length (filter (\<lambda>e. einode e \<noteq> - 1) (take k es))"
  obtain res' where IH: "fold (\<lambda>i (res, r). let e = f i in (res[r := e], if einode e \<noteq> - 1 then r + 1 else r)) [0..<k] (res, 0) = (res', r)"
    "length res' = length es" "take r res' = filter (\<lambda>e. einode e \<noteq> - 1) (take k es)"
    using Suc.IH Suc.prems unfolding r_def by auto
  have k: "k < length es" using Suc.prems(2) by simp
  have "r \<le> k" using length_filter_le [of "\<lambda>e. einode e \<noteq> - 1" "take k es"] k by (simp add: r_def)
  then have r: "r < length res'" using IH(2) k by simp
  have t: "take (Suc k) es = take k es @ [es ! k]" using k by (simp add: take_Suc_conv_app_nth)
  have "take (Suc r) (res'[r := es ! k]) = filter (\<lambda>e. einode e \<noteq> - 1) (take k es) @ [es ! k]"
    using r IH(3) by (simp add: take_Suc_conv_app_nth)
  moreover have "take r (res'[r := es ! k]) = filter (\<lambda>e. einode e \<noteq> - 1) (take k es)" using IH(3) by simp
  ultimately show ?case
    using IH(1,2) Suc.prems(1) [of k] by (auto simp: t r_def [symmetric] Let_def)
qed simp

lemma read_entries_dir:
  assumes "names_ok es"
  shows "read_entries (length es) (dir_bytes es) = filter (\<lambda>e. einode e \<noteq> - 1) es"
proof -
  have "entry_at (4 + 20 * i) (dir_bytes es) = es ! i" if "i < length es" for i
    using entry_at_nth [OF assms that, of "[]"] entry_at_shift [of "le4 (of_nat (length es))" 4 "20 * i"]
    by (simp add: dir_bytes_def)
  then show ?thesis
    unfolding read_entries_def
    using collect_loop [of "length es" "\<lambda>i. entry_at (4 + 20 * i) (dir_bytes es)" es
        "replicate (length es) (entry_at 0 (replicate 20 0))"]
    by (auto simp: Let_def)
qed

lemma length_dir_bytes: "names_ok es \<Longrightarrow> length (dir_bytes es) = 4 + 20 * length es"
  by (simp add: dir_bytes_def length_entries)

lemma room_bounds: "disk_inv d \<Longrightarrow> valid d n \<Longrightarrow> length (contents d n) \<le> room d n" "room d n \<le> 5120"
proof -
  show "length (contents d n) \<le> room d n" if "disk_inv d" "valid d n"
    using disk_inv_node [OF that] length_contents [OF that] room_ge [of d n] by (simp add: node_ok_def)
qed (simp add: room_def)

lemma disk_writeDir_spec:
  assumes "disk_inv d" "valid d n" "rinode (resource v) = int n" "contents d n = dir_bytes es" "names_ok es" "names_ok es'"
    "4 + 20 * (length es + length es') \<le> room d n"
  obtains d' v' where "disk_writeDir v es' d = Some (d', v')" "disk_inv d'" "only_node n d d'"
    "contents d' n = dir_bytes (es @ es')" "rinode (resource v') = int n"
proof -
  define data where "data = concat (map encode_entry es')"
  have len: "length (contents d n) = 4 + 20 * length es" "length data = 20 * length es'"
    using assms(4-6) by (simp_all add: length_dir_bytes data_def length_entries)
  have sz: "nsize (nodes d ! n) = length (contents d n)" using length_contents [OF assms(1,2)] by simp
  let ?r = "(resource v)\<lparr>rsize := length (contents d n) + length data\<rparr>"
  have k: "min (min (20 * length es') (5120 - length (contents d n))) (room d n - length (contents d n)) = length data"
    using len assms(7) room_bounds(2) [of d n] by simp
  obtain d1 where d1: "disk_write (resource v) (length (contents d n)) (20 * length es') data d = Some (d1, ?r, length data)"
    "disk_inv d1" "only_node n d d1" "contents d1 n = contents d n @ data"
    using disk_write_spec [OF assms(1-3) order_refl, of "20 * length es'" data] len(2) unfolding k
    by (auto simp: patch_def)
  have v1: "valid d1 n" using only_node_valid [OF d1(3)] assms(2) by simp
  have c1: "contents d1 n = le4 (of_nat (length es)) @ concat (map encode_entry (es @ es'))"
    using d1(4) assms(4) by (simp add: dir_bytes_def data_def)
  have rd: "disk_read ?r 0 4 d1 = Some (le4 (of_nat (length es)))"
    using disk_read_eq [OF d1(2) v1, of ?r] assms(3) by (simp add: c1)
  let ?h = "le4 (of_nat (length es) + of_nat (length es'))"
  have k1: "min (min 4 (5120 - 0)) (room d1 n - 0) = 4" using room_bounds(1) [OF d1(2) v1] by (simp add: c1)
  obtain d' where d': "disk_write ?r 0 4 ?h d1 = Some (d', ?r\<lparr>rsize := length (contents d' n)\<rparr>, 4)"
    "disk_inv d'" "only_node n d1 d'" "contents d' n = ?h @ concat (map encode_entry (es @ es'))"
    using disk_write_spec [OF d1(2) v1, of ?r 0 4 ?h] assms(3) unfolding k1 by (auto simp: patch_def c1)
  have "disk_writeDir v es' d = Some (d', v\<lparr>resource := ?r\<lparr>rsize := length (contents d' n)\<rparr>\<rparr>)"
    using d1(1) rd d'(1) get_le4 [of "of_nat (length es)" "[]"]
    by (simp add: disk_writeDir_def getNode_valid [OF assms(2,3)] sz data_def [symmetric] put_le4 Let_def)
  moreover have "contents d' n = dir_bytes (es @ es')" using d'(4) by (simp add: dir_bytes_def)
  ultimately show ?thesis using that d'(2) only_node_trans [OF d1(3) d'(3)] assms(3) by simp
qed

lemma readDir_collect_spec:
  assumes "disk_inv d" "valid d n" "rinode (resource v) = int n" "ntype (nodes d ! n) = DIRECTORY"
    "contents d n = dir_bytes es" "names_ok es" "length es < 2 ^ 32"
  shows "readDir_collect v d = Some (filter (\<lambda>e. einode e \<noteq> - 1) es)"
    "disk_readDir v d = (if es = [] then Some [] else None)"
proof -
  have rd: "disk_read (resource v) 0 (nsize (nodes d ! n)) d = Some (dir_bytes es)"
    using disk_read_eq [OF assms(1-3)] length_contents [OF assms(1,2)] assms(5) by simp
  have cnt: "unat (get_le 4 0 (dir_bytes es) :: u32) = length es"
    using assms(7) by (simp add: dir_bytes_def get_le4 unat_of_nat)
  show c: "readDir_collect v d = Some (filter (\<lambda>e. einode e \<noteq> - 1) es)"
    using assms(4,6) by (simp add: readDir_collect_def getNode_valid [OF assms(2,3)] rd length_dir_bytes cnt read_entries_dir)
  have "(get_le 4 0 (dir_bytes es) :: u32) = 0 \<longleftrightarrow> es = []"
    unfolding unat_eq_0 [symmetric] cnt by simp
  then show "disk_readDir v d = (if es = [] then Some [] else None)"
    by (simp add: disk_readDir_def c getNode_valid [OF assms(2,3)] rd)
qed

text \<open>Directory entries: on a well-formed disk with room for them, \<open>writeDir\<close> appends the given entries
  to a directory and adds their number to its count, touching no other file; \<open>readDir\<close> then collects exactly
  the entries of the directory whose inode is not \<open>-1\<close>, in order. But \<open>readDir\<close> has no return statement after
  collecting, so that for a directory with any entry its result is undefined.\<close>

theorem dir_write_read:
  assumes "disk_inv d" "valid d n" "rinode (resource v) = int n" "ntype (nodes d ! n) = DIRECTORY"
    "contents d n = dir_bytes es" "names_ok es" "names_ok es'" "4 + 20 * (length es + length es') \<le> room d n"
  shows "\<exists>d' v'. disk_writeDir v es' d = Some (d', v') \<and> disk_inv d' \<and> contents d' n = dir_bytes (es @ es') \<and>
    (\<forall>m. valid d m \<and> m \<noteq> n \<longrightarrow> contents d' m = contents d m) \<and>
    readDir_collect v' d' = Some (filter (\<lambda>e. einode e \<noteq> - 1) (es @ es')) \<and>
    disk_readDir v' d' = (if es @ es' = [] then Some [] else None)"
proof -
  obtain d' v' where w: "disk_writeDir v es' d = Some (d', v')" "disk_inv d'" "only_node n d d'"
    "contents d' n = dir_bytes (es @ es')" "rinode (resource v') = int n"
    using disk_writeDir_spec [OF assms(1-3,5-8)] .
  have v': "valid d' n" using only_node_valid [OF w(3)] assms(2) by simp
  have "ntype (nodes d' ! n) = DIRECTORY" using w(3) assms(4) by (simp add: only_node_def)
  moreover have "names_ok (es @ es')" using assms(6,7) by (auto simp: names_ok_def)
  moreover have "length (es @ es') < 2 ^ 32" using assms(8) room_bounds(2) [of d n] by simp
  ultimately show ?thesis
    using readDir_collect_spec [OF w(2) v' w(5) _ w(4)] w(1,2,4) only_node_contents [OF w(3)] by blast
qed

definition demo_dir :: RamDisk where
  "demo_dir = \<lparr>deviceID = 1, super = \<lparr>iNodeCnt = 2, dataBitsetSize = 1, blockCnt = 3\<rparr>,
     nodes = [\<lparr>inode = 0, ntype = DIRECTORY, blocksInUse = 1, nsize = 4, dataBlocks = Some 1 # replicate 9 None\<rparr>, blank_node],
     store = 2 # replicate 1536 0\<rparr>"

lemma demo_dir_inv: "disk_inv demo_dir" "contents demo_dir 0 = dir_bytes []" "valid demo_dir 0"
proof -
  have v: "valid demo_dir n \<longleftrightarrow> n = 0" for n by (auto simp: valid_def demo_dir_def blank_node_def less_Suc_eq)
  then show "valid demo_dir 0" by simp
  have t: "testBlock 1 demo_dir" by (simp add: testBlock_bit demo_dir_def bit_simps)
  have "geometry demo_dir" by (auto simp: geometry_def demo_dir_def blank_node_def less_Suc_eq)
  moreover have "node_ok demo_dir 0" using t by (auto simp: node_ok_def demo_dir_def)
  moreover have "unshared demo_dir" unfolding unshared_def v by (auto simp: holds_def demo_dir_def)
  ultimately show "disk_inv demo_dir" by (simp add: disk_inv_def v)
  have "block demo_dir 1 = replicate 512 0" by (simp add: block_def blockAddr_def demo_dir_def drop_Cons')
  then have "contents demo_dir 0 = [0, 0, 0, 0]"
    by (simp add: contents_def allocated_def owned_def) (simp add: demo_dir_def numeral_eq_Suc)
  moreover have "dir_bytes [] = [0, 0, 0, 0]"
    by (simp add: dir_bytes_def le4_def put_le_def numeral_eq_Suc)
  ultimately show "contents demo_dir 0 = dir_bytes []" by simp
qed

lemma demo_dir_free: "freeCnt demo_dir > 0"
proof -
  have "\<not> testBlock 0 demo_dir" by (simp add: testBlock_bit demo_dir_def bit_simps)
  moreover have "blockCnt (super demo_dir) = 3" by (simp add: demo_dir_def)
  ultimately have "freeCnt demo_dir \<noteq> 0" unfolding getFreeDataBlock_None [symmetric]
    by (auto simp: getFreeDataBlock_def find_None_iff intro!: exI [of _ 0])
  then show ?thesis by simp
qed

theorem dir_write_read_witness:
  "\<exists>d' v'. disk_writeDir demo_node [\<lparr>fileName = replicate 16 97, einode = 5\<rparr>] demo_dir = Some (d', v') \<and>
     readDir_collect v' d' = Some [\<lparr>fileName = replicate 16 97, einode = 5\<rparr>] \<and> disk_readDir v' d' = None"
proof -
  have "512 * 1 \<le> room demo_dir 0" using room_ge [of demo_dir 0] by (simp add: demo_dir_def)
  then show ?thesis
    using dir_write_read [OF demo_dir_inv(1,3), of demo_node "[]" "[\<lparr>fileName = replicate 16 97, einode = 5\<rparr>]"]
    by (simp add: demo_dir_inv(2) demo_node_def demo_res_def names_ok_def) (auto simp: demo_dir_def)
qed

end
