(* ===== verification/Vfs_Tree.thy ===== *)
theory Vfs_Tree
  imports Vfs Disk_Files
begin

text \<open>
  The contract of the virtual file system: an interface locale with what it relies on of the file systems,
  the shape of the node tree and how the operations keep it, and the interpretation of the interface by the RAM
  disk, from which the properties of files by path follow.
\<close>

section \<open>The file system interface\<close>

text \<open>What the VFS relies on of the file systems behind it: they leave the name and the place in the tree of the
  node they are given alone, and reading and writing act on the content of a node.\<close>

definition same_place :: "VNode \<Rightarrow> VNode \<Rightarrow> bool" where
  "same_place nd nd' \<longleftrightarrow> name nd' = name nd \<and> children nd' = children nd \<and> parent nd' = parent nd"

lemma resolve_append:
  "resolvePathUtil fss cur (es @ es') s = do {
     (r, s1) \<leftarrow> resolvePathUtil fss cur es s;
     (case r of None \<Rightarrow> Some (None, s1) | Some p \<Rightarrow> resolvePathUtil fss p es' s1) }"
proof (induction es arbitrary: cur s)
  case (Cons e es)
  have "(case r of None \<Rightarrow> Some (None, s1) | Some c \<Rightarrow> resolvePathUtil fss c (es @ es') s1) =
      Option.bind (case r of None \<Rightarrow> Some (None, s1) | Some c \<Rightarrow> resolvePathUtil fss c es s1)
        (\<lambda>(r, s1). case r of None \<Rightarrow> Some (None, s1) | Some p \<Rightarrow> resolvePathUtil fss p es' s1)" for r s1
    using Cons by (cases r) simp_all
  then show ?case by (simp cong: Option.bind_cong)
qed simp

lemma resolvePath_child:
  assumes "split_parent path = Some (pp, nm)" "nm \<noteq> []" "resolvePath fss pp s = Some (Some par, s1)"
  shows "resolvePath fss path s = resolvePathUtil fss par [nm] s1"
proof -
  have ps: "path_split CHR ''/'' path = path_split CHR ''/'' pp @ [nm]" "path_split CHR ''/'' pp \<noteq> []"
    using path_split_child [OF assms(1,2)] by simp_all
  obtain rn where "deref (root s) s = Some rn" "hd (path_split CHR ''/'' pp) = name rn"
    "resolvePathUtil fss (root s) (tl (path_split CHR ''/'' pp)) s = Some (Some par, s1)"
    using assms(3) by (auto simp: resolvePath_def Let_def split: bind_splits if_splits)
  then show ?thesis using ps by (simp add: resolvePath_def Let_def resolve_append del: resolvePathUtil.simps)
qed

lemma reaches_child:
  assumes "split_parent path = Some (pp, nm)" "nm \<noteq> []" "reaches s pp par" "deref par s = Some pn"
    "find_child nm (children pn) s = Some (Some c)"
  shows "reaches s path c"
  using path_split_child [OF assms(1,2)] assms(3-5) by (auto simp: reaches_def walk_append)

lemma find_child_None: "find_child nm cs s = Some None \<Longrightarrow> c \<in> set cs \<Longrightarrow> \<exists>n. deref c s = Some n \<and> name n \<noteq> nm"
  by (induction cs) (auto split: bind_splits if_splits)

text \<open>The shape of the tree: the root is there and has no parent, no child pointer dangles, every child knows its
  parent, and no child is listed twice.\<close>

definition tree_ok :: "'f VFS \<Rightarrow> bool" where
  "tree_ok s \<longleftrightarrow> (\<exists>rn. deref (root s) s = Some rn \<and> parent rn = None) \<and>
    (\<forall>p nd. deref p s = Some nd \<longrightarrow> distinct (children nd) \<and>
      (\<forall>c\<in>set (children nd). \<exists>cn. deref c s = Some cn \<and> parent cn = Some p))"

lemma tree_okD:
  assumes "tree_ok s" "deref p s = Some nd"
  shows "distinct (children nd)" "\<And>c. c \<in> set (children nd) \<Longrightarrow> \<exists>cn. deref c s = Some cn \<and> parent cn = Some p"
  using assms by (auto simp: tree_ok_def)

lemma tree_ok_cong: "root s = root s' \<Longrightarrow> heap s = heap s' \<Longrightarrow> tree_ok s = tree_ok s'"
  by (simp add: tree_ok_def deref_def)

lemma deref_out: "\<not> p < length (heap s) \<Longrightarrow> deref p s = None"
  by (simp add: deref_def)

lemma tree_new_child:
  assumes "tree_ok s" "deref par s = Some pn" "children pn' = children pn @ [length (heap s)]" "parent pn' = parent pn"
    "children x = []" "parent x = Some par"
  shows "tree_ok (set_node par pn' (s\<lparr>heap := heap s @ [Some x], fstate := f\<rparr>))"
    "tree_ok (set_node par pn' (s\<lparr>heap := heap s @ [Some x]\<rparr>))"
proof -
  let ?s = "set_node par pn' (s\<lparr>heap := heap s @ [Some x], fstate := f\<rparr>)"
  have par: "par < length (heap s)" by (rule deref_len [OF assms(2)])
  have d: "deref p ?s = (if p = par then Some pn' else if p = length (heap s) then Some x else deref p s)" for p
    using par deref_out [of p s] by (auto simp: deref_set_node deref_app)
  have live: "\<exists>cn. deref c ?s = Some cn \<and> parent cn = Some p" if "deref c s = Some cn" "parent cn = Some p" for c cn p
    using that assms(2,4) deref_len [OF that(1)] by (auto simp: d)
  obtain rn where r: "deref (root s) s = Some rn" "parent rn = None" using assms(1) by (auto simp: tree_ok_def)
  have root: "\<exists>rn. deref (root ?s) ?s = Some rn \<and> parent rn = None"
  proof -
    have "root ?s = root s" by (simp add: set_node_def)
    then show ?thesis using r assms(2,4) deref_len [OF r(1)] by (auto simp: d)
  qed
  have fresh: "length (heap s) \<notin> set (children pn)" using tree_okD(2) [OF assms(1,2)] deref_len by fastforce
  have "distinct (children nd) \<and> (\<forall>c\<in>set (children nd). \<exists>cn. deref c ?s = Some cn \<and> parent cn = Some p)"
    if nd: "deref p ?s = Some nd" for p nd
  proof (cases "p = par")
    case True
    then have n: "nd = pn'" using nd by (simp add: d)
    have "\<exists>cn. deref c ?s = Some cn \<and> parent cn = Some p" if "c \<in> set (children pn)" for c
      using tree_okD(2) [OF assms(1,2) that] live True by blast
    moreover have "deref (length (heap s)) ?s = Some x" using par by (simp add: d)
    ultimately show ?thesis
      using n True fresh tree_okD(1) [OF assms(1,2)] assms(3,6) by auto
  next
    case False
    show ?thesis
    proof (cases "p = length (heap s)")
      case True
      then show ?thesis using nd False assms(5) by (simp add: d)
    next
      case other: False
      then have "deref p s = Some nd" using nd False by (simp add: d)
      then show ?thesis using tree_okD [OF assms(1)] live by blast
    qed
  qed
  then show t: "tree_ok ?s" unfolding tree_ok_def using root by blast
  have "tree_ok ?s = tree_ok (set_node par pn' (s\<lparr>heap := heap s @ [Some x]\<rparr>))"
    by (rule tree_ok_cong) (simp_all add: set_node_def)
  then show "tree_ok (set_node par pn' (s\<lparr>heap := heap s @ [Some x]\<rparr>))" using t by simp
qed

lemma tree_same_place:
  assumes "tree_ok s" "deref p s = Some nd" "same_place nd nd'"
  shows "tree_ok (set_node p nd' (s\<lparr>fstate := f\<rparr>))"
proof -
  let ?s = "set_node p nd' (s\<lparr>fstate := f\<rparr>)"
  have l: "p < length (heap (s\<lparr>fstate := f\<rparr>))" using deref_len [OF assms(2)] by simp
  have d: "deref q ?s = (if q = p then Some nd' else deref q s)" for q
    unfolding deref_set_node [OF l] by (simp add: deref_app)
  have same: "\<exists>m'. deref q ?s = Some m' \<and> same_place m m'" if "deref q s = Some m" for q m
    using that assms(2,3) by (auto simp: d same_place_def)
  have orig: "\<exists>m. deref q s = Some m \<and> same_place m m'" if "deref q ?s = Some m'" for q m'
    using that assms(2,3) by (auto simp: d same_place_def split: if_splits)
  obtain rn where r: "deref (root s) s = Some rn" "parent rn = None" using assms(1) by (auto simp: tree_ok_def)
  have "root ?s = root s" by (simp add: set_node_def)
  then have root: "\<exists>rn. deref (root ?s) ?s = Some rn \<and> parent rn = None"
    using same [OF r(1)] r(2) by (auto simp: same_place_def)
  have "distinct (children m') \<and> (\<forall>c\<in>set (children m'). \<exists>cn. deref c ?s = Some cn \<and> parent cn = Some q)"
    if m': "deref q ?s = Some m'" for q m'
  proof -
    obtain m where m: "deref q s = Some m" "children m' = children m" using orig [OF m'] by (auto simp: same_place_def)
    have "\<exists>cn. deref c ?s = Some cn \<and> parent cn = Some q" if c: "c \<in> set (children m)" for c
    proof -
      obtain cn where cn: "deref c s = Some cn" "parent cn = Some q" using tree_okD(2) [OF assms(1) m(1) c] by blast
      then show ?thesis using same [OF cn(1)] by (auto simp: same_place_def)
    qed
    then show ?thesis using m(2) tree_okD(1) [OF assms(1) m(1)] by simp
  qed
  then show ?thesis unfolding tree_ok_def using root by blast
qed

lemma erase_child_set:
  assumes "distinct cs"
  shows "distinct (erase_child c cs) \<and> set (erase_child c cs) = set cs - {c}"
proof (cases "List.find (\<lambda>i. cs ! i = c) [0..<length cs]")
  case None
  then have "c \<notin> set cs" by (auto simp: find_None_iff in_set_conv_nth)
  then show ?thesis using None assms by (simp add: erase_child_def)
next
  case (Some i)
  then have i: "i < length cs" "cs ! i = c" by (auto simp: find_Some_iff)
  define xs where "xs = (if i \<noteq> length cs - 1 then swap_at i (length cs - 1) cs else cs)"
  have l: "length cs - 1 < length cs" "length xs = length cs" using i(1) by (auto simp: xs_def)
  have m: "mset xs = mset cs" using i(1) l(1) by (simp add: xs_def swap_at_def mset_swap)
  have "xs \<noteq> []" using i(1) l(2) by auto
  moreover have "last xs = c" using i l \<open>xs \<noteq> []\<close> by (auto simp: xs_def last_conv_nth nth_swap_at)
  ultimately have b: "xs = butlast xs @ [c]" by (metis append_butlast_last_id)
  have "distinct (butlast xs @ [c])" "set (butlast xs @ [c]) = set cs"
    using mset_eq_imp_distinct_iff [OF m] mset_eq_setD [OF m] assms b by simp_all
  then have "distinct (butlast xs) \<and> set (butlast xs) = set cs - {c}" by auto
  then show ?thesis using Some by (simp add: erase_child_def xs_def)
qed

locale file_systems =
  fixes fss :: "'f fsTable"
    and fs_inv :: "'f \<Rightarrow> bool"
    and ok :: "'f \<Rightarrow> VNode \<Rightarrow> bool"
    and content :: "'f \<Rightarrow> VNode \<Rightarrow> u8 list"
    and space :: "'f \<Rightarrow> VNode \<Rightarrow> nat"
  assumes populate_place: "fs_populateVFSNode (fss i) ino nd f = Some nd' \<Longrightarrow> same_place nd nd'"
    and create_place: "fs_create (fss i) ty nd f = Some (f', nd') \<Longrightarrow> same_place nd nd'"
    and writeDir_place: "fs_writeDir (fss i) nd es f = Some (f', nd') \<Longrightarrow> same_place nd nd'"
    and read_content: "fs_inv f \<Longrightarrow> ok f nd \<Longrightarrow> offset \<le> length (content f nd) \<Longrightarrow>
      node_read fss offset sz nd f = Some (take sz (drop offset (content f nd)))"
    and write_content: "fs_inv f \<Longrightarrow> ok f nd \<Longrightarrow> offset \<le> length (content f nd) \<Longrightarrow> sz \<le> length buf \<Longrightarrow>
      \<exists>f' nd' k. node_write fss offset sz buf nd f = Some (f', nd', k) \<and> k = min sz (space f nd - offset) \<and>
        fs_inv f' \<and> ok f' nd' \<and> same_place nd nd' \<and> vtype nd' = vtype nd \<and> vfileSystem nd' = vfileSystem nd \<and>
        rsize (resource nd') = length (content f' nd') \<and> space f' nd' = space f nd \<and>
        content f' nd' = take offset (content f nd) @ take k buf @ drop (offset + k) (content f nd)"
begin

lemma write_then_read:
  assumes "reaches s path p" "deref p s = Some nd" "vtype nd \<noteq> INVALID" "fs_inv (fstate s)" "ok (fstate s) nd"
    "offset \<le> length (content (fstate s) nd)" "sz \<le> length buf"
  shows "\<exists>s' k. vfs_write fss path offset sz buf s = Some s' \<and> k = min sz (space (fstate s) nd - offset) \<and>
    fs_inv (fstate s') \<and> reaches s' path p \<and> vfs_read fss path offset k s' = Some (take k buf, s')"
proof -
  obtain f' nd' k where w: "node_write fss offset sz buf nd (fstate s) = Some (f', nd', k)"
    "k = min sz (space (fstate s) nd - offset)" "fs_inv f'" "ok f' nd'" "same_place nd nd'" "vtype nd' = vtype nd"
    "content f' nd' = take offset (content (fstate s) nd) @ take k buf @ drop (offset + k) (content (fstate s) nd)"
    using write_content [OF assms(4-7)] by (elim exE conjE) blast
  define s' where "s' = set_node p nd' (s\<lparr>fstate := f'\<rparr>)"
  have f: "fstate s' = f'" by (simp add: s'_def set_node_def)
  have p: "deref p (s\<lparr>fstate := f'\<rparr>) = Some nd" using assms(2) by (simp add: deref_app)
  have "grows (s\<lparr>fstate := f'\<rparr>) s'"
    unfolding s'_def by (rule grows_set_node [OF p, of _ "[]"]) (use w(5) in \<open>simp_all add: same_place_def\<close>)
  then have "grows s s'" by (simp add: grows_def deref_app)
  then have r: "reaches s' path p" by (rule reaches_grows [OF assms(1)])
  have d: "deref p s' = Some nd'" using deref_len [OF p] by (simp add: s'_def deref_set_node)
  have lk: "length (take k buf) = k" using w(2) assms(7) by simp
  have "node_read fss offset k nd' f' = Some (take k buf)"
    using read_content [OF w(3,4)] assms(6) lk by (simp add: w(7))
  then have "vfs_read fss path offset k s' = Some (take k buf, s')"
    using assms(3) w(6) by (simp add: vfs_read_def reaches_resolve [OF r] d f)
  moreover have "vfs_write fss path offset sz buf s = Some s'"
    using assms(3) w(1) by (simp add: vfs_write_def reaches_resolve [OF assms(1)] assms(2) s'_def)
  ultimately show ?thesis using w(2,3) r f by blast
qed

lemma make_Some:
  assumes "vfs_make ty fss junk path s = Some (Some q, s')"
  obtains pp nm par s1 pn f nd f' pn' where "split_parent path = Some (pp, nm)" "resolvePath fss pp s = Some (Some par, s1)"
    "deref par s1 = Some pn" "node_create fss ty (blank_vnode (vfileSystem pn)) (fstate s1) = Some (f, nd)"
    "q = length (heap s1)" "name pn' = name pn" "parent pn' = parent pn" "children pn' = children pn @ [q]"
    "children nd = []" "s' = set_node par pn' (s1\<lparr>heap := heap s1 @ [Some (nd\<lparr>name := nm, parent := Some par\<rparr>)], fstate := f'\<rparr>)"
proof -
  obtain pp nm par s1 pn f nd f' pn' where a: "split_parent path = Some (pp, nm)" "resolvePath fss pp s = Some (Some par, s1)"
    "deref par s1 = Some pn" "node_create fss ty (blank_vnode (vfileSystem pn)) (fstate s1) = Some (f, nd)"
    "q = length (heap s1)"
    "node_writeDir fss [fromStringName junk nm (rinode (resource nd))] (pn\<lparr>children := children pn @ [q]\<rparr>) f = Some (f', pn')"
    "s' = set_node par pn' (s1\<lparr>heap := heap s1 @ [Some (nd\<lparr>name := nm, parent := Some par\<rparr>)], fstate := f'\<rparr>)"
    using assms by (auto simp: vfs_make_def Let_def split: bind_splits option.splits)
  have "same_place (pn\<lparr>children := children pn @ [q]\<rparr>) pn'"
    using a(6) writeDir_place by (auto simp: node_writeDir_def split: bind_splits)
  moreover have "same_place (blank_vnode (vfileSystem pn)) nd"
    using a(4) create_place by (auto simp: node_create_def split: bind_splits)
  ultimately have "name pn' = name pn" "parent pn' = parent pn" "children pn' = children pn @ [q]" "children nd = []"
    by (simp_all add: same_place_def blank_vnode_def)
  from that [OF a(1-5) this a(7)] show ?thesis .
qed

lemma make_opens:
  assumes "vfs_make ty fss junk path s = Some (Some q, s')" "resolvePath fss path s = Some (None, s0)"
    "split_parent path = Some (pp, nm)" "nm \<noteq> []"
  shows "vfs_openNode fss path s' = Some (Some q, s') \<and> grows s s' \<and>
    (\<exists>nd par. deref q s' = Some nd \<and> name nd = nm \<and> parent nd = Some par \<and> reaches s' pp par)"
proof -
  obtain pp' nm' par s1 pn f nd f' pn' where m0: "split_parent path = Some (pp', nm')" "resolvePath fss pp' s = Some (Some par, s1)"
    "deref par s1 = Some pn" "node_create fss ty (blank_vnode (vfileSystem pn)) (fstate s1) = Some (f, nd)"
    "q = length (heap s1)" "name pn' = name pn" "parent pn' = parent pn" "children pn' = children pn @ [q]"
    "children nd = []" "s' = set_node par pn' (s1\<lparr>heap := heap s1 @ [Some (nd\<lparr>name := nm', parent := Some par\<rparr>)], fstate := f'\<rparr>)"
    by (rule make_Some [OF assms(1)])
  have "pp' = pp" "nm' = nm" using m0(1) assms(3) by simp_all
  note m = m0(2,3,5,6,8,10) [unfolded this]
  have r1: "reaches s1 pp par" "grows s s1" using resolve_reaches [OF m(1)] by simp_all
  have g: "grows s1 s'" unfolding m(6) by (rule grows_new_child(1) [OF m(2,4,5)])
  have r: "reaches s' pp par" by (rule reaches_grows [OF r1(1) g])
  have d: "deref par s' = Some pn'" "deref q s' = Some (nd\<lparr>name := nm, parent := Some par\<rparr>)"
    using deref_len [OF m(2)] by (simp_all add: m(3,6) deref_set_node deref_app)
  have "resolvePathUtil fss par [nm] s1 = Some (None, s0)"
    using resolvePath_child [OF assms(3,4) m(1)] assms(2) by simp
  then have "children pn = [] \<or> find_child nm (children pn) s1 = Some None"
    using m(2) by (cases "children pn") (auto split: bind_splits option.splits)
  then have "\<forall>c\<in>set (children pn). \<exists>n. deref c s' = Some n \<and> name n \<noteq> nm"
    using find_child_None [of nm "children pn" s1] growsD [OF g] by (metis empty_iff empty_set)
  then have "find_child nm (children pn') s' = Some (Some q)"
    unfolding find_child_Some using d(2) m(5) by auto
  then have "reaches s' path q" by (rule reaches_child [OF assms(3,4) r d(1)])
  then show ?thesis
    using reaches_resolve [of s' path q fss] grows_trans [OF r1(2) g] d(2) r by (simp add: vfs_openNode_def)
qed

lemma tree_addChild: "addChild fss par e s = Some s' \<Longrightarrow> tree_ok s \<Longrightarrow> tree_ok s'"
proof -
  assume a: "addChild fss par e s = Some s'" and t: "tree_ok s"
  then obtain pn nd i where h: "deref par s = Some pn" "vfileSystem pn = Some i"
    "fs_populateVFSNode (fss i) (sint (einode e)) ((blank_vnode (vfileSystem pn))\<lparr>name := entryName e\<rparr>) (fstate s) = Some nd"
    "s' = set_node par (pn\<lparr>children := children pn @ [length (heap s)]\<rparr>) (s\<lparr>heap := heap s @ [Some (nd\<lparr>parent := Some par\<rparr>)]\<rparr>)"
    by (auto simp: addChild_def node_populate_def Let_def split: bind_splits)
  have "children nd = []" using populate_place [OF h(3)] by (simp add: same_place_def blank_vnode_def)
  then show ?thesis unfolding h(4) by (intro tree_new_child(2) [OF t h(1)]) simp_all
qed

lemma tree_addChildren: "addChildren fss par s = Some s' \<Longrightarrow> tree_ok s \<Longrightarrow> tree_ok s'"
proof -
  have "addChildren_loop fss par es s = Some s' \<Longrightarrow> tree_ok s \<Longrightarrow> tree_ok s'" for es s
    by (induction es arbitrary: s) (auto intro: tree_addChild split: bind_splits)
  then show "addChildren fss par s = Some s' \<Longrightarrow> tree_ok s \<Longrightarrow> tree_ok s'"
    by (auto simp: addChildren_def split: bind_splits)
qed

lemma tree_resolveUtil: "resolvePathUtil fss cur es s = Some (r, s') \<Longrightarrow> tree_ok s \<Longrightarrow> tree_ok s'"
proof (induction es arbitrary: cur s)
  case (Cons e es)
  then obtain nd s1 nd1 x where a: "(if children nd = [] then addChildren fss cur s else Some s) = Some s1"
    "(case x of None \<Rightarrow> Some (None, s1) | Some c \<Rightarrow> resolvePathUtil fss c es s1) = Some (r, s')"
    "deref cur s = Some nd" "deref cur s1 = Some nd1" "find_child e (children nd1) s1 = Some x"
    by (auto split: bind_splits)
  have "tree_ok s1" using a(1) Cons.prems(2) tree_addChildren by (auto split: if_splits)
  then show ?case using a(2) Cons.IH by (auto split: option.splits)
qed simp

lemma tree_resolve: "resolvePath fss path s = Some (r, s') \<Longrightarrow> tree_ok s \<Longrightarrow> tree_ok s'"
  by (auto simp: resolvePath_def Let_def intro: tree_resolveUtil split: bind_splits if_splits)

lemma tree_make: "vfs_make ty fss junk path s = Some (r, s') \<Longrightarrow> tree_ok s \<Longrightarrow> tree_ok s'"
proof (cases r)
  case None
  assume "vfs_make ty fss junk path s = Some (r, s')" "tree_ok s"
  moreover from this obtain pp where "resolvePath fss pp s = Some (None, s')"
    using None by (auto simp: vfs_make_def Let_def split: bind_splits option.splits)
  ultimately show ?thesis using tree_resolve by blast
next
  case (Some q)
  assume a: "vfs_make ty fss junk path s = Some (r, s')" and t: "tree_ok s"
  obtain pp nm par s1 pn f nd f' pn' where m: "split_parent path = Some (pp, nm)" "resolvePath fss pp s = Some (Some par, s1)"
    "deref par s1 = Some pn" "node_create fss ty (blank_vnode (vfileSystem pn)) (fstate s1) = Some (f, nd)"
    "q = length (heap s1)" "name pn' = name pn" "parent pn' = parent pn" "children pn' = children pn @ [q]"
    "children nd = []" "s' = set_node par pn' (s1\<lparr>heap := heap s1 @ [Some (nd\<lparr>name := nm, parent := Some par\<rparr>)], fstate := f'\<rparr>)"
    by (rule make_Some [OF a [unfolded Some]])
  show ?thesis
    unfolding m(10) by (rule tree_new_child(1) [OF tree_resolve [OF m(2) t] m(3)]) (use m(5,7,8,9) in simp_all)
qed

lemma tree_mnt: "vfs_mnt fss path fs ino s = Some (r, s') \<Longrightarrow> tree_ok s \<Longrightarrow> tree_ok s'"
proof -
  assume a: "vfs_mnt fss path fs ino s = Some (r, s')" and t: "tree_ok s"
  obtain n s1 where s1: "resolvePath fss path s = Some (n, s1)" "tree_ok s1"
    using a t tree_resolve by (auto simp: vfs_mnt_def vfs_openNode_def split: bind_splits)
  show ?thesis
  proof (cases "r = None")
    case True
    then have "s' = s1 \<or> (\<exists>pp. resolvePath fss pp s1 = Some (None, s'))"
      using a s1(1) by (auto simp: vfs_mnt_def vfs_openNode_def Let_def split: bind_splits if_splits option.splits)
    then show ?thesis using tree_resolve s1(2) by blast
  next
    case False
    then obtain pp nm par s2 nd pn where m: "resolvePath fss pp s1 = Some (Some par, s2)"
      "node_populate fss fs nm ino (blank_vnode fs) (fstate s2) = Some nd" "deref par s2 = Some pn"
      "s' = set_node par (pn\<lparr>children := children pn @ [length (heap s2)]\<rparr>) (s2\<lparr>heap := heap s2 @ [Some (nd\<lparr>parent := Some par\<rparr>)]\<rparr>)"
      using a s1(1) by (auto simp: vfs_mnt_def vfs_openNode_def Let_def split: bind_splits if_splits option.splits)
    obtain i where "fs_populateVFSNode (fss i) ino ((blank_vnode fs)\<lparr>name := nm\<rparr>) (fstate s2) = Some nd"
      using m(2) by (auto simp: node_populate_def split: bind_splits)
    then have "children nd = []" using populate_place by (fastforce simp: same_place_def blank_vnode_def)
    then show ?thesis
      unfolding m(4) by (intro tree_new_child(2) [OF tree_resolve [OF m(1) s1(2)] m(3)]) simp_all
  qed
qed

lemma tree_write: "vfs_write fss path offset sz buf s = Some s' \<Longrightarrow> tree_ok s \<Longrightarrow> tree_ok s'"
proof -
  assume a: "vfs_write fss path offset sz buf s = Some s'" and t: "tree_ok s"
  then obtain r s1 where r: "resolvePath fss path s = Some (r, s1)" by (auto simp: vfs_write_def split: bind_splits)
  have t1: "tree_ok s1" by (rule tree_resolve [OF r t])
  show ?thesis
  proof (cases "s' = s1")
    case False
    then obtain p nd f nd' k where w: "deref p s1 = Some nd" "node_write fss offset sz buf nd (fstate s1) = Some (f, nd', k)"
      "s' = set_node p nd' (s1\<lparr>fstate := f\<rparr>)"
      using a r by (auto simp: vfs_write_def split: bind_splits option.splits if_splits)
    obtain x where "nd' = nd\<lparr>resource := x\<rparr>" using w(2) by (auto simp: node_write_def split: bind_splits)
    then show ?thesis unfolding w(3) by (intro tree_same_place [OF t1 w(1)]) (simp add: same_place_def)
  qed (use t1 in simp)
qed

end

section \<open>Removing nodes\<close>

lemma tree_unlink:
  assumes "vfs_unlink fss p nd s = Some s'" "tree_ok s" "deref p s = Some nd" "children nd = []"
  shows "tree_ok s' \<and> deref p s' = None \<and> (\<forall>q. q \<noteq> p \<and> deref q s \<noteq> None \<longrightarrow> deref q s' \<noteq> None)"
proof -
  obtain par pn f where u: "parent nd = Some par" "deref par s = Some pn"
    "s' = s\<lparr>heap := ((heap s)[par := Some (pn\<lparr>children := erase_child p (children pn)\<rparr>)])[p := None], fstate := f\<rparr>"
    using assms(1) by (auto simp: vfs_unlink_def set_node_def Let_def split: bind_splits)
  let ?pn = "pn\<lparr>children := erase_child p (children pn)\<rparr>"
  have l: "p < length (heap s)" "par < length (heap s)" using deref_len assms(3) u(2) by blast+
  have d: "deref q s' = (if q = p then None else if q = par then Some ?pn else deref q s)" for q
    using l by (auto simp: deref_def u(3) nth_list_update)
  have er: "distinct (erase_child p (children pn))" "set (erase_child p (children pn)) = set (children pn) - {p}"
    using erase_child_set [OF tree_okD(1) [OF assms(2) u(2)]] by simp_all
  obtain rn where r: "deref (root s) s = Some rn" "parent rn = None" using assms(2) by (auto simp: tree_ok_def)
  have "root s \<noteq> p" using r assms(3) u(1) by auto
  moreover have "root s' = root s" by (simp add: u(3))
  ultimately have root: "\<exists>rn. deref (root s') s' = Some rn \<and> parent rn = None" using r u(2) by (auto simp: d)
  have keep: "\<exists>cn. deref c s' = Some cn \<and> parent cn = Some q" if "deref c s = Some cn" "parent cn = Some q" "c \<noteq> p" for c cn q
    using that u(2) by (auto simp: d)
  have "distinct (children n) \<and> (\<forall>c\<in>set (children n). \<exists>cn. deref c s' = Some cn \<and> parent cn = Some q)"
    if n: "deref q s' = Some n" for q n
  proof (cases "q = par")
    case True
    then have "n = ?pn" "q \<noteq> p" using n by (auto simp: d split: if_splits)
    then show ?thesis using er tree_okD(2) [OF assms(2) u(2)] keep True by fastforce
  next
    case False
    then have q: "deref q s = Some n" "q \<noteq> p" using n by (auto simp: d split: if_splits)
    have "c \<noteq> p" if "c \<in> set (children n)" for c
      using tree_okD(2) [OF assms(2) q(1) that] assms(3) u(1) False by auto
    then show ?thesis using tree_okD [OF assms(2) q(1)] keep by blast
  qed
  then have "tree_ok s'" unfolding tree_ok_def using root by blast
  then show ?thesis by (auto simp: d)
qed

section \<open>The RAM disk behind the VFS\<close>

definition disk_ok :: "RamDisk \<Rightarrow> VNode \<Rightarrow> bool" where
  "disk_ok d nd \<longleftrightarrow> vfileSystem nd \<noteq> None \<and> 0 \<le> rinode (resource nd) \<and> valid d (nat (rinode (resource nd)))"

abbreviation disk_content :: "RamDisk \<Rightarrow> VNode \<Rightarrow> u8 list" where
  "disk_content d nd \<equiv> contents d (nat (rinode (resource nd)))"

abbreviation disk_space :: "RamDisk \<Rightarrow> VNode \<Rightarrow> nat" where
  "disk_space d nd \<equiv> room d (nat (rinode (resource nd)))"

interpretation rd: file_systems "\<lambda>_. ramdisk_ops" disk_inv disk_ok disk_content disk_space
proof
  show "fs_populateVFSNode ramdisk_ops ino nd f = Some nd' \<Longrightarrow> same_place nd nd'" for ino nd f nd'
    by (auto simp: populateVFSNode_def same_place_def Let_def split: bind_splits)
  show "fs_create ramdisk_ops ty nd f = Some (f', nd') \<Longrightarrow> same_place nd nd'" for ty nd f f' nd'
    by (auto simp: disk_create_def populateVFSNode_def same_place_def Let_def split: bind_splits)
  show "fs_writeDir ramdisk_ops nd es f = Some (f', nd') \<Longrightarrow> same_place nd nd'" for nd es f f' nd'
    by (auto simp: disk_writeDir_def same_place_def Let_def split: bind_splits)
  fix d :: RamDisk and nd :: VNode and offset sz :: nat and buf :: "u8 list"
  let ?n = "nat (rinode (resource nd))"
  assume d: "disk_inv d" "disk_ok d nd"
  then have v: "valid d ?n" "rinode (resource nd) = int ?n" and fs: "\<exists>i. vfileSystem nd = Some i" by (auto simp: disk_ok_def)
  show "node_read (\<lambda>_. ramdisk_ops) offset sz nd d = Some (take sz (drop offset (contents d ?n)))"
    using disk_read_eq [OF d(1) v] fs by (auto simp: node_read_def)
  assume o: "offset \<le> length (contents d ?n)" "sz \<le> length buf"
  have k: "min (min sz (5120 - offset)) (room d ?n - offset) = min sz (room d ?n - offset)"
    using room_bounds(2) [of d ?n] by (auto simp: min_def)
  have m: "min sz (5120 - offset) \<le> length buf" using o(2) by simp
  obtain d' where w: "disk_write (resource nd) offset sz buf d =
      Some (d', (resource nd)\<lparr>rsize := length (contents d' ?n)\<rparr>, min sz (room d ?n - offset))"
    "disk_inv d'" "only_node ?n d d'" "contents d' ?n = patch offset (take (min sz (room d ?n - offset)) buf) (contents d ?n)"
    "room d' ?n = room d ?n"
    by (rule disk_write_room [OF d(1) v o(1) m, unfolded k])
  let ?k = "min sz (room d ?n - offset)"
  define nd' where "nd' = nd\<lparr>resource := (resource nd)\<lparr>rsize := length (contents d' ?n)\<rparr>\<rparr>"
  have nd': "rinode (resource nd') = rinode (resource nd)" "rsize (resource nd') = length (contents d' ?n)" "same_place nd nd'"
    "vtype nd' = vtype nd" "vfileSystem nd' = vfileSystem nd"
    by (simp_all add: nd'_def same_place_def)
  have nw: "node_write (\<lambda>_. ramdisk_ops) offset sz buf nd d = Some (d', nd', ?k)"
    using w(1) fs by (auto simp: node_write_def nd'_def)
  have ok: "disk_ok d' nd'" using d(2) only_node_valid [OF w(3)] by (simp add: disk_ok_def nd')
  have "length (take ?k buf) = ?k" using o(2) by simp
  then have c: "contents d' ?n = take offset (contents d ?n) @ take ?k buf @ drop (offset + ?k) (contents d ?n)"
    using w(4) unfolding patch_def by (simp only:)
  show "\<exists>f' nd' k. node_write (\<lambda>_. ramdisk_ops) offset sz buf nd d = Some (f', nd', k) \<and> k = min sz (room d ?n - offset) \<and>
      disk_inv f' \<and> disk_ok f' nd' \<and> same_place nd nd' \<and> vtype nd' = vtype nd \<and> vfileSystem nd' = vfileSystem nd \<and>
      rsize (resource nd') = length (contents f' (nat (rinode (resource nd')))) \<and>
      room f' (nat (rinode (resource nd'))) = room d ?n \<and>
      contents f' (nat (rinode (resource nd'))) = take offset (contents d ?n) @ take k buf @ drop (offset + k) (contents d ?n)"
    by (intro exI [of _ d'] exI [of _ nd'] exI [of _ ?k] conjI; (unfold nd')?; (fact nw | fact ok | fact w | fact c | fact nd' | rule refl))
qed

abbreviation rdfs :: "RamDisk fsTable" where "rdfs \<equiv> \<lambda>_. ramdisk_ops"

text \<open>C25: files by path: writing through the VFS to a path that leads to a file of the RAM disk, at an
  offset inside the file, succeeds; it stores the bytes asked for as far as the disk has room, the path still
  leads to the same node, and reading the path at that offset returns exactly those bytes.\<close>

theorem vfs_write_read:
  assumes "reaches s path p" "deref p s = Some nd" "vtype nd \<noteq> INVALID" "disk_inv (fstate s)" "disk_ok (fstate s) nd"
    "offset \<le> length (disk_content (fstate s) nd)" "sz \<le> length buf"
  shows "\<exists>s' k. vfs_write rdfs path offset sz buf s = Some s' \<and> k = min sz (disk_space (fstate s) nd - offset) \<and>
    disk_inv (fstate s') \<and> reaches s' path p \<and> vfs_read rdfs path offset k s' = Some (take k buf, s')"
  by (rule rd.write_then_read [OF assms])

text \<open>C26: creation by path: when a path does not resolve, its last component is not empty, and \<open>mkdir\<close> or
  \<open>mkfile\<close> returns a node, then opening the path returns that node, without further change; it has the last
  component as its name and the node its parent path leads to as its parent; and every path that resolved
  before still resolves to the same node.\<close>

theorem vfs_make_opens:
  assumes "vfs_make ty rdfs junk path s = Some (Some q, s')" "resolvePath rdfs path s = Some (None, s0)"
    "split_parent path = Some (pp, nm)" "nm \<noteq> []"
  shows "vfs_openNode rdfs path s' = Some (Some q, s') \<and>
    (\<exists>nd par. deref q s' = Some nd \<and> name nd = nm \<and> parent nd = Some par \<and> vfs_openNode rdfs pp s' = Some (Some par, s')) \<and>
    (\<forall>path' p. reaches s path' p \<longrightarrow> vfs_openNode rdfs path' s' = Some (Some p, s'))"
proof -
  note m = rd.make_opens [OF assms]
  then have "reaches s' path' p" if "reaches s path' p" for path' p using reaches_grows [OF that] by blast
  then show ?thesis using m unfolding vfs_openNode_def by (metis reaches_resolve)
qed

text \<open>C27: the tree of nodes stays well formed: from a tree whose root is present and whose child pointers all
  lead to present nodes that name their parent, no operation of the VFS makes a dangling or doubly listed child:
  neither creation, mounting, opening, reading nor writing, nor \<open>rmdir\<close>, nor \<open>rmfile\<close> of a node without
  children (it does not check for them), which deletes exactly that node.\<close>

theorem vfs_tree_invariant:
  assumes "tree_ok s"
  shows "(vfs_make ty rdfs junk path s = Some (r, s') \<longrightarrow> tree_ok s') \<and>
    (vfs_mnt rdfs path fs ino s = Some (r, s') \<longrightarrow> tree_ok s') \<and>
    (vfs_openNode rdfs path s = Some (r, s') \<longrightarrow> tree_ok s') \<and>
    (vfs_write rdfs path offset sz buf s = Some s' \<longrightarrow> tree_ok s') \<and>
    (vfs_rmdir rdfs path s = Some s' \<longrightarrow> tree_ok s') \<and>
    (reaches s path p \<and> deref p s = Some nd \<and> vtype nd = FILE \<and> children nd = [] \<and> vfs_rmfile rdfs path s = Some s' \<longrightarrow>
      tree_ok s' \<and> deref p s' = None \<and> (\<forall>q. q \<noteq> p \<and> deref q s \<noteq> None \<longrightarrow> deref q s' \<noteq> None))"
proof (intro conjI impI)
  show "vfs_make ty rdfs junk path s = Some (r, s') \<Longrightarrow> tree_ok s'" using rd.tree_make assms by blast
  show "vfs_mnt rdfs path fs ino s = Some (r, s') \<Longrightarrow> tree_ok s'" using rd.tree_mnt assms by blast
  show "vfs_openNode rdfs path s = Some (r, s') \<Longrightarrow> tree_ok s'"
    using rd.tree_resolve assms unfolding vfs_openNode_def by blast
  show "vfs_write rdfs path offset sz buf s = Some s' \<Longrightarrow> tree_ok s'" using rd.tree_write assms by blast
  show "vfs_rmdir rdfs path s = Some s' \<Longrightarrow> tree_ok s'"
  proof -
    assume a: "vfs_rmdir rdfs path s = Some s'"
    then obtain p s1 nd where b: "resolvePath rdfs path s = Some (Some p, s1)" "deref p s1 = Some nd"
      "s' = s1 \<or> children nd = [] \<and> vfs_unlink rdfs p nd s1 = Some s'"
      by (auto simp: vfs_rmdir_def split: bind_splits if_splits)
    have "tree_ok s1" using rd.tree_resolve [OF b(1) assms] .
    then show ?thesis using b(3) tree_unlink [OF _ _ b(2)] by blast
  qed
  assume r: "reaches s path p \<and> deref p s = Some nd \<and> vtype nd = FILE \<and> children nd = [] \<and> vfs_rmfile rdfs path s = Some s'"
  then have "vfs_unlink rdfs p nd s = Some s'"
    using reaches_resolve [of s path p rdfs] by (auto simp: vfs_rmfile_def)
  then show "tree_ok s'" "deref p s' = None" "\<forall>q. q \<noteq> p \<and> deref q s \<noteq> None \<longrightarrow> deref q s' \<noteq> None"
    using tree_unlink [of rdfs p nd s s'] assms r by blast+
qed

section \<open>Small file trees\<close>

definition demo_root :: "nat list \<Rightarrow> int \<Rightarrow> VNode" where
  "demo_root cs i = \<lparr>vtype = DIRECTORY, vfileSystem = Some 1, resource = \<lparr>rinode = i, rsize = 4, rdeviceID = 1\<rparr>,
     name = [], children = cs, parent = None\<rparr>"

definition demo_file :: VNode where
  "demo_file = \<lparr>vtype = FILE, vfileSystem = Some 1, resource = demo_res, name = ''f'', children = [], parent = Some 0\<rparr>"

definition demo_empty :: "RamDisk VFS" where
  "demo_empty = \<lparr>root = 0, heap = [Some (demo_root [] 0)], fstate = demo_dir\<rparr>"

definition demo_tree :: "RamDisk VFS" where
  "demo_tree = \<lparr>root = 0, heap = [Some (demo_root [1] 1), Some demo_file], fstate = demo_disk\<rparr>"

lemma demo_paths: "path_split CHR ''/'' ''/f'' = [[], ''f'']" "path_split CHR ''/'' ''/'' = [[]]"
  "split_parent ''/f'' = Some (''/'', ''f'')"
  by code_simp+

lemma demo_tree_facts: "reaches demo_tree ''/f'' 1" "deref 1 demo_tree = Some demo_file" "tree_ok demo_tree"
proof -
  have d: "deref p demo_tree = (if p = 0 then Some (demo_root [1] 1) else if p = 1 then Some demo_file else None)" for p
    by (auto simp: deref_def demo_tree_def nth_Cons')
  have r: "root demo_tree = 0" by (simp add: demo_tree_def)
  show "reaches demo_tree ''/f'' 1" unfolding reaches_def r by (simp add: d demo_paths demo_root_def demo_file_def)
  show "deref 1 demo_tree = Some demo_file" by (simp add: d)
  show "tree_ok demo_tree" unfolding tree_ok_def r by (auto simp: d demo_root_def demo_file_def split: if_splits)
qed

theorem vfs_write_read_witness:
  "\<exists>s'. vfs_write rdfs ''/f'' 2 3 [1, 2, 3] demo_tree = Some s' \<and> vfs_read rdfs ''/f'' 2 3 s' = Some ([1, 2, 3], s')"
proof -
  have "room demo_disk 0 = 1536" by (simp add: room_def demo_free) (simp add: demo_disk_def)
  moreover have f: "fstate demo_tree = demo_disk" "nat (rinode (resource demo_file)) = 0" "vtype demo_file = FILE"
    by (simp_all add: demo_tree_def demo_file_def demo_res_def)
  moreover have "disk_ok demo_disk demo_file"
    using demo_valid by (simp add: disk_ok_def f) (simp add: demo_file_def demo_res_def)
  ultimately show ?thesis
    using vfs_write_read [OF demo_tree_facts(1,2), of 2 3 "[1, 2, 3]"] demo_inv by (simp add: demo_contents) blast
qed

theorem vfs_tree_invariant_witness:
  "\<exists>s'. vfs_rmfile rdfs ''/f'' demo_tree = Some s' \<and> tree_ok s' \<and> deref 1 s' = None"
proof -
  have f: "fstate demo_tree = demo_disk" "rinode (resource demo_file) = 0" "vtype demo_file = FILE" "children demo_file = []"
    by (simp_all add: demo_tree_def demo_file_def demo_res_def)
  obtain d' where d': "disk_remove demo_file demo_disk = Some d'" "nodes d' ! 1 = nodes demo_disk ! 1"
      "length (nodes d') = length (nodes demo_disk)"
    using disk_remove_spec [OF demo_inv, of 0 demo_file] demo_valid f(2) by auto
  have n: "length (nodes demo_disk) = 2" "blocksInUse (nodes demo_disk ! 1) = 0" by (simp_all add: demo_disk_def blank_node_def)
  have "node_remove rdfs demo_file demo_disk = Some d'" "parent demo_file = Some 0"
    using d'(1) by (simp_all add: node_remove_def) (simp_all add: demo_file_def)
  moreover have "deref 0 demo_tree = Some (demo_root [1] 1)" by (simp add: deref_def demo_tree_def)
  moreover have "node_removeDirEntry rdfs e ((demo_root [1] 1)\<lparr>children := cs\<rparr>) d' = Some d'" for e cs
    using d'(2,3) n by (simp add: node_removeDirEntry_def disk_removeDirEntry_def getNode_def demo_root_def)
  ultimately have "\<exists>s'. vfs_rmfile rdfs ''/f'' demo_tree = Some s'"
    using reaches_resolve [OF demo_tree_facts(1)] demo_tree_facts(2) f
    by (simp add: vfs_rmfile_def vfs_unlink_def Let_def)
  then show ?thesis
    using vfs_tree_invariant [OF demo_tree_facts(3), of FILE "[]" "''/f''" None _ None 0 0 0 "[]" 1 demo_file]
      demo_tree_facts f(3,4) by blast
qed

theorem vfs_make_opens_witness:
  "\<exists>q s'. vfs_make FILE rdfs (replicate 16 0) ''/f'' demo_empty = Some (Some q, s') \<and>
     vfs_openNode rdfs ''/f'' s' = Some (Some q, s')"
proof -
  let ?v = "demo_root [] 0"
  have d: "deref p demo_empty = (if p = 0 then Some ?v else None)" "root demo_empty = 0" "fstate demo_empty = demo_dir" "length (heap demo_empty) = 1" for p
    by (auto simp: deref_def demo_empty_def nth_Cons')
  have v: "resource ?v = \<lparr>rinode = 0, rsize = 4, rdeviceID = 1\<rparr>" "vfileSystem ?v = Some 1" "children ?v = []" "name ?v = []"
    by (simp_all add: demo_root_def)
  have t: "ntype (nodes demo_dir ! 0) = DIRECTORY" "getFreeINode demo_dir = Some 1" "blocksInUse (nodes demo_dir ! 0) = 1"
    by (simp_all add: demo_dir_def getFreeINode_def blank_node_def numeral_eq_Suc)
  have "disk_readDir ?v demo_dir = Some []"
    using readDir_collect_spec(2) [OF demo_dir_inv(1,3), of ?v "[]"] t(1) demo_dir_inv(2) by (simp add: v names_ok_def)
  then have none: "resolvePath rdfs ''/f'' demo_empty = Some (None, demo_empty)"
    by (simp add: resolvePath_def demo_paths d v addChildren_def node_readDir_def)
  have par: "resolvePath rdfs ''/'' demo_empty = Some (Some 0, demo_empty)"
    by (simp add: resolvePath_def demo_paths d v)
  obtain d1 v1 where c: "disk_create FILE (blank_vnode (Some 1)) demo_dir = Some (d1, v1)" "disk_inv d1"
    "\<And>m. valid d1 m \<longleftrightarrow> m = 1 \<or> valid demo_dir m" "\<And>m. valid demo_dir m \<Longrightarrow> contents d1 m = contents demo_dir m"
    using disk_create_spec [OF demo_dir_inv(1) t(2), of FILE "blank_vnode (Some 1)"] demo_dir_free by auto
  let ?e = "fromStringName (replicate 16 0) ''f'' (rinode (resource v1))"
  have c0: "valid d1 0" "contents d1 0 = dir_bytes []" using c(3,4) demo_dir_inv by auto
  have "node_ok d1 0" "length (contents d1 0) = 4" using disk_inv_node [OF c(2) c0(1)] c0(2) by (simp_all add: dir_bytes_def)
  then have "512 \<le> room d1 0" using length_contents [OF c(2) c0(1)] by (simp add: node_ok_def room_def)
  then have len: "4 + 20 * (length ([] :: DirEntry list) + length [?e]) \<le> room d1 0" by simp
  have n: "names_ok []" "names_ok [?e]" by (simp_all add: names_ok_def fromStringName_def)
  have r: "rinode (resource (?v\<lparr>children := [1]\<rparr>)) = int 0" by (simp add: v(1))
  obtain d2 v2 where w: "disk_writeDir (?v\<lparr>children := [1]\<rparr>) [?e] d1 = Some (d2, v2)"
    by (rule disk_writeDir_spec [OF c(2) c0(1) r c0(2) n len])
  have "\<exists>s'. vfs_make FILE rdfs (replicate 16 0) ''/f'' demo_empty = Some (Some 1, s')"
    using c(1) w by (simp add: vfs_make_def demo_paths par d v node_create_def node_writeDir_def Let_def)
  then show ?thesis using vfs_make_opens [OF _ none demo_paths(3)] by blast
qed

end
