(* ===== verification/Frame_Buffer.thy ===== *)
theory Frame_Buffer
  imports Vfs_Tree
begin

text \<open>
  The frame buffer device (\<open>kernel/kernel/devices/framebuffer.cpp\<close>) as a file system of the VFS, drawing on it
  (\<open>kernel/kernel/gfx/fb.cpp\<close>, \<open>gfx/fb.hpp\<close>), and the table of the two file systems of the kernel.
  \<open>fbBytes\<close> is the memory at the address the boot loader gives; an access outside of it is \<^const>\<open>None\<close>. A line of the picture
  takes \<open>fbPitch\<close> bytes of it, of which the first \<open>4 * fbWidth\<close> are pixels.
\<close>

section \<open>The device\<close>

record FbDevice =
  fbBytes :: "u8 list"
  fbWidth :: u64
  fbHeight :: u64
  fbPitch :: u64
  fbSize :: u64
  fbDeviceID :: int

text \<open>The constructor; \<open>fbs\<close> are width, height, pitch and memory of the frame buffers of the boot loader's response.
  Without one the code prints a message and goes on to use it. The message at the end divides by the width.\<close>

definition new_FramebuferDevice :: "int \<Rightarrow> (u64 \<times> u64 \<times> u64 \<times> u8 list) list \<Rightarrow> FbDevice option" where
  "new_FramebuferDevice dev fbs = (case fbs of [] \<Rightarrow> None
     | (w, h, pitch, bytes) # _ \<Rightarrow> if w = 0 then None
         else Some \<lparr>fbBytes = bytes, fbWidth = w, fbHeight = h, fbPitch = pitch, fbSize = w * h * 4, fbDeviceID = dev\<rparr>)"

definition getIdx :: "int \<Rightarrow> FbDevice \<Rightarrow> int" where
  "getIdx pixel d = sint (ucast (word_of_int pixel * (fbPitch d div 4) + word_of_int pixel :: u64) :: u32)"

text \<open>\<open>len\<close> is computed in 64 bits, so it is \<open>sz\<close> for an offset behind the end. The loop variable has 32 bits: the loop
  runs past the memory when it wraps around before the end is reached.\<close>

definition fbLen :: "nat \<Rightarrow> nat \<Rightarrow> FbDevice \<Rightarrow> nat" where
  "fbLen offset sz d = min sz (unat (fbSize d - of_nat offset))"

definition fb_read :: "Resource \<Rightarrow> nat \<Rightarrow> nat \<Rightarrow> FbDevice \<Rightarrow> u8 list option" where
  "fb_read r offset sz d = (let len = fbLen offset sz d in
     if offset + len \<le> length (fbBytes d) \<and> offset + len < 2 ^ 32
     then Some (map (\<lambda>i. fbBytes d ! i) [offset..<offset + len]) else None)"

definition fb_write :: "Resource \<Rightarrow> nat \<Rightarrow> nat \<Rightarrow> u8 list \<Rightarrow> FbDevice \<Rightarrow> (FbDevice \<times> Resource \<times> nat) option" where
  "fb_write r offset sz buf d = (let len = fbLen offset sz d in
     if offset + len \<le> length (fbBytes d) \<and> offset + len < 2 ^ 32 \<and> len \<le> length buf
     then Some (d\<lparr>fbBytes := fold (\<lambda>i bs. bs[i := buf ! (i - offset)]) [offset..<offset + len] (fbBytes d)\<rparr>, r, len)
     else None)"

definition fb_populate :: "int \<Rightarrow> VNode \<Rightarrow> FbDevice \<Rightarrow> VNode option" where
  "fb_populate ino nd d = Some (nd\<lparr>vfileSystem := Some (fbDeviceID d), vtype := FILE,
     resource := \<lparr>rinode = ino, rsize = unat (fbSize d), rdeviceID = fbDeviceID d\<rparr>\<rparr>)"

definition fb_ops :: "FbDevice FileSystem" where
  "fb_ops = \<lparr>fs_create = (\<lambda>_ nd d. Some (d, nd)), fs_remove = (\<lambda>_ d. Some d), fs_read = fb_read, fs_write = fb_write,
     fs_readDir = (\<lambda>_ _. Some []), fs_writeDir = (\<lambda>nd _ d. Some (d, nd)), fs_removeDirEntry = (\<lambda>_ _ d. Some d),
     fs_populateVFSNode = fb_populate\<rparr>"

section \<open>The file systems of the kernel\<close>

text \<open>\<open>kernel_main\<close> mounts two objects: the RAM disk, device 1, and the frame buffer, device 2. A pointer to one
  is the number of its device.\<close>

record Devices =
  disk :: RamDisk
  fbdev :: FbDevice

definition lift_fs :: "('g \<Rightarrow> 'f) \<Rightarrow> (('f \<Rightarrow> 'f) \<Rightarrow> 'g \<Rightarrow> 'g) \<Rightarrow> 'f FileSystem \<Rightarrow> 'g FileSystem" where
  "lift_fs get upd fs =
    \<lparr>fs_create = (\<lambda>ty nd g. do { (f, nd) \<leftarrow> fs_create fs ty nd (get g); Some (upd (\<lambda>_. f) g, nd) }),
     fs_remove = (\<lambda>nd g. do { f \<leftarrow> fs_remove fs nd (get g); Some (upd (\<lambda>_. f) g) }),
     fs_read = (\<lambda>r offset sz g. fs_read fs r offset sz (get g)),
     fs_write = (\<lambda>r offset sz buf g. do { (f, r, k) \<leftarrow> fs_write fs r offset sz buf (get g); Some (upd (\<lambda>_. f) g, r, k) }),
     fs_readDir = (\<lambda>nd g. fs_readDir fs nd (get g)),
     fs_writeDir = (\<lambda>nd es g. do { (f, nd) \<leftarrow> fs_writeDir fs nd es (get g); Some (upd (\<lambda>_. f) g, nd) }),
     fs_removeDirEntry = (\<lambda>nd e g. do { f \<leftarrow> fs_removeDirEntry fs nd e (get g); Some (upd (\<lambda>_. f) g) }),
     fs_populateVFSNode = (\<lambda>ino nd g. fs_populateVFSNode fs ino nd (get g))\<rparr>"

definition devs :: "Devices fsTable" where
  "devs i = (if i = 2 then lift_fs fbdev fbdev_update fb_ops else lift_fs disk disk_update ramdisk_ops)"

section \<open>Drawing\<close>

record Color =
  red :: u8
  green :: u8
  blue :: u8
  alpha :: u8

record Vec2 =
  vx :: int
  vy :: int

record FrameBuffer =
  gwidth :: int
  gheight :: int
  fbFile :: "nat option"

abbreviation (input) grid :: int where "grid \<equiv> 64"

definition color_bytes :: "Color \<Rightarrow> u8 list" where
  "color_bytes c = [red c, green c, blue c, alpha c]"

definition new_FrameBuffer :: "'f fsTable \<Rightarrow> int \<Rightarrow> int \<Rightarrow> 'f VFS \<Rightarrow> (FrameBuffer \<times> 'f VFS) option" where
  "new_FrameBuffer fss w h s = do {
     (n, s) \<leftarrow> vfs_openNode fss ''/dev/fb'' s;
     Some (\<lparr>gwidth = w, gheight = h, fbFile = n\<rparr>, s) }"

definition getOffset :: "FrameBuffer \<Rightarrow> Vec2 \<Rightarrow> u32" where
  "getOffset g pos = word_of_int ((vy pos * gwidth g + vx pos) * 4)"

text \<open>\<open>fbFile->write\<close>\<close>

definition file_write :: "'f fsTable \<Rightarrow> nat option \<Rightarrow> nat \<Rightarrow> nat \<Rightarrow> u8 list \<Rightarrow> 'f VFS \<Rightarrow> (nat \<times> 'f VFS) option" where
  "file_write fss fl offset sz buf s = do {
     p \<leftarrow> fl;
     nd \<leftarrow> deref p s;
     (f, nd, k) \<leftarrow> node_write fss offset sz buf nd (fstate s);
     Some (k, set_node p nd (s\<lparr>fstate := f\<rparr>)) }"

definition putPixel :: "'f fsTable \<Rightarrow> FrameBuffer \<Rightarrow> Vec2 \<Rightarrow> Color \<Rightarrow> 'f VFS \<Rightarrow> 'f VFS option" where
  "putPixel fss g pos col s = do { (_, s) \<leftarrow> file_write fss (fbFile g) (unat (getOffset g pos)) 4 (color_bytes col) s; Some s }"

text \<open>A row of \<open>n\<close> pixels written at \<open>pos\<close>; a negative number of elements cannot be allocated.\<close>

definition putRow :: "'f fsTable \<Rightarrow> FrameBuffer \<Rightarrow> Vec2 \<Rightarrow> int \<Rightarrow> Color \<Rightarrow> 'f VFS \<Rightarrow> 'f VFS option" where
  "putRow fss g pos n col s = (if n < 0 then None else do {
     (_, s) \<leftarrow> file_write fss (fbFile g) (unat (getOffset g pos)) (nat n * 4) (concat (replicate (nat n) (color_bytes col))) s;
     Some s })"

fun putRows :: "'f fsTable \<Rightarrow> FrameBuffer \<Rightarrow> int \<Rightarrow> int \<Rightarrow> Color \<Rightarrow> int list \<Rightarrow> 'f VFS \<Rightarrow> 'f VFS option" where
  "putRows fss g x n col [] s = Some s"
| "putRows fss g x n col (y # ys) s = do { s \<leftarrow> putRow fss g \<lparr>vx = x, vy = y\<rparr> n col s; putRows fss g x n col ys s }"

definition clscr :: "'f fsTable \<Rightarrow> FrameBuffer \<Rightarrow> Color \<Rightarrow> 'f VFS \<Rightarrow> 'f VFS option" where
  "clscr fss g col s =
     putRows fss g 0 (gwidth g * grid) col (map (\<lambda>k. int k * grid) [0..<nat ((gheight g + grid - 1) div grid)]) s"

definition fillRect :: "'f fsTable \<Rightarrow> FrameBuffer \<Rightarrow> Vec2 \<Rightarrow> Vec2 \<Rightarrow> Color \<Rightarrow> 'f VFS \<Rightarrow> 'f VFS option" where
  "fillRect fss g pos dim col s =
    (let y1 = vy pos; y2 = min (vy pos + vy dim - 1) (gheight g - 1);
         x1 = vx pos; x2 = min (vx pos + vx dim - 1) (gwidth g - 1)
     in putRows fss g x1 (x2 - x1 + 1) col [y1..y2] s)"

section \<open>Rows of pixels\<close>

lemma devs_simps:
  "fs_write (devs 2) r off sz buf g = do { (d, r, k) \<leftarrow> fb_write r off sz buf (fbdev g); Some (g\<lparr>fbdev := d\<rparr>, r, k) }"
  "fs_read (devs 2) r off sz g = fb_read r off sz (fbdev g)"
  "i \<noteq> 2 \<Longrightarrow> fs_write (devs i) r off sz buf g = do { (d, r, k) \<leftarrow> disk_write r off sz buf (disk g); Some (g\<lparr>disk := d\<rparr>, r, k) }"
  "i \<noteq> 2 \<Longrightarrow> fs_read (devs i) r off sz g = disk_read r off sz (disk g)"
  by (simp_all add: devs_def lift_fs_def fb_ops_def)

text \<open>The pixel the screen shows at column \<open>x\<close> of line \<open>y\<close>, and the four bytes the drawing operations take for it: they leave the pitch out.\<close>

definition pixel :: "FbDevice \<Rightarrow> int \<Rightarrow> int \<Rightarrow> u8 list" where
  "pixel d x y = take 4 (drop (nat (y * uint (fbPitch d) + 4 * x)) (fbBytes d))"

definition cell :: "FbDevice \<Rightarrow> int \<Rightarrow> int \<Rightarrow> u8 list" where
  "cell d x y = take 4 (drop (nat ((y * uint (fbWidth d) + x) * 4)) (fbBytes d))"

definition unpadded :: "FbDevice \<Rightarrow> bool" where
  "unpadded d \<longleftrightarrow> uint (fbPitch d) = 4 * uint (fbWidth d)"

lemma unpadded_pixel: "unpadded d \<Longrightarrow> cell d x y = pixel d x y"
  by (simp add: unpadded_def cell_def pixel_def algebra_simps)

text \<open>A device whose size is that of its picture, below the range of a 32-bit signed number.\<close>

definition fb_ok :: "FbDevice \<Rightarrow> bool" where
  "fb_ok d \<longleftrightarrow> uint (fbSize d) = uint (fbWidth d) * uint (fbHeight d) * 4 \<and> uint (fbSize d) < 2 ^ 31 \<and>
     uint (fbSize d) \<le> int (length (fbBytes d))"

lemma fold_write_patch:
  assumes "off + n \<le> length bs" "n \<le> length buf"
  shows "fold (\<lambda>i bs. bs[i := buf ! (i - off)]) [off..<off + n] bs = patch off (take n buf) bs"
  using assms
proof (induction n)
  case (Suc n)
  have l: "length (take n buf) = n" using Suc.prems(2) by simp
  have "fold (\<lambda>i bs. bs[i := buf ! (i - off)]) [off..<off + Suc n] bs = (patch off (take n buf) bs)[off + n := buf ! n]"
    using Suc by simp
  also have "\<dots> = patch (off + n) [buf ! n] (patch off (take n buf) bs)"
  proof (rule patch_update)
    have "length (patch off (take n buf) bs) = length bs" by (rule length_patch) (use Suc.prems(1) l in linarith)
    then show "off + n < length (patch off (take n buf) bs)" using Suc.prems(1) by linarith
  qed
  also have "\<dots> = patch off (take n buf @ [buf ! n]) bs"
    by (rule patch_patch [of off "take n buf" "[buf ! n]" bs, unfolded l]) (use Suc.prems(1) in simp)
  also have "take n buf @ [buf ! n] = take (Suc n) buf" using Suc.prems(2) by (simp add: take_Suc_conv_app_nth)
  finally show ?case .
qed simp

lemma fb_write_spec:
  assumes "fb_ok d" "int off \<le> uint (fbSize d)" "sz \<le> length buf"
  shows "fb_write r off sz buf d =
    (let n = min sz (unat (fbSize d) - off) in Some (d\<lparr>fbBytes := patch off (take n buf) (fbBytes d)\<rparr>, r, n))"
proof -
  have u: "int off \<le> uint (fbSize d)" "uint (fbSize d) < 2 ^ 31" "uint (fbSize d) \<le> int (length (fbBytes d))"
    using assms(1,2) unfolding fb_ok_def by blast+
  have n: "int (unat (fbSize d)) = uint (fbSize d)" by simp
  have b: "uint (fbSize d) < 2147483648" using u(2) by simp
  have o: "off \<le> unat (fbSize d)" "unat (fbSize d) < 2147483648" "unat (fbSize d) \<le> length (fbBytes d)"
    using u(1) n by linarith (use b n in linarith, use u(3) n in linarith)
  have "unat (of_nat off :: u64) = off" using o by (simp add: unat_of_nat)
  then have "unat (fbSize d - of_nat off) = unat (fbSize d) - off"
    using o(1) by (subst unat_sub) (simp_all add: word_le_nat_alt)
  then have l: "fbLen off sz d = min sz (unat (fbSize d) - off)" by (simp add: fbLen_def)
  show ?thesis unfolding fb_write_def l Let_def
    using o assms(3) fold_write_patch [of off "min sz (unat (fbSize d) - off)" "fbBytes d" buf] by (auto simp: min_def)
qed

lemma cells_patch:
  assumes "length c = 4" "4 * (k + m) \<le> length bs"
  shows "take 4 (drop (4 * j) (patch (4 * k) (concat (replicate m c)) bs)) =
    (if k \<le> j \<and> j < k + m then c else take 4 (drop (4 * j) bs))"
proof -
  have l: "length (concat (replicate q c)) = 4 * q" for q using assms(1) by (induction q) simp_all
  consider "j < k" | "k \<le> j" "j < k + m" | "k + m \<le> j" by linarith
  then show ?thesis
  proof cases
    case 1
    then have "4 * j + 4 \<le> 4 * k" by simp
    then show ?thesis using 1 assms(2) l by (simp add: patch_def drop_take take_take)
  next
    case 2
    define q where "q = j - k"
    have q: "j = k + q" "m = q + Suc (m - Suc q)" using 2 by (simp_all add: q_def)
    have "concat (replicate m c) = concat (replicate q c) @ c @ concat (replicate (m - Suc q) c)"
      by (subst q(2)) (simp only: replicate_add replicate_Suc concat_append concat.simps)
    then have "drop (4 * j) (patch (4 * k) (concat (replicate m c)) bs) =
        c @ concat (replicate (m - Suc q) c) @ drop (4 * k + 4 * m) bs"
      using assms(2) l [of m] l [of q] q(1) by (simp add: patch_def)
    then show ?thesis using 2 assms(1) by simp
  next
    case 3
    then have "4 * k + 4 * m + (4 * j - (4 * k + 4 * m)) = 4 * j" by simp
    then show ?thesis using 3 assms(2) l [of m] by (simp add: patch_def)
  qed
qed

text \<open>A frame buffer object on a device node: \<open>p\<close> is the node the path leads to.\<close>

abbreviation dev :: "Devices VFS \<Rightarrow> FbDevice" where "dev s \<equiv> fbdev (fstate s)"

definition screen :: "FrameBuffer \<Rightarrow> nat \<Rightarrow> Devices VFS \<Rightarrow> bool" where
  "screen g p s \<longleftrightarrow> fbFile g = Some p \<and> fb_ok (dev s) \<and> gwidth g = uint (fbWidth (dev s)) \<and>
     gheight g = uint (fbHeight (dev s)) \<and> (\<exists>nd. deref p s = Some nd \<and> vfileSystem nd = Some 2)"

definition on_screen :: "FrameBuffer \<Rightarrow> int \<Rightarrow> int \<Rightarrow> bool" where
  "on_screen g x y \<longleftrightarrow> 0 \<le> x \<and> x < gwidth g \<and> 0 \<le> y \<and> y < gheight g"

text \<open>Nothing but the first \<open>fbSize\<close> bytes of the memory of the frame buffer differs in \<open>s\<close> and \<open>s'\<close>.\<close>

definition same_but_picture :: "Devices VFS \<Rightarrow> Devices VFS \<Rightarrow> bool" where
  "same_but_picture s s' \<longleftrightarrow> heap s' = heap s \<and> root s' = root s \<and> disk (fstate s') = disk (fstate s) \<and>
     (\<exists>bytes. dev s' = (dev s)\<lparr>fbBytes := bytes\<rparr> \<and> length bytes = length (fbBytes (dev s)) \<and>
        drop (unat (fbSize (dev s))) bytes = drop (unat (fbSize (dev s))) (fbBytes (dev s)))"

text \<open>The picture of \<open>s'\<close> is that of \<open>s\<close> with the pixels in \<open>A\<close> in colour \<open>col\<close>, and nothing but the picture changes: first in the cells of
  the drawing operations, then on the screen.\<close>

definition painted_cells :: "FrameBuffer \<Rightarrow> nat \<Rightarrow> (int \<Rightarrow> int \<Rightarrow> bool) \<Rightarrow> Color \<Rightarrow> Devices VFS \<Rightarrow> Devices VFS \<Rightarrow> bool" where
  "painted_cells g p A col s s' \<longleftrightarrow> screen g p s' \<and> same_but_picture s s' \<and>
     (\<forall>x y. on_screen g x y \<longrightarrow> cell (dev s') x y = (if A x y then color_bytes col else cell (dev s) x y))"

definition painted :: "FrameBuffer \<Rightarrow> nat \<Rightarrow> (int \<Rightarrow> int \<Rightarrow> bool) \<Rightarrow> Color \<Rightarrow> Devices VFS \<Rightarrow> Devices VFS \<Rightarrow> bool" where
  "painted g p A col s s' \<longleftrightarrow> screen g p s' \<and> same_but_picture s s' \<and>
     (\<forall>x y. on_screen g x y \<longrightarrow> pixel (dev s') x y = (if A x y then color_bytes col else pixel (dev s) x y))"

lemma same_but_picture_refl: "same_but_picture s s"
  unfolding same_but_picture_def by (intro conjI exI [of _ "fbBytes (dev s)"]) simp_all

lemma same_but_picture_trans: "same_but_picture s s1 \<Longrightarrow> same_but_picture s1 s2 \<Longrightarrow> same_but_picture s s2"
proof -
  assume a: "same_but_picture s s1" and b: "same_but_picture s1 s2"
  obtain b1 where b1: "dev s1 = (dev s)\<lparr>fbBytes := b1\<rparr>" "length b1 = length (fbBytes (dev s))"
      "drop (unat (fbSize (dev s))) b1 = drop (unat (fbSize (dev s))) (fbBytes (dev s))"
    using a unfolding same_but_picture_def by blast
  obtain b2 where b2: "dev s2 = (dev s1)\<lparr>fbBytes := b2\<rparr>" "length b2 = length (fbBytes (dev s1))"
      "drop (unat (fbSize (dev s1))) b2 = drop (unat (fbSize (dev s1))) (fbBytes (dev s1))"
    using b unfolding same_but_picture_def by blast
  have "dev s2 = (dev s)\<lparr>fbBytes := b2\<rparr> \<and> length b2 = length (fbBytes (dev s)) \<and>
      drop (unat (fbSize (dev s))) b2 = drop (unat (fbSize (dev s))) (fbBytes (dev s))"
    using b2 b1(2,3) unfolding b1(1) by simp
  then have "\<exists>bytes. dev s2 = (dev s)\<lparr>fbBytes := bytes\<rparr> \<and> length bytes = length (fbBytes (dev s)) \<and>
      drop (unat (fbSize (dev s))) bytes = drop (unat (fbSize (dev s))) (fbBytes (dev s))" by blast
  moreover have "heap s2 = heap s" "root s2 = root s" "disk (fstate s2) = disk (fstate s)"
    using a b by (simp_all add: same_but_picture_def)
  ultimately show ?thesis unfolding same_but_picture_def by blast
qed

lemma painted_cells_painted:
  assumes "painted_cells g p A col s s'" "unpadded (dev s)"
  shows "painted g p A col s s'"
proof -
  have "unpadded (dev s')" using assms by (auto simp: painted_cells_def same_but_picture_def unpadded_def)
  then show ?thesis using assms unfolding painted_cells_def painted_def by (simp add: unpadded_pixel)
qed

text \<open>A pixel behind the first \<open>fbSize\<close> bytes: the last one of the screen, when lines are padded.\<close>

lemma last_pixel_kept:
  assumes "screen g p s" "same_but_picture s s'" "4 * gwidth g + 4 \<le> uint (fbPitch (dev s))" "0 < gwidth g" "2 \<le> gheight g"
  shows "pixel (dev s') (gwidth g - 1) (gheight g - 1) = pixel (dev s) (gwidth g - 1) (gheight g - 1)"
proof -
  let ?j = "(gheight g - 1) * uint (fbPitch (dev s)) + 4 * (gwidth g - 1)" and ?n = "unat (fbSize (dev s))"
  obtain bytes where b: "dev s' = (dev s)\<lparr>fbBytes := bytes\<rparr>" "drop ?n bytes = drop ?n (fbBytes (dev s))"
    using assms(2) by (auto simp: same_but_picture_def)
  have "(gheight g - 1) * (4 * gwidth g + 4) \<le> (gheight g - 1) * uint (fbPitch (dev s))"
    using assms(3,5) by (intro mult_left_mono) auto
  moreover have "uint (fbSize (dev s)) = gwidth g * gheight g * 4" using assms(1) by (auto simp: screen_def fb_ok_def)
  ultimately have "uint (fbSize (dev s)) \<le> ?j" using assms(5) by (simp add: algebra_simps)
  then have "?n \<le> nat ?j" unfolding unat_eq_nat_uint by (rule nat_mono)
  then have j: "nat ?j - ?n + ?n = nat ?j" by (rule le_add_diff_inverse2)
  have "drop (nat ?j) bytes = drop (nat ?j) (fbBytes (dev s))"
    using arg_cong [OF b(2), of "drop (nat ?j - ?n)"] unfolding drop_drop j .
  then show ?thesis by (simp add: pixel_def b(1))
qed

lemma screen_bounds:
  assumes "screen g p s" "0 \<le> x" "0 \<le> y" "y * gwidth g + x \<le> gwidth g * gheight g"
  defines "k \<equiv> nat (y * gwidth g + x)"
  shows "unat (getOffset g \<lparr>vx = x, vy = y\<rparr>) = 4 * k" "4 * k \<le> unat (fbSize (dev s))"
    "unat (fbSize (dev s)) = 4 * nat (gwidth g * gheight g)" "4 * nat (gwidth g * gheight g) \<le> length (fbBytes (dev s))"
proof -
  have ok: "uint (fbSize (dev s)) = gwidth g * gheight g * 4" "uint (fbSize (dev s)) < 2 ^ 31"
    "uint (fbSize (dev s)) \<le> int (length (fbBytes (dev s)))"
    using assms(1) unfolding screen_def fb_ok_def by auto
  have nn: "0 \<le> gwidth g" using assms(1) by (auto simp: screen_def)
  have k: "int k = y * gwidth g + x" using assms(2,3) nn by (simp add: k_def)
  have z: "int (unat (fbSize (dev s))) = uint (fbSize (dev s))" by simp
  have g: "0 \<le> gwidth g * gheight g" using assms(2-4) nn by (meson add_nonneg_nonneg mult_nonneg_nonneg order_trans)
  then have gi: "int (nat (gwidth g * gheight g)) = gwidth g * gheight g" by simp
  show sz: "unat (fbSize (dev s)) = 4 * nat (gwidth g * gheight g)" using z gi ok(1) by linarith
  show "4 * nat (gwidth g * gheight g) \<le> length (fbBytes (dev s))" using ok(1,3) gi by linarith
  show "4 * k \<le> unat (fbSize (dev s))" using sz k gi assms(4) by linarith
  have "uint (fbSize (dev s)) < 2147483648" using ok(2) by simp
  then have "4 * k < 2147483648" using \<open>4 * k \<le> unat (fbSize (dev s))\<close> z by linarith
  then have "unat (of_nat (4 * k) :: u32) = 4 * k" by (simp only: unat_of_nat) simp
  moreover have "getOffset g \<lparr>vx = x, vy = y\<rparr> = of_nat (4 * k)"
  proof -
    have "int (4 * k) = (y * gwidth g + x) * 4" using k by simp
    then have "getOffset g \<lparr>vx = x, vy = y\<rparr> = word_of_int (int (4 * k))" by (simp add: getOffset_def)
    then show ?thesis by (simp only: of_int_of_nat_eq)
  qed
  ultimately show "unat (getOffset g \<lparr>vx = x, vy = y\<rparr>) = 4 * k" by simp
qed

lemma take_cells: "length c = 4 \<Longrightarrow> m \<le> n \<Longrightarrow> take (4 * m) (concat (replicate n c)) = concat (replicate m c)"
proof -
  assume c: "length c = 4" and "m \<le> n"
  then have "replicate n c = replicate m c @ replicate (n - m) c" by (simp flip: replicate_add)
  moreover have "length (concat (replicate m c)) = 4 * m" using c by (induction m) simp_all
  ultimately show ?thesis by simp
qed


lemma putRow_spec:
  assumes sc: "screen g p s" and xy: "0 \<le> x" "0 \<le> y" "y * gwidth g + x \<le> gwidth g * gheight g"
    and n: "0 \<le> n" "n < 2 ^ 29"
  obtains s' where "putRow devs g \<lparr>vx = x, vy = y\<rparr> n col s = Some s'"
    "painted_cells g p (\<lambda>px py. y * gwidth g + x \<le> py * gwidth g + px \<and> py * gwidth g + px < y * gwidth g + x + n) col s s'"
proof -
  let ?d = "dev s" and ?c = "color_bytes col" and ?w = "gwidth g"
  define k where "k = nat (y * ?w + x)"
  define m where "m = min (nat n) (nat (?w * gheight g) - k)"
  note b = screen_bounds [OF sc xy, folded k_def]
  obtain nd where nd: "deref p s = Some nd" "vfileSystem nd = Some 2" "fbFile g = Some p" "fb_ok ?d" "?w = uint (fbWidth ?d)"
    using sc by (auto simp: screen_def)
  have c: "length ?c = 4" by (simp add: color_bytes_def)
  then have l: "length (concat (replicate (nat n) ?c)) = nat n * 4" by (simp add: length_concat sum_list_replicate)
  have off: "int (4 * k) \<le> uint (fbSize ?d)" using b(2) uint_nat [of "fbSize ?d"] by linarith
  note w = fb_write_spec [OF nd(4) off eq_refl [OF l [symmetric]], of "resource nd"]
  have mm: "min (nat n * 4) (unat (fbSize ?d) - 4 * k) = 4 * m" unfolding b(3) m_def
    by (metis diff_mult_distrib2 mult.commute nat_mult_min_right)
  have tk: "take (4 * m) (concat (replicate (nat n) ?c)) = concat (replicate m ?c)" by (rule take_cells [OF c]) (simp add: m_def)
  define d' where "d' = ?d\<lparr>fbBytes := patch (4 * k) (concat (replicate m ?c)) (fbBytes ?d)\<rparr>"
  define s' where "s' = s\<lparr>fstate := (fstate s)\<lparr>fbdev := d'\<rparr>\<rparr>"
  have fw: "fb_write (resource nd) (4 * k) (nat n * 4) (concat (replicate (nat n) ?c)) ?d = Some (d', resource nd, 4 * m)"
    using w unfolding mm tk Let_def d'_def .
  have "(heap s)[p := Some nd] = heap s" using deref_len [OF nd(1)] nd(1) by (simp add: deref_def list_update_same_conv)
  then have put: "putRow devs g \<lparr>vx = x, vy = y\<rparr> n col s = Some s'"
    using n(1) nd fw b(1) by (simp add: putRow_def file_write_def node_write_def s'_def devs_simps set_node_def)
  have km: "4 * (k + m) \<le> length (fbBytes ?d)" using b(2-4) unfolding m_def by (simp add: min_def) linarith
  then have len: "length (fbBytes d') = length (fbBytes ?d)"
    using c by (simp add: d'_def length_concat sum_list_replicate algebra_simps)
  have fs: "dev s' = d'" "deref p s' = Some nd" using nd(1) by (simp_all add: s'_def deref_def split: if_splits)
  have fields: "fbWidth d' = fbWidth ?d" "fbHeight d' = fbHeight ?d" "fbSize d' = fbSize ?d" by (simp_all add: d'_def)
  have "screen g p s'" using sc nd(2) fs fields len by (auto simp: screen_def fb_ok_def)
  moreover have "same_but_picture s s'"
  proof -
    have "4 * k + length (concat (replicate m ?c)) \<le> unat (fbSize ?d)"
      using b(2,3) c unfolding m_def by (simp add: length_concat sum_list_replicate min_def) linarith
    then have "drop (unat (fbSize ?d)) (fbBytes d') = drop (unat (fbSize ?d)) (fbBytes ?d)"
      using km c by (simp add: d'_def patch_def length_concat sum_list_replicate min_def)
    then show ?thesis using len unfolding same_but_picture_def fs(1) by (intro conjI exI [of _ "fbBytes d'"]) (simp_all add: s'_def d'_def)
  qed
  moreover have "cell (dev s') px py = (if y * ?w + x \<le> py * ?w + px \<and> py * ?w + px < y * ?w + x + n then ?c else cell ?d px py)"
    if o: "on_screen g px py" for px py
  proof -
    define j where "j = nat (py * ?w + px)"
    have nn: "0 \<le> y * ?w + x" "0 \<le> py * ?w + px" using xy o by (simp_all add: on_screen_def)
    have "(py + 1) * ?w \<le> gheight g * ?w" using o by (intro mult_right_mono) (auto simp: on_screen_def)
    then have jl: "py * ?w + px < ?w * gheight g" using o by (simp add: on_screen_def algebra_simps)
    have eq: "y * ?w + x \<le> py * ?w + px \<and> py * ?w + px < y * ?w + x + n \<longleftrightarrow> k \<le> j \<and> j < k + m"
      using nn jl n(1) unfolding k_def j_def m_def by (auto simp: nat_le_eq_zle min_def zless_nat_eq_int_zless nat_less_iff)
    have "nat ((py * uint (fbWidth ?d) + px) * 4) = 4 * j" using nn(2) nd(5) by (simp add: j_def nat_mult_distrib)
    then show ?thesis unfolding fs(1) cell_def fields eq
      using cells_patch [OF c km, of j] by (simp add: d'_def)
  qed
  ultimately have "painted_cells g p (\<lambda>px py. y * ?w + x \<le> py * ?w + px \<and> py * ?w + px < y * ?w + x + n) col s s'"
    by (simp add: painted_cells_def)
  then show thesis using that [OF put] by blast
qed

section \<open>Rectangles\<close>

lemma row_index:
  fixes w :: int
  assumes "0 \<le> x" "x + n \<le> w" "0 \<le> px" "px < w"
  shows "y * w + x \<le> py * w + px \<and> py * w + px < y * w + x + n \<longleftrightarrow> py = y \<and> x \<le> px \<and> px < x + n"
proof -
  consider "py + 1 \<le> y" | "py = y" | "y + 1 \<le> py" by linarith
  then show ?thesis
  proof cases
    case 1
    then have "(py + 1) * w \<le> y * w" using assms by (intro mult_right_mono) auto
    then show ?thesis using 1 assms by (auto simp: algebra_simps)
  next
    case 3
    then have "(y + 1) * w \<le> py * w" using assms by (intro mult_right_mono) auto
    then show ?thesis using 3 assms by (auto simp: algebra_simps)
  qed auto
qed

lemma painted_trans:
  assumes "painted_cells g p A col s s1" "painted_cells g p B col s1 s2"
  shows "painted_cells g p (\<lambda>x y. A x y \<or> B x y) col s s2"
  using assms same_but_picture_trans [of s s1 s2] unfolding painted_cells_def by auto

lemma painted_cong: "painted_cells g p A col s s' \<Longrightarrow> (\<And>x y. on_screen g x y \<Longrightarrow> A x y = B x y) \<Longrightarrow> painted_cells g p B col s s'"
  unfolding painted_cells_def by auto

lemma painted_refl: "screen g p s \<Longrightarrow> painted_cells g p (\<lambda>x y. False) col s s"
  by (simp add: painted_cells_def same_but_picture_refl)

lemma painted_screen: "painted_cells g p A col s s' \<Longrightarrow> screen g p s'"
  by (simp add: painted_cells_def)

lemma putRows_spec:
  assumes "screen g p s" "0 \<le> x" "0 \<le> n" "n < 2 ^ 29"
    and "\<And>y. y \<in> set ys \<Longrightarrow> 0 \<le> y \<and> y * gwidth g + x \<le> gwidth g * gheight g"
  shows "\<exists>s'. putRows devs g x n col ys s = Some s' \<and>
    painted_cells g p (\<lambda>px py. \<exists>y\<in>set ys. y * gwidth g + x \<le> py * gwidth g + px \<and> py * gwidth g + px < y * gwidth g + x + n) col s s'"
  using assms(1,5)
proof (induction ys arbitrary: s)
  case Nil
  then show ?case by (simp add: painted_refl)
next
  case (Cons y ys)
  have y: "0 \<le> y" "y * gwidth g + x \<le> gwidth g * gheight g" using Cons.prems(2) by auto
  obtain s1 where s1: "putRow devs g \<lparr>vx = x, vy = y\<rparr> n col s = Some s1"
    "painted_cells g p (\<lambda>px py. y * gwidth g + x \<le> py * gwidth g + px \<and> py * gwidth g + px < y * gwidth g + x + n) col s s1"
    by (rule putRow_spec [OF Cons.prems(1) assms(2) y assms(3,4), of col]) blast
  have prems: "0 \<le> y \<and> y * gwidth g + x \<le> gwidth g * gheight g" if "y \<in> set ys" for y using Cons.prems(2) that by simp
  obtain s2 where s2: "putRows devs g x n col ys s1 = Some s2"
    "painted_cells g p (\<lambda>px py. \<exists>y\<in>set ys. y * gwidth g + x \<le> py * gwidth g + px \<and> py * gwidth g + px < y * gwidth g + x + n) col s1 s2"
    using Cons.IH [OF painted_screen [OF s1(2)] prems] by blast
  show ?case using s1(1) s2(1) painted_trans [OF s1(2) s2(2)] by (intro exI [of _ s2]) simp
qed

lemma screen_sizes:
  assumes "screen g p s" "0 < gwidth g" "0 < gheight g"
  shows "gwidth g < 2 ^ 29" "0 \<le> y \<Longrightarrow> y < gheight g \<Longrightarrow> x < gwidth g \<Longrightarrow> y * gwidth g + x \<le> gwidth g * gheight g"
proof -
  have "gwidth g * gheight g * 4 < 2 ^ 31" using assms(1) unfolding screen_def fb_ok_def by auto
  moreover have "gwidth g * 1 \<le> gwidth g * gheight g" using assms(2,3) by (intro mult_left_mono) auto
  ultimately show "gwidth g < 2 ^ 29" by (simp add: mult.commute)
  assume "0 \<le> y" "y < gheight g" "x < gwidth g"
  then have "(y + 1) * gwidth g \<le> gheight g * gwidth g" using assms(2) by (intro mult_right_mono) auto
  then show "y * gwidth g + x \<le> gwidth g * gheight g" using \<open>x < gwidth g\<close> by (simp add: algebra_simps)
qed

definition in_rect :: "Vec2 \<Rightarrow> Vec2 \<Rightarrow> int \<Rightarrow> int \<Rightarrow> bool" where
  "in_rect pos dim x y \<longleftrightarrow> vx pos \<le> x \<and> x < vx pos + vx dim \<and> vy pos \<le> y \<and> y < vy pos + vy dim"

lemma fillRect_spec:
  assumes "screen g p s" "on_screen g (vx pos) (vy pos)" "0 \<le> vx dim"
  shows "\<exists>s'. fillRect devs g pos dim col s = Some s' \<and> painted_cells g p (in_rect pos dim) col s s'"
proof -
  let ?x1 = "vx pos" and ?y1 = "vy pos" and ?y2 = "min (vy pos + vy dim - 1) (gheight g - 1)"
  let ?n = "min (vx pos + vx dim - 1) (gwidth g - 1) - vx pos + 1"
  have pos: "0 \<le> ?x1" "?x1 < gwidth g" "0 \<le> ?y1" "?y1 < gheight g" using assms(2) by (auto simp: on_screen_def)
  then have wh: "0 < gwidth g" "0 < gheight g" by linarith+
  note z = screen_sizes [OF assms(1) wh]
  have n: "0 \<le> ?n" "?n < 2 ^ 29" "?x1 + ?n \<le> gwidth g" using pos assms(3) z(1) by linarith+
  have "0 \<le> y \<and> y * gwidth g + ?x1 \<le> gwidth g * gheight g" if "y \<in> set [?y1..?y2]" for y
    using that pos z(2) [of y ?x1] by auto
  from putRows_spec [where ys = "[?y1..?y2]" and col = col, OF assms(1) pos(1) n(1,2) this]
  obtain s' where s': "putRows devs g ?x1 ?n col [?y1..?y2] s = Some s'"
    "painted_cells g p (\<lambda>px py. \<exists>y\<in>set [?y1..?y2]. y * gwidth g + ?x1 \<le> py * gwidth g + px \<and>
      py * gwidth g + px < y * gwidth g + ?x1 + ?n) col s s'" by blast
  have "(\<exists>y\<in>set [?y1..?y2]. y * gwidth g + ?x1 \<le> py * gwidth g + px \<and> py * gwidth g + px < y * gwidth g + ?x1 + ?n) \<longleftrightarrow>
      in_rect pos dim px py" if "on_screen g px py" for px py
  proof -
    have o: "0 \<le> px" "px < gwidth g" "py < gheight g" using that by (auto simp: on_screen_def)
    show ?thesis unfolding row_index [OF pos(1) n(3) o(1,2)] in_rect_def using o by auto
  qed
  from painted_cong [OF s'(2) this] s'(1) show ?thesis by (simp add: fillRect_def Let_def)
qed

lemma clscr_spec:
  assumes "screen g p s" "0 < gwidth g" "gwidth g < 2 ^ 23"
  shows "\<exists>s'. clscr devs g col s = Some s' \<and> painted_cells g p (\<lambda>x y. True) col s s'"
proof -
  define ys where "ys = map (\<lambda>k. int k * grid) [0..<nat ((gheight g + grid - 1) div grid)]"
  have gh: "0 \<le> gheight g" using assms(1) by (auto simp: screen_def)
  have ys: "0 \<le> y \<and> y < gheight g" if "y \<in> set ys" for y
    using that gh by (auto simp: ys_def)
  have n: "0 \<le> gwidth g * grid" "gwidth g * grid < 2 ^ 29" using assms(2,3) by simp_all
  have "0 \<le> y \<and> y * gwidth g + 0 \<le> gwidth g * gheight g" if "y \<in> set ys" for y
    using ys [OF that] mult_right_mono [of y "gheight g" "gwidth g"] assms(2) by (simp add: mult.commute)
  from putRows_spec [where ys = ys and col = col, OF assms(1) order_refl n this]
  obtain s' where s': "putRows devs g 0 (gwidth g * grid) col ys s = Some s'"
    "painted_cells g p (\<lambda>px py. \<exists>y\<in>set ys. y * gwidth g + 0 \<le> py * gwidth g + px \<and>
      py * gwidth g + px < y * gwidth g + 0 + gwidth g * grid) col s s'" by blast
  have "(\<exists>y\<in>set ys. y * gwidth g + 0 \<le> py * gwidth g + px \<and> py * gwidth g + px < y * gwidth g + 0 + gwidth g * grid) = True"
    if "on_screen g px py" for px py unfolding eq_True
  proof (rule bexI)
    have o: "0 \<le> px" "px < gwidth g" "0 \<le> py" "py < gheight g" using that by (auto simp: on_screen_def)
    let ?y = "py div grid * grid"
    have d: "?y \<le> py" "py + 1 \<le> ?y + grid" by linarith+
    have "?y * gwidth g \<le> py * gwidth g" "(py + 1) * gwidth g \<le> (?y + grid) * gwidth g"
      using d assms(2) by (intro mult_right_mono; simp)+
    then show "?y * gwidth g + 0 \<le> py * gwidth g + px \<and> py * gwidth g + px < ?y * gwidth g + 0 + gwidth g * grid"
      using o by (simp only: distrib_right mult.commute [of _ grid] mult.commute [of "gwidth g" grid]) linarith
    have "nat (py div grid) < nat ((gheight g + grid - 1) div grid)" "0 \<le> py div grid" using o by linarith+
    then show "?y \<in> set ys" unfolding ys_def set_map set_upt by (intro image_eqI [of _ _ "nat (py div grid)"]) simp_all
  qed
  from painted_cong [OF s'(2) this] s'(1) show ?thesis by (simp add: clscr_def ys_def)
qed


text \<open>A screen of two by two pixels.\<close>

definition demo_fb :: FbDevice where
  "demo_fb = \<lparr>fbBytes = replicate 16 0, fbWidth = 2, fbHeight = 2, fbPitch = 8, fbSize = 16, fbDeviceID = 2\<rparr>"

definition demo_screen :: "Devices VFS" where
  "demo_screen = \<lparr>root = 0, heap = [Some ((blank_vnode (Some 2))\<lparr>vtype := FILE\<rparr>)], fstate = \<lparr>disk = demo_disk, fbdev = demo_fb\<rparr>\<rparr>"

definition demo_graphics :: FrameBuffer where
  "demo_graphics = \<lparr>gwidth = 2, gheight = 2, fbFile = Some 0\<rparr>"


section \<open>The two devices behind the VFS\<close>

definition devs_inv :: "Devices \<Rightarrow> bool" where
  "devs_inv g \<longleftrightarrow> disk_inv (disk g) \<and> fb_ok (fbdev g)"

definition devs_ok :: "Devices \<Rightarrow> VNode \<Rightarrow> bool" where
  "devs_ok g nd \<longleftrightarrow> (if vfileSystem nd = Some 2 then rsize (resource nd) = unat (fbSize (fbdev g)) else disk_ok (disk g) nd)"

definition devs_content :: "Devices \<Rightarrow> VNode \<Rightarrow> u8 list" where
  "devs_content g nd =
    (if vfileSystem nd = Some 2 then take (unat (fbSize (fbdev g))) (fbBytes (fbdev g)) else disk_content (disk g) nd)"

definition devs_space :: "Devices \<Rightarrow> VNode \<Rightarrow> nat" where
  "devs_space g nd = (if vfileSystem nd = Some 2 then unat (fbSize (fbdev g)) else disk_space (disk g) nd)"

lemma fb_size_le: "fb_ok d \<Longrightarrow> unat (fbSize d) \<le> length (fbBytes d)" "fb_ok d \<Longrightarrow> unat (fbSize d) < 2147483648"
proof -
  have n: "int (unat (fbSize d)) = uint (fbSize d)" by simp
  assume "fb_ok d"
  then have "uint (fbSize d) < 2 ^ 31" "uint (fbSize d) \<le> int (length (fbBytes d))" unfolding fb_ok_def by blast+
  moreover from this(1) have "uint (fbSize d) < 2147483648" by simp
  ultimately show "unat (fbSize d) \<le> length (fbBytes d)" "unat (fbSize d) < 2147483648" using n by linarith+
qed

lemma fb_read_spec:
  assumes "fb_ok d" "off \<le> unat (fbSize d)"
  shows "fb_read r off sz d = Some (take sz (drop off (take (unat (fbSize d)) (fbBytes d))))"
proof -
  note o = fb_size_le [OF assms(1)] assms(2)
  have "unat (of_nat off :: u64) = off" using o by (simp add: unat_of_nat)
  then have "unat (fbSize d - of_nat off) = unat (fbSize d) - off"
    using o(3) by (subst unat_sub) (simp_all add: word_le_nat_alt)
  then have l: "fbLen off sz d = min sz (unat (fbSize d) - off)" by (simp add: fbLen_def)
  have "map ((!) bs) [off..<off + n] = take n (drop off bs)" if "off + n \<le> length bs" for n and bs :: "u8 list"
    using that by (intro nth_equalityI) auto
  then show ?thesis unfolding fb_read_def l Let_def using o by (auto simp: min_def drop_take)
qed

lemma place_simps [simp]: "same_place nd nd" "same_place nd (nd\<lparr>resource := r\<rparr>)"
  by (simp_all add: same_place_def)

interpretation dv: file_systems devs devs_inv devs_ok devs_content devs_space
proof
  show "fs_populateVFSNode (devs i) ino nd f = Some nd' \<Longrightarrow> same_place nd nd'" for i ino nd f nd'
    using rd.populate_place
    by (auto simp: devs_def lift_fs_def fb_ops_def fb_populate_def same_place_def split: if_splits)
  show "fs_create (devs i) ty nd f = Some (f', nd') \<Longrightarrow> same_place nd nd'" for i ty nd f f' nd'
    using rd.create_place by (auto simp: devs_def lift_fs_def fb_ops_def split: if_splits bind_splits)
  show "fs_writeDir (devs i) nd es f = Some (f', nd') \<Longrightarrow> same_place nd nd'" for i nd es f f' nd'
    using rd.writeDir_place by (auto simp: devs_def lift_fs_def fb_ops_def split: if_splits bind_splits)
  fix g :: Devices and nd :: VNode and offset sz :: nat and buf :: "u8 list"
  assume inv: "devs_inv g" "devs_ok g nd" and off: "offset \<le> length (devs_content g nd)"
  show "node_read devs offset sz nd g = Some (take sz (drop offset (devs_content g nd)))"
  proof (cases "vfileSystem nd = Some 2")
    case True
    then show ?thesis using inv off fb_read_spec [of "fbdev g" offset "resource nd" sz]
      by (simp add: devs_inv_def devs_content_def node_read_def devs_simps)
  next
    case False
    then show ?thesis using inv off rd.read_content [of "disk g" nd offset sz]
      by (auto simp: devs_inv_def devs_ok_def devs_content_def node_read_def devs_simps disk_ok_def)
  qed
  assume sz: "sz \<le> length buf"
  show "\<exists>f' nd' k. node_write devs offset sz buf nd g = Some (f', nd', k) \<and> k = min sz (devs_space g nd - offset) \<and>
        devs_inv f' \<and> devs_ok f' nd' \<and> same_place nd nd' \<and> vtype nd' = vtype nd \<and> vfileSystem nd' = vfileSystem nd \<and>
        rsize (resource nd') = length (devs_content f' nd') \<and> devs_space f' nd' = devs_space g nd \<and>
        devs_content f' nd' = take offset (devs_content g nd) @ take k buf @ drop (offset + k) (devs_content g nd)"
  proof (cases "vfileSystem nd = Some 2")
    case True
    let ?d = "fbdev g" and ?n = "unat (fbSize (fbdev g))"
    define k where "k = min sz (?n - offset)"
    define d' where "d' = ?d\<lparr>fbBytes := patch offset (take k buf) (fbBytes ?d)\<rparr>"
    have ok: "fb_ok ?d" "offset \<le> ?n" using inv(1) off True by (auto simp: devs_inv_def devs_content_def)
    note b = fb_size_le [OF ok(1)]
    have o: "int offset \<le> uint (fbSize ?d)" using ok(2) uint_nat [of "fbSize ?d"] by linarith
    have tk: "length (take k buf) = k" "offset + k \<le> ?n" using sz ok(2) by (auto simp: k_def)
    have "fb_write (resource nd) offset sz buf ?d = Some (d', resource nd, k)"
      using fb_write_spec [OF ok(1) o sz, of "resource nd"] unfolding Let_def d'_def k_def .
    then have w: "node_write devs offset sz buf nd g = Some (g\<lparr>fbdev := d'\<rparr>, nd, k)"
      using True by (simp add: node_write_def devs_simps)
    have len: "length (fbBytes d') = length (fbBytes ?d)"
      using length_patch [of offset "take k buf" "fbBytes ?d"] tk b(1) by (simp add: d'_def)
    have eq: "take ?n (fbBytes d') = patch offset (take k buf) (take ?n (fbBytes ?d))"
      using take_patch [of offset ?n "fbBytes ?d" "take k buf" "[]"] tk b(1) ok(2) by (simp add: d'_def max_def split: if_splits)
    have fields: "fbSize d' = fbSize ?d" "fbWidth d' = fbWidth ?d" "fbHeight d' = fbHeight ?d" by (simp_all add: d'_def)
    have inv': "fb_ok d'" using ok(1) unfolding fb_ok_def fields len .
    have "devs_content (g\<lparr>fbdev := d'\<rparr>) nd = take offset (devs_content g nd) @ take k buf @ drop (offset + k) (devs_content g nd)"
      using eq unfolding patch_def tk(1) by (simp add: devs_content_def True fields)
    moreover have "rsize (resource nd) = length (devs_content (g\<lparr>fbdev := d'\<rparr>) nd)"
      using inv(2) True len b(1) by (simp add: devs_content_def devs_ok_def fields)
    moreover have "devs_inv (g\<lparr>fbdev := d'\<rparr>)" "devs_ok (g\<lparr>fbdev := d'\<rparr>) nd"
      using inv inv' True by (simp_all add: devs_inv_def devs_ok_def fields)
    moreover have "devs_space (g\<lparr>fbdev := d'\<rparr>) nd = devs_space g nd" by (simp add: devs_space_def fields)
    moreover have "k = min sz (devs_space g nd - offset)" using True by (simp add: k_def devs_space_def)
    ultimately show ?thesis using w by (intro exI [of _ "g\<lparr>fbdev := d'\<rparr>"] exI [of _ nd] exI [of _ k]) simp
  next
    case False
    then have d: "disk_inv (disk g)" "disk_ok (disk g) nd" "offset \<le> length (disk_content (disk g) nd)"
      using inv off by (simp_all add: devs_inv_def devs_ok_def devs_content_def)
    then obtain f' nd' k where w: "node_write rdfs offset sz buf nd (disk g) = Some (f', nd', k)" "k = min sz (disk_space (disk g) nd - offset)"
        "disk_inv f'" "disk_ok f' nd'" "same_place nd nd'" "vtype nd' = vtype nd" "vfileSystem nd' = vfileSystem nd"
        "rsize (resource nd') = length (disk_content f' nd')" "disk_space f' nd' = disk_space (disk g) nd"
        "disk_content f' nd' = take offset (disk_content (disk g) nd) @ take k buf @ drop (offset + k) (disk_content (disk g) nd)"
      using rd.write_content [OF d sz] by (elim exE conjE) blast
    let ?g = "g\<lparr>disk := f'\<rparr>"
    have nw: "node_write devs offset sz buf nd g = Some (?g, nd', k)"
      using w(1) False d(2) by (auto simp: node_write_def devs_simps disk_ok_def split: bind_splits)
    have eqs: "devs_content ?g nd' = disk_content f' nd'" "devs_content g nd = disk_content (disk g) nd"
      "devs_space g nd = disk_space (disk g) nd" "devs_space ?g nd' = disk_space f' nd'" "devs_ok ?g nd' = disk_ok f' nd'"
      using False w(7) by (simp_all add: devs_ok_def devs_content_def devs_space_def)
    have gi: "devs_inv ?g" using inv(1) w(3) by (simp add: devs_inv_def)
    show ?thesis
      by (intro exI [of _ ?g] exI [of _ nd'] exI [of _ k] conjI; (unfold eqs)?; (fact nw | fact gi | fact w))
  qed
qed

end
