(* ===== verification/File_Desc.thy ===== *)
theory File_Desc
  imports Frame_Buffer Keyboard
begin

text \<open>
  File descriptors (\<open>FileDescriptor\<close> of \<open>kernel/include/kernel/process/kthread.h\<close> and \<open>kthread.cpp\<close>), the standard input
  and output that the constructor of \<open>Thread\<close> opens, and the write of the keyboard handler to standard input. A process state
  holds the descriptors of the running thread and the VFS. The theorems show a descriptor as a queue of bytes.
\<close>

section \<open>Descriptors\<close>

record FileDescriptor =
  readOffset :: u32
  writeOffset :: u32
  fileNode :: "nat option"

record 'f Proc =
  vfs :: "'f VFS"
  fileDescriptors :: "FileDescriptor list"

definition new_FileDescriptor :: "nat option \<Rightarrow> FileDescriptor" where
  "new_FileDescriptor p = \<lparr>readOffset = 0, writeOffset = 0, fileNode = p\<rparr>"

definition canReadXbytes :: "int \<Rightarrow> FileDescriptor \<Rightarrow> 'f VFS \<Rightarrow> bool option" where
  "canReadXbytes x fd s = do {
     p \<leftarrow> fileNode fd;
     nd \<leftarrow> deref p s;
     let remainingSize = int (rsize (resource nd)) - sint (readOffset fd);
     Some (remainingSize \<ge> x) }"

definition fd_read :: "'f fsTable \<Rightarrow> nat \<Rightarrow> FileDescriptor \<Rightarrow> 'f VFS \<Rightarrow> (u8 list \<times> FileDescriptor) option" where
  "fd_read fss limit fd s = do {
     p \<leftarrow> fileNode fd;
     nd \<leftarrow> deref p s;
     bytes \<leftarrow> node_read fss (unat (readOffset fd)) limit nd (fstate s);
     Some (bytes, fd\<lparr>readOffset := readOffset fd + of_nat (length bytes)\<rparr>) }"

definition fd_write :: "'f fsTable \<Rightarrow> nat \<Rightarrow> u8 list \<Rightarrow> FileDescriptor \<Rightarrow> 'f VFS \<Rightarrow> (nat \<times> FileDescriptor \<times> 'f VFS) option" where
  "fd_write fss limit buf fd s = do {
     (bytesWritten, s) \<leftarrow> file_write fss (fileNode fd) (unat (writeOffset fd)) limit buf s;
     Some (bytesWritten, fd\<lparr>writeOffset := writeOffset fd + of_nat bytesWritten\<rparr>, s) }"

text \<open>The same on \<open>thisThread().fileDescriptors[i]\<close>.\<close>

definition can_read :: "nat \<Rightarrow> int \<Rightarrow> 'f Proc \<Rightarrow> bool option" where
  "can_read i x pr = (if i < length (fileDescriptors pr) then canReadXbytes x (fileDescriptors pr ! i) (vfs pr) else None)"

definition proc_read :: "'f fsTable \<Rightarrow> nat \<Rightarrow> nat \<Rightarrow> 'f Proc \<Rightarrow> (u8 list \<times> 'f Proc) option" where
  "proc_read fss i limit pr = (if i < length (fileDescriptors pr) then do {
     (bytes, fd) \<leftarrow> fd_read fss limit (fileDescriptors pr ! i) (vfs pr);
     Some (bytes, pr\<lparr>fileDescriptors := (fileDescriptors pr)[i := fd]\<rparr>) } else None)"

definition proc_write :: "'f fsTable \<Rightarrow> nat \<Rightarrow> nat \<Rightarrow> u8 list \<Rightarrow> 'f Proc \<Rightarrow> (nat \<times> 'f Proc) option" where
  "proc_write fss i limit buf pr = (if i < length (fileDescriptors pr) then do {
     (k, fd, s) \<leftarrow> fd_write fss limit buf (fileDescriptors pr ! i) (vfs pr);
     Some (k, pr\<lparr>vfs := s, fileDescriptors := (fileDescriptors pr)[i := fd]\<rparr>) } else None)"

text \<open>The files the constructor of \<open>Thread\<close> makes for a thread with number \<open>n\<close>; \<open>dec_digits\<close> is what \<open>stoi\<close> returns
  (theory \<open>Cpp_String\<close>).\<close>

definition open_std :: "'f fsTable \<Rightarrow> u8 list \<Rightarrow> nat \<Rightarrow> 'f VFS \<Rightarrow> 'f Proc option" where
  "open_std fss junk n s = do {
     (i, s) \<leftarrow> vfs_mkfile fss junk (''/proc/stdin_'' @ dec_digits n) s;
     (out, s) \<leftarrow> vfs_mkfile fss junk (''/proc/stdout_'' @ dec_digits n) s;
     Some \<lparr>vfs = s, fileDescriptors = [new_FileDescriptor i, new_FileDescriptor out]\<rparr> }"

section \<open>The keyboard handler's write\<close>

definition key_bytes :: "int \<Rightarrow> u8 list" where
  "key_bytes key = le4 (of_int key)"

definition key_of_bytes :: "u8 list \<Rightarrow> int" where
  "key_of_bytes buf = sint (get_le 4 0 buf :: u32)"

text \<open>One keyboard interrupt with status and data byte of the controller.\<close>

definition key_interrupt :: "'f fsTable \<Rightarrow> u8 \<Rightarrow> u8 \<Rightarrow> Keyboard \<Rightarrow> 'f Proc \<Rightarrow> (Keyboard \<times> 'f Proc) option" where
  "key_interrupt fss status data kb pr = do {
     (kb, key) \<leftarrow> isrHandler status data kb;
     (case key of None \<Rightarrow> Some (kb, pr)
      | Some k \<Rightarrow> do { (_, pr) \<leftarrow> proc_write fss 0 4 (key_bytes k) pr; Some (kb, pr) }) }"

fun key_interrupts :: "'f fsTable \<Rightarrow> u8 list \<Rightarrow> Keyboard \<Rightarrow> 'f Proc \<Rightarrow> (Keyboard \<times> 'f Proc) option" where
  "key_interrupts fss [] kb pr = Some (kb, pr)"
| "key_interrupts fss (b # bs) kb pr = do { (kb, pr) \<leftarrow> key_interrupt fss 1 b kb pr; key_interrupts fss bs kb pr }"

section \<open>A descriptor as a queue\<close>

lemma unat_add_small: "unat x + n < 2 ^ 32 \<Longrightarrow> unat (x + of_nat n :: u32) = unat x + n"
  by (simp add: unat_word_ariths unat_of_nat)

text \<open>Descriptor \<open>i\<close> is at node \<open>nd\<close>, has written all of the file and read part of it; what it has not read is the queue \<open>q\<close>.\<close>

definition fd_at :: "('f \<Rightarrow> bool) \<Rightarrow> ('f \<Rightarrow> VNode \<Rightarrow> bool) \<Rightarrow> ('f \<Rightarrow> VNode \<Rightarrow> u8 list) \<Rightarrow>
    nat \<Rightarrow> 'f Proc \<Rightarrow> nat \<Rightarrow> VNode \<Rightarrow> u8 list \<Rightarrow> bool" where
  "fd_at iv ok content i pr p nd q \<longleftrightarrow> i < length (fileDescriptors pr) \<and> fileNode (fileDescriptors pr ! i) = Some p \<and>
     deref p (vfs pr) = Some nd \<and> iv (fstate (vfs pr)) \<and> ok (fstate (vfs pr)) nd \<and>
     rsize (resource nd) = length (content (fstate (vfs pr)) nd) \<and>
     unat (writeOffset (fileDescriptors pr ! i)) = length (content (fstate (vfs pr)) nd) \<and>
     unat (readOffset (fileDescriptors pr ! i)) \<le> length (content (fstate (vfs pr)) nd) \<and>
     q = drop (unat (readOffset (fileDescriptors pr ! i))) (content (fstate (vfs pr)) nd)"

text \<open>File systems whose files do not touch each other: a write to one leaves those apart from it alone, with the space
  \<open>held\<close> for them.\<close>

locale isolated_files = file_systems fss fs_inv ok content space
  for fss :: "'f fsTable" and fs_inv :: "'f \<Rightarrow> bool" and ok :: "'f \<Rightarrow> VNode \<Rightarrow> bool"
    and content :: "'f \<Rightarrow> VNode \<Rightarrow> u8 list" and space :: "'f \<Rightarrow> VNode \<Rightarrow> nat" +
  fixes apart :: "VNode \<Rightarrow> VNode \<Rightarrow> bool" and held :: "'f \<Rightarrow> VNode \<Rightarrow> nat"
  assumes write_apart: "fs_inv f \<Longrightarrow> ok f nd \<Longrightarrow> ok f nd2 \<Longrightarrow> apart nd nd2 \<Longrightarrow> offset \<le> length (content f nd) \<Longrightarrow> sz \<le> length buf \<Longrightarrow>
      node_write fss offset sz buf nd f = Some (f', nd', k) \<Longrightarrow>
      ok f' nd2 \<and> content f' nd2 = content f nd2 \<and> held f' nd2 = held f nd2 \<and>
      (\<forall>nd3. apart nd nd3 = apart nd' nd3 \<and> apart nd3 nd = apart nd3 nd')"
    and space_bound: "fs_inv f \<Longrightarrow> ok f nd \<Longrightarrow>
      length (content f nd) \<le> held f nd \<and> held f nd \<le> space f nd \<and> space f nd < 2 ^ 31"
begin

abbreviation at_fd :: "nat \<Rightarrow> 'f Proc \<Rightarrow> nat \<Rightarrow> VNode \<Rightarrow> u8 list \<Rightarrow> bool" where
  "at_fd \<equiv> fd_at fs_inv ok content"

lemma fd_bounds:
  assumes "at_fd i pr p nd q"
  shows "length (content (fstate (vfs pr)) nd) \<le> space (fstate (vfs pr)) nd" "space (fstate (vfs pr)) nd < 2 ^ 31"
  using assms space_bound [of "fstate (vfs pr)" nd] by (simp_all add: fd_at_def)

lemma fd_can_read:
  assumes "at_fd i pr p nd q"
  shows "can_read i x pr = Some (x \<le> int (length q))"
proof -
  let ?fd = "fileDescriptors pr ! i" and ?c = "content (fstate (vfs pr)) nd"
  have b: "length ?c < 2 ^ 31" using fd_bounds [OF assms] by linarith
  have r: "unat (readOffset ?fd) \<le> length ?c" using assms by (simp add: fd_at_def)
  then have "sint (readOffset ?fd) = int (unat (readOffset ?fd))" using b by (intro sint_u32_small) linarith
  then show ?thesis using assms r by (auto simp: fd_at_def can_read_def canReadXbytes_def)
qed

lemma fd_read_queue:
  assumes "at_fd i pr p nd q"
  shows "\<exists>pr'. proc_read fss i n pr = Some (take n q, pr') \<and> at_fd i pr' p nd (drop n q) \<and> vfs pr' = vfs pr \<and>
    (\<forall>j. j \<noteq> i \<longrightarrow> fileDescriptors pr' ! j = fileDescriptors pr ! j) \<and> length (fileDescriptors pr') = length (fileDescriptors pr)"
proof -
  let ?fd = "fileDescriptors pr ! i" and ?c = "content (fstate (vfs pr)) nd"
  have r: "unat (readOffset ?fd) \<le> length ?c" and q: "q = drop (unat (readOffset ?fd)) ?c" using assms by (simp_all add: fd_at_def)
  define fd' where "fd' = ?fd\<lparr>readOffset := readOffset ?fd + of_nat (length (take n q))\<rparr>"
  define pr' where "pr' = pr\<lparr>fileDescriptors := (fileDescriptors pr)[i := fd']\<rparr>"
  have "node_read fss (unat (readOffset ?fd)) n nd (fstate (vfs pr)) = Some (take n q)"
    unfolding q by (rule read_content) (use assms in \<open>simp_all add: fd_at_def\<close>)
  then have pr: "proc_read fss i n pr = Some (take n q, pr')"
    using assms by (simp add: fd_at_def proc_read_def fd_read_def pr'_def fd'_def)
  have len: "unat (readOffset ?fd) + length (take n q) \<le> length ?c" using r q by simp
  have "unat (readOffset fd') = unat (readOffset ?fd) + length (take n q)"
    using unat_add_small [of "readOffset ?fd" "length (take n q)"] len fd_bounds [OF assms] by (simp add: fd'_def)
  moreover have "drop n q = drop (unat (readOffset ?fd) + length (take n q)) ?c" unfolding q by (simp add: min_def add.commute)
  ultimately have "at_fd i pr' p nd (drop n q)" using assms len by (simp add: fd_at_def pr'_def fd'_def)
  then show ?thesis using pr by (auto simp: pr'_def)
qed

lemma fd_write_queue:
  assumes "at_fd i pr p nd q" "sz \<le> length buf"
  defines "k \<equiv> min sz (space (fstate (vfs pr)) nd - length (content (fstate (vfs pr)) nd))"
  shows "\<exists>pr' nd'. proc_write fss i sz buf pr = Some (k, pr') \<and> at_fd i pr' p nd' (q @ take k buf) \<and>
    node_write fss (length (content (fstate (vfs pr)) nd)) sz buf nd (fstate (vfs pr)) = Some (fstate (vfs pr'), nd', k) \<and>
    same_place nd nd' \<and> vfs pr' = set_node p nd' (vfs pr\<lparr>fstate := fstate (vfs pr')\<rparr>) \<and>
    content (fstate (vfs pr')) nd' = content (fstate (vfs pr)) nd @ take k buf \<and>
    space (fstate (vfs pr')) nd' = space (fstate (vfs pr)) nd \<and>
    (\<forall>j. j \<noteq> i \<longrightarrow> fileDescriptors pr' ! j = fileDescriptors pr ! j) \<and> length (fileDescriptors pr') = length (fileDescriptors pr)"
proof -
  let ?fd = "fileDescriptors pr ! i" and ?f = "fstate (vfs pr)"
  let ?c = "content ?f nd"
  have fd: "i < length (fileDescriptors pr)" "fileNode ?fd = Some p" "deref p (vfs pr) = Some nd" "unat (writeOffset ?fd) = length ?c"
    "unat (readOffset ?fd) \<le> length ?c" "q = drop (unat (readOffset ?fd)) ?c" and inv: "fs_inv ?f" "ok ?f nd"
    using assms(1) by (simp_all add: fd_at_def)
  obtain f' nd' where w: "node_write fss (length ?c) sz buf nd ?f = Some (f', nd', k)" "fs_inv f'" "ok f' nd'" "same_place nd nd'"
      "rsize (resource nd') = length (content f' nd')" "content f' nd' = ?c @ take k buf" "space f' nd' = space ?f nd"
    using write_content [OF inv order_refl assms(2)] unfolding k_def [symmetric] by auto
  define fd' where "fd' = ?fd\<lparr>writeOffset := writeOffset ?fd + of_nat k\<rparr>"
  define s' where "s' = set_node p nd' (vfs pr\<lparr>fstate := f'\<rparr>)"
  define pr' where "pr' = pr\<lparr>vfs := s', fileDescriptors := (fileDescriptors pr)[i := fd']\<rparr>"
  have pw: "proc_write fss i sz buf pr = Some (k, pr')"
    using fd w(1) by (simp add: proc_write_def fd_write_def file_write_def pr'_def fd'_def s'_def)
  have "fstate s' = f'" "deref p s' = Some nd'"
    using deref_len [OF fd(3)] by (simp_all add: s'_def set_node_def deref_def)
  moreover have k: "length (take k buf) = k" using assms(2) by (simp add: k_def)
  moreover have "unat (writeOffset fd') = length ?c + k"
    using unat_add_small [of "writeOffset ?fd" k] fd(4) fd_bounds [OF assms(1)] by (simp add: fd'_def k_def)
  ultimately have "at_fd i pr' p nd' (q @ take k buf)"
    using fd w(2-6) by (simp add: fd_at_def pr'_def) (simp add: fd'_def)
  then show ?thesis using pw w(1,4,6,7) \<open>fstate s' = f'\<close>
    by (intro exI [of _ pr'] exI [of _ nd']) (auto simp: pr'_def s'_def)
qed

text \<open>A descriptor of another file does not notice a write.\<close>

lemma fd_write_node:
  assumes "at_fd i pr p nd q" "deref p2 (vfs pr) = Some nd2" "ok (fstate (vfs pr)) nd2" "p2 \<noteq> p" "apart nd nd2" "sz \<le> length buf"
    "proc_write fss i sz buf pr = Some (k, pr')"
  shows "deref p2 (vfs pr') = Some nd2 \<and> ok (fstate (vfs pr')) nd2 \<and> content (fstate (vfs pr')) nd2 = content (fstate (vfs pr)) nd2 \<and>
    held (fstate (vfs pr')) nd2 = held (fstate (vfs pr)) nd2"
proof -
  let ?c = "content (fstate (vfs pr)) nd"
  obtain nd' where w: "node_write fss (length ?c) sz buf nd (fstate (vfs pr)) = Some (fstate (vfs pr'), nd', k)"
      "vfs pr' = set_node p nd' (vfs pr\<lparr>fstate := fstate (vfs pr')\<rparr>)"
    using fd_write_queue [OF assms(1,6)] assms(7) by auto
  have inv: "fs_inv (fstate (vfs pr))" "ok (fstate (vfs pr)) nd" using assms(1) by (simp_all add: fd_at_def)
  have o: "ok (fstate (vfs pr')) nd2" "content (fstate (vfs pr')) nd2 = content (fstate (vfs pr)) nd2"
      "held (fstate (vfs pr')) nd2 = held (fstate (vfs pr)) nd2"
    using write_apart [OF inv assms(3,5) order_refl assms(6) w(1)] by blast+
  have "deref p2 (set_node p nd' (vfs pr\<lparr>fstate := fstate (vfs pr')\<rparr>)) = deref p2 (vfs pr)"
    using assms(4) by (simp add: deref_def set_node_def)
  then show ?thesis using assms(2) o unfolding w(2) [symmetric] by simp
qed

lemma fd_write_other:
  assumes "at_fd i pr p nd q" "at_fd j pr p2 nd2 q2" "p2 \<noteq> p" "apart nd nd2" "j \<noteq> i" "sz \<le> length buf"
    "proc_write fss i sz buf pr = Some (k, pr')"
  shows "at_fd j pr' p2 nd2 q2 \<and> content (fstate (vfs pr')) nd2 = content (fstate (vfs pr)) nd2 \<and>
    held (fstate (vfs pr')) nd2 = held (fstate (vfs pr)) nd2"
proof -
  have n2: "deref p2 (vfs pr) = Some nd2" "ok (fstate (vfs pr)) nd2" using assms(2) by (simp_all add: fd_at_def)
  obtain nd' where w: "at_fd i pr' p nd' (q @ take k buf)"
      "fileDescriptors pr' ! j = fileDescriptors pr ! j" "length (fileDescriptors pr') = length (fileDescriptors pr)"
    using fd_write_queue [OF assms(1,6)] assms(5,7) by auto
  then show ?thesis using assms(2) fd_write_node [OF assms(1) n2 assms(3,4,6,7)] by (simp add: fd_at_def)
qed

lemma stdin_write:
  assumes "at_fd 0 pr p nd q" "length (content (fstate (vfs pr)) nd) + 4 \<le> space (fstate (vfs pr)) nd"
  shows "\<exists>pr' nd'. proc_write fss 0 4 (key_bytes key) pr = Some (4, pr') \<and> at_fd 0 pr' p nd' (q @ key_bytes key) \<and>
    length (content (fstate (vfs pr')) nd') = length (content (fstate (vfs pr)) nd) + 4 \<and>
    space (fstate (vfs pr')) nd' = space (fstate (vfs pr)) nd"
proof -
  have k: "length (key_bytes key) = 4" by (simp add: key_bytes_def)
  then have m: "min 4 (space (fstate (vfs pr)) nd - length (content (fstate (vfs pr)) nd)) = 4" "take 4 (key_bytes key) = key_bytes key"
    using assms(2) by simp_all
  have "4 \<le> length (key_bytes key)" using k by simp
  from fd_write_queue [OF assms(1) this, unfolded m] show ?thesis using k by fastforce
qed

lemma keys_to_stdin:
  assumes "at_fd 0 pr p nd q" "scancode kb = 0" "list_all in_table bs" "ks = List.map_filter key_of_byte bs"
    "length (content (fstate (vfs pr)) nd) + 4 * length ks \<le> space (fstate (vfs pr)) nd"
  shows "\<exists>kb' pr' nd'. key_interrupts fss bs kb pr = Some (kb', pr') \<and> at_fd 0 pr' p nd' (q @ concat (map key_bytes ks)) \<and>
    shift kb' = fold shift_after bs (shift kb) \<and> capsLock kb' = fold caps_after bs (capsLock kb)"
  using assms
proof (induction bs arbitrary: kb pr nd q ks)
  case (Cons b bs)
  then obtain kb1 where k1: "isrHandler 1 b kb = Some (kb1, key_of_byte b)" "scancode kb1 = 0"
    "shift kb1 = shift_after b (shift kb)" "capsLock kb1 = caps_after b (capsLock kb)"
    using isr_step [of kb b] by auto
  have t: "list_all in_table bs" using Cons.prems(3) by simp
  show ?case
  proof (cases "key_of_byte b")
    case None
    then have ks: "ks = List.map_filter key_of_byte bs" using Cons.prems(4) by (simp add: map_filter_simps)
    show ?thesis using Cons.IH [OF Cons.prems(1) k1(2) t ks Cons.prems(5)] k1 None by (simp add: key_interrupt_def)
  next
    case (Some key)
    define ks1 where "ks1 = List.map_filter key_of_byte bs"
    have ks: "ks = key # ks1" using Cons.prems(4) Some by (simp add: map_filter_simps ks1_def)
    obtain pr1 nd1 where w: "proc_write fss 0 4 (key_bytes key) pr = Some (4, pr1)" "at_fd 0 pr1 p nd1 (q @ key_bytes key)"
        "length (content (fstate (vfs pr1)) nd1) = length (content (fstate (vfs pr)) nd) + 4"
        "space (fstate (vfs pr1)) nd1 = space (fstate (vfs pr)) nd"
      using stdin_write [OF Cons.prems(1), of key] Cons.prems(5) ks by auto
    show ?thesis using Cons.IH [OF w(2) k1(2) t ks1_def] w k1 Some Cons.prems(5) ks by (simp add: key_interrupt_def)
  qed
qed (auto simp: map_filter_simps)

lemma keys_other:
  assumes "at_fd 0 pr p nd q" "at_fd j pr p2 nd2 q2" "p2 \<noteq> p" "apart nd nd2" "j \<noteq> 0" "key_interrupts fss bs kb pr = Some (kb', pr')"
  shows "at_fd j pr' p2 nd2 q2 \<and> content (fstate (vfs pr')) nd2 = content (fstate (vfs pr)) nd2 \<and>
    held (fstate (vfs pr')) nd2 = held (fstate (vfs pr)) nd2 \<and> (\<exists>nd' q'. at_fd 0 pr' p nd' q' \<and> (\<forall>nd3. apart nd3 nd = apart nd3 nd'))"
  using assms
proof (induction bs arbitrary: kb pr nd q)
  case (Cons b bs)
  obtain kb1 pr1 where k: "key_interrupt fss 1 b kb pr = Some (kb1, pr1)" "key_interrupts fss bs kb1 pr1 = Some (kb', pr')"
    using Cons.prems(6) by (auto split: bind_splits)
  obtain key where i: "isrHandler 1 b kb = Some (kb1, key)"
    using k(1) by (auto simp: key_interrupt_def split: bind_splits option.splits)
  show ?case
  proof (cases key)
    case None
    then have "pr1 = pr" using k(1) i by (simp add: key_interrupt_def)
    then show ?thesis using Cons.IH Cons.prems k(2) by blast
  next
    case (Some c)
    obtain n where w: "proc_write fss 0 4 (key_bytes c) pr = Some (n, pr1)"
      using k(1) i Some by (auto simp: key_interrupt_def split: bind_splits)
    have l: "4 \<le> length (key_bytes c)" by (simp add: key_bytes_def)
    obtain nd1 where w1: "at_fd 0 pr1 p nd1 (q @ take n (key_bytes c))"
        "node_write fss (length (content (fstate (vfs pr)) nd)) 4 (key_bytes c) nd (fstate (vfs pr)) = Some (fstate (vfs pr1), nd1, n)"
      using fd_write_queue [OF Cons.prems(1) l] w by auto
    have o: "fs_inv (fstate (vfs pr))" "ok (fstate (vfs pr)) nd" "ok (fstate (vfs pr)) nd2"
      using Cons.prems(1,2) by (simp_all add: fd_at_def)
    have ap: "apart nd nd3 = apart nd1 nd3" "apart nd3 nd = apart nd3 nd1" for nd3
      using write_apart [OF o Cons.prems(4) order_refl l w1(2)] by blast+
    have w2: "at_fd j pr1 p2 nd2 q2" "content (fstate (vfs pr1)) nd2 = content (fstate (vfs pr)) nd2"
        "held (fstate (vfs pr1)) nd2 = held (fstate (vfs pr)) nd2"
      using fd_write_other [OF Cons.prems(1-5) l w] by blast+
    have "apart nd1 nd2" using ap(1) Cons.prems(4) by blast
    from Cons.IH [OF w1(1) w2(1) Cons.prems(3) this Cons.prems(5) k(2)] show ?thesis using w2 ap(2) by simp
  qed
qed auto

text \<open>Once the file has no room left, every interrupt of the keyboard still returns, and its key is lost.\<close>

lemma stdin_full:
  assumes "at_fd 0 pr p nd q" "space (fstate (vfs pr)) nd = length (content (fstate (vfs pr)) nd)" "scancode kb = 0" "list_all in_table bs"
  shows "\<exists>kb' pr' nd'. key_interrupts fss bs kb pr = Some (kb', pr') \<and> scancode kb' = 0 \<and> at_fd 0 pr' p nd' q \<and>
    content (fstate (vfs pr')) nd' = content (fstate (vfs pr)) nd \<and> space (fstate (vfs pr')) nd' = space (fstate (vfs pr)) nd"
  using assms
proof (induction bs arbitrary: kb pr nd)
  case (Cons b bs)
  have t: "in_table b" "list_all in_table bs" using Cons.prems(4) by simp_all
  obtain kb1 where k1: "isrHandler 1 b kb = Some (kb1, key_of_byte b)" "scancode kb1 = 0"
    using isr_step [OF Cons.prems(3) t(1)] by auto
  show ?case
  proof (cases "key_of_byte b")
    case None
    then show ?thesis using Cons.IH [OF Cons.prems(1,2) k1(2) t(2)] k1 by (simp add: key_interrupt_def)
  next
    case (Some c)
    have l: "4 \<le> length (key_bytes c)" by (simp add: key_bytes_def)
    obtain pr1 nd1 where w: "proc_write fss 0 4 (key_bytes c) pr = Some (0, pr1)" "at_fd 0 pr1 p nd1 q"
        "content (fstate (vfs pr1)) nd1 = content (fstate (vfs pr)) nd" "space (fstate (vfs pr1)) nd1 = space (fstate (vfs pr)) nd"
      using fd_write_queue [OF Cons.prems(1) l] Cons.prems(2) by auto
    from Cons.IH [OF w(2) _ k1(2) t(2)] show ?thesis using w k1 Some Cons.prems(2) by (simp add: key_interrupt_def)
  qed
qed auto

end

definition devs_apart :: "VNode \<Rightarrow> VNode \<Rightarrow> bool" where
  "devs_apart nd nd2 \<longleftrightarrow> (if vfileSystem nd = Some 2 then vfileSystem nd2 \<noteq> Some 2
     else vfileSystem nd2 = Some 2 \<or> rinode (resource nd) \<noteq> rinode (resource nd2))"

definition devs_held :: "Devices \<Rightarrow> VNode \<Rightarrow> nat" where
  "devs_held g nd = (if vfileSystem nd = Some 2 then unat (fbSize (fbdev g))
     else 512 * blocksInUse (nodes (disk g) ! nat (rinode (resource nd))))"

lemma fb_write_only:
  assumes "fb_write r offset sz buf d = Some (d', r', k)"
  shows "r' = r" "fbSize d' = fbSize d"
  using assms by (auto simp: fb_write_def Let_def split: if_splits)

lemma disk_ok_inode: "disk_ok d nd \<Longrightarrow> rinode (resource nd) = int (nat (rinode (resource nd)))"
  by (simp add: disk_ok_def)

interpretation dv: isolated_files devs devs_inv devs_ok devs_content devs_space devs_apart devs_held
proof
  fix f nd
  assume i: "devs_inv f" "devs_ok f nd"
  show "length (devs_content f nd) \<le> devs_held f nd \<and> devs_held f nd \<le> devs_space f nd \<and> devs_space f nd < 2 ^ 31"
  proof (cases "vfileSystem nd = Some 2")
    case True
    then show ?thesis using fb_size_le [of "fbdev f"] i by (simp add: devs_inv_def devs_content_def devs_space_def devs_held_def)
  next
    case False
    let ?n = "nat (rinode (resource nd))"
    have v: "disk_inv (disk f)" "valid (disk f) ?n" using i False by (simp_all add: devs_inv_def devs_ok_def disk_ok_def)
    have "blocksInUse (nodes (disk f) ! ?n) \<le> 10" "nsize (nodes (disk f) ! ?n) \<le> 512 * blocksInUse (nodes (disk f) ! ?n)"
      using disk_inv_node [OF v] by (simp_all add: node_ok_def)
    then show ?thesis using False length_contents [OF v] room_ge [of "disk f" ?n] room_bounds(2) [of "disk f" ?n]
      by (simp add: devs_content_def devs_space_def devs_held_def)
  qed
next
  fix g g' nd nd2 nd' offset sz buf k
  assume a: "devs_inv g" "devs_ok g nd" "devs_ok g nd2" "devs_apart nd nd2" "offset \<le> length (devs_content g nd)" "sz \<le> length buf"
    "node_write devs offset sz buf nd g = Some (g', nd', k)"
  show "devs_ok g' nd2 \<and> devs_content g' nd2 = devs_content g nd2 \<and> devs_held g' nd2 = devs_held g nd2 \<and>
    (\<forall>nd3. devs_apart nd nd3 = devs_apart nd' nd3 \<and> devs_apart nd3 nd = devs_apart nd3 nd')"
  proof (cases "vfileSystem nd = Some 2")
    case True
    then obtain d' r' where w: "fb_write (resource nd) offset sz buf (fbdev g) = Some (d', r', k)" "g' = g\<lparr>fbdev := d'\<rparr>" "nd' = nd\<lparr>resource := r'\<rparr>"
      using a(7) by (auto simp: node_write_def devs_simps split: bind_splits)
    then show ?thesis using a(3,4) True fb_write_only [OF w(1)] by (simp add: devs_apart_def devs_ok_def devs_content_def devs_held_def)
  next
    case False
    let ?n = "nat (rinode (resource nd))" and ?m = "nat (rinode (resource nd2))"
    have d: "disk_inv (disk g)" "disk_ok (disk g) nd" "offset \<le> length (contents (disk g) ?n)"
      using a(1,2,5) False by (simp_all add: devs_inv_def devs_ok_def devs_content_def)
    have v: "valid (disk g) ?n" "min sz (5120 - offset) \<le> length buf" using d(2) a(6) by (simp_all add: disk_ok_def)
    obtain d' k' where w: "disk_write (resource nd) offset sz buf (disk g) = Some (d', (resource nd)\<lparr>rsize := length (contents d' ?n)\<rparr>, k')"
        "only_node ?n (disk g) d'"
      using disk_write_spec [OF d(1) v(1) disk_ok_inode [OF d(2)] d(3) v(2)] by metis
    then have g: "g' = g\<lparr>disk := d'\<rparr>" "nd' = nd\<lparr>resource := (resource nd)\<lparr>rsize := length (contents d' ?n)\<rparr>\<rparr>"
      using a(7) False d(2) by (auto simp: node_write_def devs_simps disk_ok_def split: bind_splits)
    show ?thesis
    proof (cases "vfileSystem nd2 = Some 2")
      case True
      then show ?thesis using a(3) False g by (simp add: devs_apart_def devs_ok_def devs_content_def devs_held_def)
    next
      case nd2: False
      then have m: "disk_ok (disk g) nd2" using a(3) by (simp add: devs_ok_def)
      then have "?m \<noteq> ?n" using a(4) False nd2 d(2) by (auto simp: devs_apart_def disk_ok_def)
      moreover from this have "nodes d' ! ?m = nodes (disk g) ! ?m" using w(2) by (simp add: only_node_def)
      ultimately have "contents d' ?m = contents (disk g) ?m" "nodes d' ! ?m = nodes (disk g) ! ?m"
        using only_node_contents [OF w(2)] m by (simp_all add: disk_ok_def)
      then show ?thesis using False nd2 g m only_node_valid [OF w(2)]
        by (simp add: devs_apart_def devs_ok_def devs_content_def disk_ok_def devs_held_def)
    qed
  qed
qed

abbreviation stdin_at :: "Devices Proc \<Rightarrow> nat \<Rightarrow> VNode \<Rightarrow> u8 list \<Rightarrow> bool" where
  "stdin_at \<equiv> fd_at devs_inv devs_ok devs_content 0"

text \<open>
  C16: a file descriptor is a queue: on the kernel's file systems, a descriptor that has written all of its file returns from
  \<open>read\<close> the oldest bytes not read yet, appends with \<open>write\<close> as many bytes as the file system has room for, and
  \<open>canReadXbytes\<close> tells how many are left; a descriptor of another file does not notice.
\<close>

theorem descriptor_queue:
  assumes "fd_at devs_inv devs_ok devs_content i pr p nd q" "sz \<le> length buf"
  shows "can_read i x pr = Some (x \<le> int (length q)) \<and>
    (\<exists>pr'. proc_read devs i n pr = Some (take n q, pr') \<and> fd_at devs_inv devs_ok devs_content i pr' p nd (drop n q)) \<and>
    (\<exists>k pr' nd'. proc_write devs i sz buf pr = Some (k, pr') \<and>
      k = min sz (devs_space (fstate (vfs pr)) nd - length (devs_content (fstate (vfs pr)) nd)) \<and>
      fd_at devs_inv devs_ok devs_content i pr' p nd' (q @ take k buf) \<and>
      (\<forall>j p2 nd2 q2. j \<noteq> i \<and> p2 \<noteq> p \<and> devs_apart nd nd2 \<and> fd_at devs_inv devs_ok devs_content j pr p2 nd2 q2 \<longrightarrow>
        fd_at devs_inv devs_ok devs_content j pr' p2 nd2 q2))"
proof (intro conjI)
  show "can_read i x pr = Some (x \<le> int (length q))" by (rule dv.fd_can_read [OF assms(1)])
  show "\<exists>pr'. proc_read devs i n pr = Some (take n q, pr') \<and> fd_at devs_inv devs_ok devs_content i pr' p nd (drop n q)"
    using dv.fd_read_queue [OF assms(1)] by blast
  define k where "k = min sz (devs_space (fstate (vfs pr)) nd - length (devs_content (fstate (vfs pr)) nd))"
  obtain pr' nd' where w: "proc_write devs i sz buf pr = Some (k, pr')" "fd_at devs_inv devs_ok devs_content i pr' p nd' (q @ take k buf)"
    using dv.fd_write_queue [OF assms] unfolding k_def by blast
  then show "\<exists>k pr' nd'. proc_write devs i sz buf pr = Some (k, pr') \<and>
      k = min sz (devs_space (fstate (vfs pr)) nd - length (devs_content (fstate (vfs pr)) nd)) \<and>
      fd_at devs_inv devs_ok devs_content i pr' p nd' (q @ take k buf) \<and>
      (\<forall>j p2 nd2 q2. j \<noteq> i \<and> p2 \<noteq> p \<and> devs_apart nd nd2 \<and> fd_at devs_inv devs_ok devs_content j pr p2 nd2 q2 \<longrightarrow>
        fd_at devs_inv devs_ok devs_content j pr' p2 nd2 q2)"
    using dv.fd_write_other [OF assms(1) _ _ _ _ assms(2) w(1)] unfolding k_def by blast
qed

text \<open>One descriptor at the file of the small disk, with one of its three bytes read.\<close>

definition demo_proc :: "Devices Proc" where
  "demo_proc = \<lparr>vfs = \<lparr>root = 0, heap = [Some demo_file], fstate = \<lparr>disk = demo_disk, fbdev = demo_fb\<rparr>\<rparr>,
     fileDescriptors = [\<lparr>readOffset = 1, writeOffset = 3, fileNode = Some 0\<rparr>]\<rparr>"

lemma demo_proc_at: "stdin_at demo_proc 0 demo_file [7, 7]"
  "devs_space (fstate (vfs demo_proc)) demo_file = 1536" "devs_content (fstate (vfs demo_proc)) demo_file = [7, 7, 7]"
proof -
  have f: "vfileSystem demo_file = Some 1" "resource demo_file = demo_res" "rinode demo_res = 0" "rsize demo_res = 3"
    by (simp_all add: demo_file_def demo_res_def)
  have i: "devs_inv (fstate (vfs demo_proc))" using demo_inv by (simp add: devs_inv_def demo_proc_def fb_ok_def demo_fb_def)
  show c: "devs_content (fstate (vfs demo_proc)) demo_file = [7, 7, 7]" using demo_contents by (simp add: devs_content_def f demo_proc_def)
  have o: "devs_ok (fstate (vfs demo_proc)) demo_file" using demo_valid by (simp add: devs_ok_def disk_ok_def f demo_proc_def)
  have "deref 0 (vfs demo_proc) = Some demo_file" by (simp add: deref_def demo_proc_def)
  then show "stdin_at demo_proc 0 demo_file [7, 7]" using i c o f by (simp add: fd_at_def) (simp add: demo_proc_def)
  have "room demo_disk 0 = 1536" by (simp add: room_def demo_free) (simp add: demo_disk_def)
  then show "devs_space (fstate (vfs demo_proc)) demo_file = 1536" by (simp add: devs_space_def f demo_proc_def)
qed

theorem descriptor_queue_witness:
  "can_read 0 2 demo_proc = Some True \<and> can_read 0 3 demo_proc = Some False \<and>
   (\<exists>pr'. proc_read devs 0 1 demo_proc = Some ([7], pr') \<and> stdin_at pr' 0 demo_file [7]) \<and>
   (\<exists>pr' nd'. proc_write devs 0 2 [8, 9] demo_proc = Some (2, pr') \<and> stdin_at pr' 0 nd' [7, 7, 8, 9])"
  using descriptor_queue [OF demo_proc_at(1), of 2 "[8, 9]" 2 1] descriptor_queue [OF demo_proc_at(1), of 2 "[8, 9]" 3 1]
  unfolding demo_proc_at(2,3) by (simp add: numeral_eq_Suc) blast

end
