(* ===== verification/Snake.thy ===== *)
theory Snake
  imports File_Desc
begin

text \<open>
  The game of the terminal (\<open>snake\<close> and \<open>getchNoWait\<close> of \<open>kernel/include/demo/binaries.hpp\<close>): the tick, the drawing on the frame
  buffer and the game loop. The delay loop has no effect and is left out.
\<close>

section \<open>The game\<close>

record Game =
  snake :: "Vec2 list"
  apple :: Vec2
  vel :: Vec2

abbreviation (input) gridSize :: int where "gridSize \<equiv> 40"
abbreviation (input) dim :: Vec2 where "dim \<equiv> \<lparr>vx = gridSize, vy = gridSize\<rparr>"

definition new_Game :: Game where
  "new_Game = \<lparr>snake = [\<lparr>vx = 80, vy = 80\<rparr>], apple = \<lparr>vx = 200, vy = 200\<rparr>, vel = \<lparr>vx = 0, vy = 0\<rparr>\<rparr>"

definition getchNoWait :: "'f fsTable \<Rightarrow> 'f Proc \<Rightarrow> (int \<times> 'f Proc) option" where
  "getchNoWait fss pr = do {
     more \<leftarrow> can_read 0 4 pr;
     if more then do { (bytes, pr) \<leftarrow> proc_read fss 0 4 pr; Some (key_of_bytes bytes, pr) }
     else Some (KEY_UNKNOWN, pr) }"

definition turn :: "int \<Rightarrow> Vec2 \<Rightarrow> Vec2" where
  "turn input v =
    (if input = KEY_W then \<lparr>vx = 0, vy = - gridSize\<rparr>
     else if input = KEY_S then \<lparr>vx = 0, vy = gridSize\<rparr>
     else if input = KEY_A then \<lparr>vx = - gridSize, vy = 0\<rparr>
     else if input = KEY_D then \<lparr>vx = gridSize, vy = 0\<rparr>
     else v)"

text \<open>A coordinate of the next apple: the sum is one of \<open>size_t\<close>.\<close>

definition next_apple :: "int \<Rightarrow> nat \<Rightarrow> int \<Rightarrow> int" where
  "next_apple a n m = (let a = sint (ucast ((word_of_int a + of_nat n * 500 :: u64) mod word_of_int m) :: u32) in (a div gridSize) * gridSize)"

definition tick :: "int \<Rightarrow> Game \<Rightarrow> Game" where
  "tick input g =
    (let v = turn input (vel g);
         sn = rev (snake g);
         head = last sn;
         sn = sn @ [\<lparr>vx = vx head + vx v, vy = vy head + vy v\<rparr>];
         head = last sn;
         del = (head \<noteq> apple g);
         ap = (if del then apple g else \<lparr>vx = next_apple (vx (apple g)) (length sn) 1280, vy = next_apple (vy (apple g)) (length sn) 800\<rparr>);
         sn = rev sn;
         sn = (if del then butlast sn else sn)
     in \<lparr>snake = sn, apple = ap, vel = v\<rparr>)"

abbreviation (input) color_red :: Color where "color_red \<equiv> \<lparr>red = 0, green = 0, blue = 255, alpha = 255\<rparr>"
abbreviation (input) color_green :: Color where "color_green \<equiv> \<lparr>red = 0, green = 255, blue = 0, alpha = 255\<rparr>"
abbreviation (input) color_white :: Color where "color_white \<equiv> \<lparr>red = 255, green = 255, blue = 255, alpha = 255\<rparr>"
abbreviation (input) color_black :: Color where "color_black \<equiv> \<lparr>red = 0, green = 0, blue = 0, alpha = 255\<rparr>"

fun draw_tail :: "'f fsTable \<Rightarrow> FrameBuffer \<Rightarrow> Vec2 list \<Rightarrow> 'f VFS \<Rightarrow> 'f VFS option" where
  "draw_tail fss gfx [] s = Some s"
| "draw_tail fss gfx (c # cs) s = do { s \<leftarrow> fillRect fss gfx c dim color_green s; draw_tail fss gfx cs s }"

definition render :: "'f fsTable \<Rightarrow> FrameBuffer \<Rightarrow> Game \<Rightarrow> 'f VFS \<Rightarrow> 'f VFS option" where
  "render fss gfx g s = do {
     s \<leftarrow> fillRect fss gfx (apple g) dim color_red s;
     s \<leftarrow> fillRect fss gfx (hd (snake g)) dim \<lparr>red = 0, green = 165, blue = 255, alpha = 0\<rparr> s;
     draw_tail fss gfx (tl (snake g)) s }"

partial_function (option) snake_loop :: "'f fsTable \<Rightarrow> FrameBuffer \<Rightarrow> Game \<Rightarrow> int \<Rightarrow> 'f Proc \<Rightarrow> 'f Proc option" where
  "snake_loop fss gfx g input pr =
    (if input = KEY_ESCAPE then do { s \<leftarrow> clscr fss gfx color_black (vfs pr); Some (pr\<lparr>vfs := s\<rparr>) }
     else do {
       s \<leftarrow> clscr fss gfx color_white (vfs pr);
       (input, pr) \<leftarrow> getchNoWait fss (pr\<lparr>vfs := s\<rparr>);
       let g = tick input g;
       s \<leftarrow> render fss gfx g (vfs pr);
       snake_loop fss gfx g input (pr\<lparr>vfs := s\<rparr>) })"

declare snake_loop.simps [code]

definition snake_cmd :: "'f fsTable \<Rightarrow> 'f Proc \<Rightarrow> 'f Proc option" where
  "snake_cmd fss pr = do {
     (gfx, s) \<leftarrow> new_FrameBuffer fss 1280 800 (vfs pr);
     snake_loop fss gfx new_Game KEY_UNKNOWN (pr\<lparr>vfs := s\<rparr>) }"

section \<open>The tick\<close>

definition on_grid :: "Vec2 \<Rightarrow> bool" where
  "on_grid c \<longleftrightarrow> gridSize dvd vx c \<and> gridSize dvd vy c"

definition game_ok :: "Game \<Rightarrow> bool" where
  "game_ok g \<longleftrightarrow> snake g \<noteq> [] \<and> list_all on_grid (snake g) \<and> on_grid (vel g) \<and> on_grid (apple g) \<and>
     0 \<le> vx (apple g) \<and> vx (apple g) + gridSize \<le> 1280 \<and> 0 \<le> vy (apple g) \<and> vy (apple g) + gridSize \<le> 800"

lemma next_apple_range:
  assumes "m = 1280 \<or> m = 800"
  shows "gridSize dvd next_apple a n m" "0 \<le> next_apple a n m" "next_apple a n m + gridSize \<le> m"
proof -
  define w :: u64 where "w = (word_of_int a + of_nat n * 500) mod word_of_int m"
  have "unat w < nat m" using assms by (auto simp: w_def unat_mod)
  then have u: "unat w < nat m" "nat m < 2 ^ 31" "nat m mod 40 = 0" using assms by auto
  have "unat (ucast w :: u32) = unat w" using u by (simp add: unsigned_ucast_eq take_bit_nat_eq_self)
  then have "sint (ucast w :: u32) = int (unat w)" using u by (subst sint_u32_small) simp_all
  then have e: "next_apple a n m = int (unat w) div 40 * 40" by (simp add: next_apple_def w_def Let_def)
  show "gridSize dvd next_apple a n m" unfolding e by simp
  show "0 \<le> next_apple a n m" unfolding e by (simp add: pos_imp_zdiv_nonneg_iff)
  have "int (unat w) < m" using u(1) by linarith
  then show "next_apple a n m + gridSize \<le> m" unfolding e using assms by auto
qed

lemma turn_grid: "on_grid v \<Longrightarrow> on_grid (turn k v)"
  by (auto simp: turn_def on_grid_def)

text \<open>The game: a tick moves the head by one cell of the grid and drops the last cell of the snake unless the head has met the
  apple; every cell stays on the grid, and the apple stays on the grid and on the screen.
\<close>

theorem snake_tick:
  assumes "game_ok g"
  shows "game_ok new_Game \<and> game_ok (tick k g) \<and>
    (let h = hd (snake g); v = turn k (vel g); h' = \<lparr>vx = vx h + vx v, vy = vy h + vy v\<rparr>
     in snake (tick k g) = h' # (if h' = apple g then snake g else butlast (snake g)) \<and>
        (h' \<noteq> apple g \<longrightarrow> apple (tick k g) = apple g))"
proof -
  define v h where "v = turn k (vel g)" and "h = hd (snake g)"
  define h' where "h' = \<lparr>vx = vx h + vx v, vy = vy h + vy v\<rparr>"
  have g: "snake g \<noteq> []" "list_all on_grid (snake g)" "on_grid v" using assms turn_grid by (simp_all add: game_ok_def v_def)
  have l: "last (rev (snake g)) = h" using g(1) by (simp add: h_def last_rev)
  have sn: "snake (tick k g) = h' # (if h' = apple g then snake g else butlast (snake g))"
    using g(1) by (simp add: tick_def Let_def l v_def [symmetric] h'_def [symmetric] butlast_append)
  have ap: "apple (tick k g) = (if h' = apple g then
      \<lparr>vx = next_apple (vx (apple g)) (Suc (length (snake g))) 1280, vy = next_apple (vy (apple g)) (Suc (length (snake g))) 800\<rparr> else apple g)"
    by (simp add: tick_def Let_def l v_def [symmetric] h'_def [symmetric])
  have "on_grid h" using g(1,2) by (cases "snake g") (simp_all add: h_def)
  then have "on_grid h'" using g(3) by (simp add: on_grid_def h'_def)
  moreover have "list_all on_grid (butlast (snake g))" using g(2) by (auto simp: list_all_iff dest: in_set_butlastD)
  ultimately have "list_all on_grid (snake (tick k g))" using g(2) sn by simp
  moreover have "vel (tick k g) = v" by (simp add: tick_def Let_def v_def)
  ultimately have "game_ok (tick k g)"
    using assms g(3) sn ap next_apple_range [of 1280] next_apple_range [of 800] by (simp add: game_ok_def on_grid_def)
  moreover have "game_ok new_Game" by (simp add: game_ok_def new_Game_def on_grid_def)
  ultimately show ?thesis using sn ap by (simp add: Let_def v_def [symmetric] h_def [symmetric] h'_def [symmetric])
qed

theorem snake_tick_witness:
  "snake (tick KEY_D new_Game) = [\<lparr>vx = 120, vy = 80\<rparr>] \<and> game_ok (tick KEY_D new_Game)"
proof -
  have "game_ok new_Game" by (simp add: game_ok_def new_Game_def on_grid_def)
  from snake_tick [OF this, of KEY_D] show ?thesis by (simp add: Let_def) (simp add: new_Game_def turn_def)
qed

section \<open>Leaving the screen\<close>

lemma putRow_beyond:
  assumes "fbFile g = Some p" "deref p s = Some nd" "vfileSystem nd = Some 2" "length (fbBytes (dev s)) < unat (getOffset g pos)"
  shows "putRow devs g pos n col s = None"
  using assms by (auto simp: putRow_def file_write_def node_write_def devs_simps fb_write_def Let_def)

lemma fillRect_above:
  assumes "screen g p s" "vy pos < 0" "0 < vy dm" "length (fbBytes (dev s)) < unat (getOffset g pos)"
  shows "fillRect devs g pos dm col s = None"
proof -
  let ?y2 = "min (vy pos + vy dm - 1) (gheight g - 1)"
  obtain nd where nd: "fbFile g = Some p" "deref p s = Some nd" "vfileSystem nd = Some 2" and h: "0 \<le> gheight g"
    using assms(1) by (auto simp: screen_def)
  have "vy pos \<le> ?y2" using assms(2,3) h by linarith
  then have ys: "[vy pos..?y2] = vy pos # [vy pos + 1..?y2]" by (simp add: upto_rec1)
  have "getOffset g \<lparr>vx = vx pos, vy = vy pos\<rparr> = getOffset g pos" by (simp add: getOffset_def)
  then have "putRow devs g \<lparr>vx = vx pos, vy = vy pos\<rparr> n col s = None" for n
    using putRow_beyond [OF nd, of "\<lparr>vx = vx pos, vy = vy pos\<rparr>"] assms(4) by simp
  then show ?thesis unfolding fillRect_def Let_def ys by simp
qed

text \<open>
  C31: nothing keeps the snake on the screen: after three ticks upwards from the start the head is above the screen, and drawing it
  there writes outside of the frame buffer, close to 4 GiB behind its beginning.
\<close>

theorem snake_leaves_screen:
  assumes "screen gfx p s" "gwidth gfx = 1280" "length (fbBytes (dev s)) \<le> 2 ^ 31"
  shows "let h = hd (snake (tick KEY_W (tick KEY_W (tick KEY_W new_Game)))) in
    h = \<lparr>vx = 80, vy = - 40\<rparr> \<and> getOffset gfx h = - 204480 \<and> fillRect devs gfx h dim col s = None"
proof -
  have h: "hd (snake (tick KEY_W (tick KEY_W (tick KEY_W new_Game)))) = \<lparr>vx = 80, vy = - 40\<rparr>" by code_simp
  have o: "getOffset gfx \<lparr>vx = 80, vy = - 40\<rparr> = - 204480" using assms(2) by (simp add: getOffset_def)
  have "unat (- 204480 :: u32) = 4294762816" by simp
  then have "length (fbBytes (dev s)) < unat (getOffset gfx \<lparr>vx = 80, vy = - 40\<rparr>)" using assms(3) by (simp add: o)
  then have "fillRect devs gfx \<lparr>vx = 80, vy = - 40\<rparr> dim col s = None"
    using fillRect_above [OF assms(1), of "\<lparr>vx = 80, vy = - 40\<rparr>" dim] by simp
  then show ?thesis using o by (simp add: h)
qed

definition demo_display :: "Devices VFS" where
  "demo_display = \<lparr>root = 0, heap = [Some ((blank_vnode (Some 2))\<lparr>vtype := FILE\<rparr>)],
     fstate = \<lparr>disk = demo_disk, fbdev = \<lparr>fbBytes = replicate 4096000 0, fbWidth = 1280, fbHeight = 800, fbPitch = 5120, fbSize = 4096000, fbDeviceID = 2\<rparr>\<rparr>\<rparr>"

theorem snake_leaves_screen_witness:
  "fillRect devs \<lparr>gwidth = 1280, gheight = 800, fbFile = Some 0\<rparr> (hd (snake (tick KEY_W (tick KEY_W (tick KEY_W new_Game))))) dim color_green
     demo_display = None"
proof -
  have "screen \<lparr>gwidth = 1280, gheight = 800, fbFile = Some 0\<rparr> 0 demo_display"
    by (simp add: screen_def fb_ok_def demo_display_def deref_def)
  moreover have "length (fbBytes (dev demo_display)) \<le> 2 ^ 31" by (simp add: demo_display_def)
  moreover have "gwidth \<lparr>gwidth = 1280, gheight = 800, fbFile = Some 0\<rparr> = 1280" by simp
  ultimately show ?thesis using snake_leaves_screen unfolding Let_def by blast
qed

end
