(* ===== verification/Terminal.thy ===== *)
theory Terminal
  imports Snake
begin

text \<open>
  The terminal (\<open>kernel/include/demo/terminal.hpp\<close>) and its commands (\<open>demo/binaries.hpp\<close>). A command writes to descriptor 1 of the
  running thread and the terminal copies it to the console, which is a string here, as are the names. \<open>getch\<close> waits for a key in a loop; a
  loop that does not end is \<^const>\<open>None\<close>, and \<open>getch_spin\<close> is the same loop with the interrupts of the keyboard between its rounds.
  \<open>junk\<close> stands for the uninitialised bytes of a directory entry.
\<close>

section \<open>Commands (\<open>binaries.hpp\<close>)\<close>

record Command =
  bin :: string
  args :: "string list"

abbreviation (input) chunkSize :: nat where "chunkSize \<equiv> 2048"
abbreviation (input) newline :: string where "newline \<equiv> [CHR 0x0A]"
abbreviation (input) ESC :: char where "ESC \<equiv> CHR 0x1B"

text \<open>Character 0 of an empty string is its terminator.\<close>

definition formPath :: "string \<Rightarrow> string \<Rightarrow> string" where
  "formPath currDir relPath = (if relPath \<noteq> [] \<and> hd relPath = CHR ''/'' then relPath else currDir @ ''/'' @ relPath)"

definition echo_bytes :: "'f fsTable \<Rightarrow> u8 list \<Rightarrow> nat \<Rightarrow> 'f Proc \<Rightarrow> 'f Proc option" where
  "echo_bytes fss buffer sz pr = do { (_, pr) \<leftarrow> proc_write fss 1 sz buffer pr; Some pr }"

definition echo :: "'f fsTable \<Rightarrow> string \<Rightarrow> 'f Proc \<Rightarrow> 'f Proc option" where
  "echo fss data pr = do { (_, pr) \<leftarrow> proc_write fss 1 (length data) (map of_char data) pr; Some pr }"

definition open_path :: "'f fsTable \<Rightarrow> string \<Rightarrow> 'f Proc \<Rightarrow> (nat option \<times> 'f Proc) option" where
  "open_path fss path pr = do { (n, s) \<leftarrow> vfs_openNode fss path (vfs pr); Some (n, pr\<lparr>vfs := s\<rparr>) }"

definition strip_slashes :: "string \<Rightarrow> string" where
  "strip_slashes path = rev (dropWhile (\<lambda>c. c = CHR ''/'') (rev path))"

definition cd :: "'f fsTable \<Rightarrow> Command \<Rightarrow> string \<Rightarrow> 'f Proc \<Rightarrow> (string \<times> 'f Proc) option" where
  "cd fss cmd currDir pr =
    (if length (args cmd) \<noteq> 2 then do {
       pr \<leftarrow> echo fss ''Bad arguments to command. Usage: cd <dirname>'' pr;
       Some (currDir, pr) }
     else do {
       let path = formPath currDir (args cmd ! 1);
       (n, pr) \<leftarrow> open_path fss path pr;
       isDir \<leftarrow> (case n of None \<Rightarrow> Some False | Some p \<Rightarrow> do { nd \<leftarrow> deref p (vfs pr); Some (vtype nd = DIRECTORY) });
       if \<not> isDir then do { pr \<leftarrow> echo fss ''Directory not found.'' pr; Some (currDir, pr) }
       else do { pr \<leftarrow> echo fss ''Changed dir'' pr; Some (strip_slashes path, pr) } })"

text \<open>The loops of \<open>touch\<close> and \<open>mkdir\<close> differ in the type of the nodes and the message.\<close>

fun make_nodes :: "NodeType \<Rightarrow> string \<Rightarrow> 'f fsTable \<Rightarrow> u8 list \<Rightarrow> string \<Rightarrow> string list \<Rightarrow> 'f Proc \<Rightarrow> 'f Proc option" where
  "make_nodes ty msg fss junk currDir [] pr = Some pr"
| "make_nodes ty msg fss junk currDir (a # as) pr = do {
     let path = formPath currDir a;
     (_, s) \<leftarrow> vfs_make ty fss junk path (vfs pr);
     pr \<leftarrow> echo fss (msg @ path @ newline) (pr\<lparr>vfs := s\<rparr>);
     make_nodes ty msg fss junk currDir as pr }"

definition touch :: "'f fsTable \<Rightarrow> u8 list \<Rightarrow> Command \<Rightarrow> string \<Rightarrow> 'f Proc \<Rightarrow> 'f Proc option" where
  "touch fss junk cmd currDir pr =
    (if length (args cmd) < 2 then echo fss ''Please enter file name(s) to create'' pr
     else make_nodes FILE ''Created file: '' fss junk currDir (tl (args cmd)) pr)"

definition mkdir :: "'f fsTable \<Rightarrow> u8 list \<Rightarrow> Command \<Rightarrow> string \<Rightarrow> 'f Proc \<Rightarrow> 'f Proc option" where
  "mkdir fss junk cmd currDir pr =
    (if length (args cmd) < 2 then echo fss ''Please enter dir name(s) to create'' pr
     else make_nodes DIRECTORY ''Created dir: '' fss junk currDir (tl (args cmd)) pr)"

partial_function (option) cat_loop :: "'f fsTable \<Rightarrow> FileDescriptor \<Rightarrow> 'f Proc \<Rightarrow> 'f Proc option" where
  "cat_loop fss fd pr = do {
     more \<leftarrow> canReadXbytes 1 fd (vfs pr);
     if more then do {
       (bytes, fd) \<leftarrow> fd_read fss chunkSize fd (vfs pr);
       pr \<leftarrow> echo_bytes fss bytes (length bytes) pr;
       cat_loop fss fd pr }
     else Some pr }"

declare cat_loop.simps [code]

definition cat :: "'f fsTable \<Rightarrow> Command \<Rightarrow> string \<Rightarrow> 'f Proc \<Rightarrow> 'f Proc option" where
  "cat fss cmd currDir pr =
    (if length (args cmd) \<noteq> 2 then echo fss ''Bad arguments to command. Usage: cat <filename>'' pr
     else do {
       (n, pr) \<leftarrow> open_path fss (formPath currDir (args cmd ! 1)) pr;
       cat_loop fss (new_FileDescriptor n) pr })"

fun ls_loop :: "'f fsTable \<Rightarrow> nat list \<Rightarrow> 'f Proc \<Rightarrow> 'f Proc option" where
  "ls_loop fss [] pr = Some pr"
| "ls_loop fss (p # ps) pr = do {
     nd \<leftarrow> deref p (vfs pr);
     let nm = (if vtype nd = DIRECTORY then [ESC] @ ''[1;34m'' @ name nd @ [ESC] @ ''[0m'' else name nd);
     pr \<leftarrow> echo fss nm pr;
     pr \<leftarrow> echo fss '' '' pr;
     ls_loop fss ps pr }"

definition ls :: "'f fsTable \<Rightarrow> Command \<Rightarrow> string \<Rightarrow> 'f Proc \<Rightarrow> 'f Proc option" where
  "ls fss cmd currDir pr = do {
     (ps, s) \<leftarrow> vfs_readDir fss (currDir @ ''/'') (vfs pr);
     ls_loop fss ps (pr\<lparr>vfs := s\<rparr>) }"

text \<open>The arguments from the third on, with blanks between them.\<close>

fun join_args :: "string list \<Rightarrow> string" where
  "join_args [] = []"
| "join_args [a] = a"
| "join_args (a # b # as) = a @ '' '' @ join_args (b # as)"

definition fprint :: "'f fsTable \<Rightarrow> Command \<Rightarrow> string \<Rightarrow> 'f Proc \<Rightarrow> 'f Proc option" where
  "fprint fss cmd currDir pr =
    (if length (args cmd) < 3 then echo fss ''Bad arguments. Usage: fprint <filename> <data>'' pr
     else do {
       (n, pr) \<leftarrow> open_path fss (formPath currDir (args cmd ! 1)) pr;
       (case n of None \<Rightarrow> echo fss ''File not present'' pr
        | Some p \<Rightarrow> do {
            let data = join_args (drop 2 (args cmd));
            (_, s) \<leftarrow> file_write fss (Some p) 0 (length data) (map of_char data) (vfs pr);
            Some (pr\<lparr>vfs := s\<rparr>) }) })"

fun echo_all :: "'f fsTable \<Rightarrow> string list \<Rightarrow> 'f Proc \<Rightarrow> 'f Proc option" where
  "echo_all fss [] pr = Some pr"
| "echo_all fss (d # ds) pr = do { pr \<leftarrow> echo fss d pr; echo_all fss ds pr }"

definition help_cmd :: "'f fsTable \<Rightarrow> 'f Proc \<Rightarrow> 'f Proc option" where
  "help_cmd fss pr = echo_all fss
     [''Welcome to DimOS, will have a hard time finding a worse OS'' @ newline,
      ''Following commands are supported in this fake kernel space shell:'' @ newline,
      ''snake, ls, cd, help, pwd, cat, fprint, echo, mkdir, touch'' @ newline] pr"

definition stat :: "'f fsTable \<Rightarrow> Command \<Rightarrow> string \<Rightarrow> 'f Proc \<Rightarrow> 'f Proc option" where
  "stat fss cmd currDir pr =
    (if length (args cmd) \<noteq> 2 then echo fss ''Bad arguments. Usage: stat <file/dir name>'' pr
     else do {
       (n, pr) \<leftarrow> open_path fss (formPath currDir (args cmd ! 1)) pr;
       (case n of None \<Rightarrow> echo fss ''File/dir not found'' pr
        | Some p \<Rightarrow> do {
            nd \<leftarrow> deref p (vfs pr);
            pr \<leftarrow> echo_all fss [''Type: '', if vtype nd = DIRECTORY then ''directory'' else ''file'', newline, ''inode: ''] pr;
            nd \<leftarrow> deref p (vfs pr);
            pr \<leftarrow> echo_all fss [dec_digits (nat (rinode (resource nd))), newline, ''device:''] pr;
            nd \<leftarrow> deref p (vfs pr);
            pr \<leftarrow> echo_all fss [dec_digits (nat (rdeviceID (resource nd))), newline, ''size: ''] pr;
            nd \<leftarrow> deref p (vfs pr);
            echo fss (dec_digits (rsize (resource nd))) pr }) })"

section \<open>The terminal (\<open>terminal.hpp\<close>)\<close>

text \<open>\<open>tokens[0]\<close> exists: \<open>split\<close> returns at least one piece.\<close>

definition parseCommand :: "string \<Rightarrow> Command" where
  "parseCommand line = (let tokens = path_split CHR '' '' line in \<lparr>bin = hd tokens, args = tokens\<rparr>)"

definition execute :: "'f fsTable \<Rightarrow> u8 list \<Rightarrow> Command \<Rightarrow> string \<Rightarrow> 'f Proc \<Rightarrow> (string \<times> 'f Proc) option" where
  "execute fss junk cmd currDir pr =
    (let stay = map_option (\<lambda>pr. (currDir, pr)) in
     if bin cmd = ''cd'' then cd fss cmd currDir pr
     else if bin cmd = ''pwd'' then stay (echo fss (formPath currDir []) pr)
     else if bin cmd = ''echo'' then stay (if 1 < length (args cmd) then echo fss (args cmd ! 1) pr else None)
     else if bin cmd = ''ls'' then stay (ls fss cmd currDir pr)
     else if bin cmd = ''touch'' then stay (touch fss junk cmd currDir pr)
     else if bin cmd = ''mkdir'' then stay (mkdir fss junk cmd currDir pr)
     else if bin cmd = ''cat'' then stay (cat fss cmd currDir pr)
     else if bin cmd = ''fprint'' then stay (fprint fss cmd currDir pr)
     else if bin cmd = ''help'' then stay (help_cmd fss pr)
     else if bin cmd = ''stat'' then stay (stat fss cmd currDir pr)
     else if bin cmd = ''snake'' then stay (snake_cmd fss pr)
     else stay (echo fss (''Command doesn'' @ [CHR 0x27] @ ''t exist, type help to get help'') pr))"

text \<open>The loop of \<open>getch\<close> while no interrupt comes.\<close>

partial_function (option) getch_wait :: "'f Proc \<Rightarrow> 'f Proc option" where
  "getch_wait pr = do { more \<leftarrow> can_read 0 4 pr; if \<not> more then getch_wait pr else Some pr }"

declare getch_wait.simps [code]

definition getch :: "'f fsTable \<Rightarrow> 'f Proc \<Rightarrow> (int \<times> 'f Proc) option" where
  "getch fss pr = do {
     pr \<leftarrow> getch_wait pr;
     (bytes, pr) \<leftarrow> proc_read fss 0 4 pr;
     Some (key_of_bytes bytes, pr) }"

text \<open>The first rounds of that loop with the scan codes that interrupt each of them: it has returned a key, or it is still waiting.\<close>

datatype 'f Spin = Waiting Keyboard "'f Proc" | Returned int Keyboard "'f Proc"

fun getch_spin :: "'f fsTable \<Rightarrow> u8 list list \<Rightarrow> Keyboard \<Rightarrow> 'f Proc \<Rightarrow> 'f Spin option" where
  "getch_spin fss [] kb pr = Some (Waiting kb pr)"
| "getch_spin fss (bs # bss) kb pr = do {
     more \<leftarrow> can_read 0 4 pr;
     if \<not> more then do { (kb, pr) \<leftarrow> key_interrupts fss bs kb pr; getch_spin fss bss kb pr }
     else do { (bytes, pr) \<leftarrow> proc_read fss 0 4 pr; Some (Returned (key_of_bytes bytes) kb pr) } }"

partial_function (option) getChar :: "'f fsTable \<Rightarrow> Keyboard \<Rightarrow> 'f Proc \<Rightarrow> (u8 \<times> 'f Proc) option" where
  "getChar fss kb pr = do {
     (key, pr) \<leftarrow> getch fss pr;
     let ch = keyCodeToASCII kb key;
     if ch \<noteq> 0 then Some (ch, pr) else getChar fss kb pr }"

declare getChar.simps [code]

definition isPrintableASCII :: "u8 \<Rightarrow> bool" where
  "isPrintableASCII c \<longleftrightarrow> 32 \<le> sint c \<and> sint c < 127"

abbreviation (input) chr8 :: "u8 \<Rightarrow> char" where "chr8 c \<equiv> char_of (unat c)"

text \<open>The body of the loop of \<open>readLine\<close> after \<open>getch\<close>: the line and what it prints. \<open>pop_back\<close> of an empty string is undefined.\<close>

definition edit_key :: "Keyboard \<Rightarrow> int \<Rightarrow> string \<times> string \<Rightarrow> (string \<times> string) option" where
  "edit_key kb key st =
    (let (line, out) = st; c = keyCodeToASCII kb key in
     if isPrintableASCII c then Some (line @ [chr8 c], out @ [chr8 c])
     else if key = KEY_BACKSPACE then if line = [] then None else Some (butlast line, out @ [chr8 c])
     else Some (line, out))"

partial_function (option) readLine_loop :: "'f fsTable \<Rightarrow> Keyboard \<Rightarrow> string \<times> string \<Rightarrow> 'f Proc \<Rightarrow> ((string \<times> string) \<times> 'f Proc) option" where
  "readLine_loop fss kb st pr = do {
     (key, pr) \<leftarrow> getch fss pr;
     st \<leftarrow> edit_key kb key st;
     if key \<noteq> KEY_RETURN then readLine_loop fss kb st pr else Some (st, pr) }"

declare readLine_loop.simps [code]

text \<open>\<open>readLine(true)\<close>: the line, what it printed, and the process.\<close>

definition readLine :: "'f fsTable \<Rightarrow> Keyboard \<Rightarrow> 'f Proc \<Rightarrow> (string \<times> string \<times> 'f Proc) option" where
  "readLine fss kb pr = do { ((line, out), pr) \<leftarrow> readLine_loop fss kb ([], []) pr; Some (line, out @ newline, pr) }"

text \<open>The terminal prints what the command wrote, one chunk at a time.\<close>

partial_function (option) flush_output :: "'f fsTable \<Rightarrow> string \<Rightarrow> 'f Proc \<Rightarrow> (string \<times> 'f Proc) option" where
  "flush_output fss out pr = do {
     more \<leftarrow> can_read 1 1 pr;
     if more then do {
       (bytes, pr) \<leftarrow> proc_read fss 1 2048 pr;
       flush_output fss (out @ map chr8 bytes) pr }
     else Some (out, pr) }"

declare flush_output.simps [code]

definition new_Terminal :: "'f fsTable \<Rightarrow> u8 list \<Rightarrow> 'f Proc \<Rightarrow> 'f Proc option" where
  "new_Terminal fss junk pr = do { (_, s) \<leftarrow> vfs_mkdir fss junk ''/bin'' (vfs pr); Some (pr\<lparr>vfs := s\<rparr>) }"

text \<open>One round of the loop of \<open>run\<close>: directory, process and console text.\<close>

definition run_round :: "'f fsTable \<Rightarrow> u8 list \<Rightarrow> string \<Rightarrow> Keyboard \<Rightarrow> string \<Rightarrow> 'f Proc \<Rightarrow> (string \<times> string \<times> 'f Proc) option" where
  "run_round fss junk username kb currDir pr = do {
     let prompt = [ESC] @ ''[1;31m'' @ username @ '' @ '' @ currDir @ ''/ > '' @ [ESC] @ ''[0m'';
     (line, typed, pr) \<leftarrow> readLine fss kb pr;
     (currDir, pr) \<leftarrow> execute fss junk (parseCommand line) currDir pr;
     (out, pr) \<leftarrow> flush_output fss (prompt @ typed) pr;
     Some (currDir, out @ newline, pr) }"

section \<open>Reading a line\<close>

fun edit_keys :: "Keyboard \<Rightarrow> int list \<Rightarrow> string \<times> string \<Rightarrow> (string \<times> string) option" where
  "edit_keys kb [] st = Some st"
| "edit_keys kb (k # ks) st = do { st \<leftarrow> edit_key kb k st; edit_keys kb ks st }"

text \<open>What a line should be: every key is a character, a deletion or without effect. \<open>edited\<close> takes the strokes latest first; a deletion
  from an empty line has no result.\<close>

datatype Stroke = Ch char | Del | Skip

definition stroke :: "Keyboard \<Rightarrow> int \<Rightarrow> Stroke" where
  "stroke kb k = (let c = unat (keyCodeToASCII kb k) in
     if 32 \<le> c \<and> c \<le> 126 then Ch (char_of c) else if k = KEY_BACKSPACE then Del else Skip)"

fun edited :: "Stroke list \<Rightarrow> string option" where
  "edited [] = Some []"
| "edited (Ch c # ss) = map_option (\<lambda>line. line @ [c]) (edited ss)"
| "edited (Del # ss) = (case edited ss of None \<Rightarrow> None | Some line \<Rightarrow> if line = [] then None else Some (butlast line))"
| "edited (Skip # ss) = edited ss"

fun shown :: "Stroke list \<Rightarrow> string" where
  "shown [] = []"
| "shown (Ch c # ss) = c # shown ss"
| "shown (Del # ss) = CHR 0x08 # shown ss"
| "shown (Skip # ss) = shown ss"

lemma shown_append: "shown (ss @ [x]) = shown ss @ shown [x]"
  by (induction ss rule: shown.induct) simp_all

lemma printable_range: "isPrintableASCII c \<longleftrightarrow> 32 \<le> unat c \<and> unat c \<le> 126"
  unfolding isPrintableASCII_def by (rule u8_all) code_simp

lemma backspace_ascii: "keyCodeToASCII kb KEY_BACKSPACE = 8"
  by (auto simp: keyCodeToASCII_def isascii_def shiftSymbol_def Let_def)

lemma edit_key_spec:
  "edit_key kb k (line, out) = (case stroke kb k of Ch c \<Rightarrow> Some (line @ [c], out @ [c])
     | Del \<Rightarrow> if line = [] then None else Some (butlast line, out @ [CHR 0x08]) | Skip \<Rightarrow> Some (line, out))"
proof (cases "k = KEY_BACKSPACE")
  case True
  have "char_of (unat (8 :: u8)) = CHR 0x08" by code_simp
  then show ?thesis unfolding True edit_key_def stroke_def backspace_ascii printable_range Let_def by simp
next
  case False
  then show ?thesis by (simp add: edit_key_def stroke_def printable_range Let_def)
qed

lemma edit_keys_append: "edit_keys kb (ks @ js) st = do { st \<leftarrow> edit_keys kb ks st; edit_keys kb js st }"
  by (induction ks arbitrary: st) (auto intro: Option.bind_cong)

lemma edit_keys_spec:
  "edit_keys kb ks ([], []) = map_option (\<lambda>line. (line, shown (map (stroke kb) ks))) (edited (rev (map (stroke kb) ks)))"
proof (induction ks rule: rev_induct)
  case (snoc k ks)
  then show ?case
    by (cases "edited (rev (map (stroke kb) ks))"; cases "stroke kb k") (simp_all add: edit_keys_append edit_key_spec shown_append)
qed simp

definition is_int32 :: "int \<Rightarrow> bool" where
  "is_int32 k \<longleftrightarrow> - (2 ^ 31) \<le> k \<and> k < 2 ^ 31"

lemma key_roundtrip: "is_int32 key \<Longrightarrow> key_of_bytes (key_bytes key @ xs) = key"
  unfolding key_of_bytes_def key_bytes_def get_le4 is_int32_def
  by (simp only: signed_of_int) (simp add: signed_take_bit_int_eq_self)

lemma length_key_bytes [simp]: "length (key_bytes key) = 4"
  by (simp add: key_bytes_def)

lemma edit_return: "edit_key kb KEY_RETURN st = Some st"
  by (auto simp: edit_key_def keyCodeToASCII_def isascii_def shiftSymbol_def isPrintableASCII_def Let_def split: prod.splits)

text \<open>What an operation on one descriptor leaves alone.\<close>

definition same_but :: "nat \<Rightarrow> 'f Proc \<Rightarrow> 'f Proc \<Rightarrow> bool" where
  "same_but i pr pr' \<longleftrightarrow> vfs pr' = vfs pr \<and> length (fileDescriptors pr') = length (fileDescriptors pr) \<and>
     (\<forall>j. j \<noteq> i \<longrightarrow> fileDescriptors pr' ! j = fileDescriptors pr ! j)"

lemma same_but_refl [simp]: "same_but i pr pr"
  by (simp add: same_but_def)

lemma same_but_trans: "same_but i pr pr1 \<Longrightarrow> same_but i pr1 pr2 \<Longrightarrow> same_but i pr pr2"
  by (simp add: same_but_def)

lemma fd_at_same_but: "fd_at iv ok c j pr p nd q \<Longrightarrow> same_but i pr pr' \<Longrightarrow> j \<noteq> i \<Longrightarrow> fd_at iv ok c j pr' p nd q"
  by (simp add: fd_at_def same_but_def)

text \<open>A descriptor of a file that a command opened, with the part of it not read yet.\<close>

definition reads :: "('f \<Rightarrow> bool) \<Rightarrow> ('f \<Rightarrow> VNode \<Rightarrow> bool) \<Rightarrow> ('f \<Rightarrow> VNode \<Rightarrow> u8 list) \<Rightarrow>
    FileDescriptor \<Rightarrow> 'f Proc \<Rightarrow> nat \<Rightarrow> VNode \<Rightarrow> u8 list \<Rightarrow> bool" where
  "reads iv ok content fd pr p nd q \<longleftrightarrow> fileNode fd = Some p \<and> deref p (vfs pr) = Some nd \<and> iv (fstate (vfs pr)) \<and> ok (fstate (vfs pr)) nd \<and>
     rsize (resource nd) = length (content (fstate (vfs pr)) nd) \<and> unat (readOffset fd) \<le> length (content (fstate (vfs pr)) nd) \<and>
     q = drop (unat (readOffset fd)) (content (fstate (vfs pr)) nd)"

context isolated_files
begin

lemma read_same_but:
  assumes "at_fd i pr p nd q"
  obtains pr' where "proc_read fss i n pr = Some (take n q, pr')" "at_fd i pr' p nd (drop n q)" "same_but i pr pr'"
  using fd_read_queue [OF assms, of n] unfolding same_but_def by blast

lemma getch_queue:
  assumes "at_fd 0 pr p nd (key_bytes key @ q)" "is_int32 key"
  shows "\<exists>pr'. getch fss pr = Some (key, pr') \<and> at_fd 0 pr' p nd q \<and> same_but 0 pr pr'"
proof -
  obtain pr' where "proc_read fss 0 4 pr = Some (key_bytes key, pr')" "at_fd 0 pr' p nd q" "same_but 0 pr pr'"
    using read_same_but [OF assms(1), of 4] by auto
  moreover have "can_read 0 4 pr = Some True" using fd_can_read [OF assms(1), of 4] by simp
  moreover have "key_of_bytes (key_bytes key) = key" using key_roundtrip [OF assms(2), of "[]"] by simp
  moreover from calculation(4) have "getch_wait pr = Some pr" by (subst getch_wait.simps) simp
  ultimately show ?thesis by (auto simp: getch_def)
qed

text \<open>With less than a key to read the loop does not end.\<close>

lemma getch_waits:
  assumes "at_fd 0 pr p nd q" "length q < 4"
  shows "can_read 0 4 pr = Some False" "getch fss pr = None"
proof -
  show c: "can_read 0 4 pr = Some False" using fd_can_read [OF assms(1), of 4] assms(2) by simp
  have "getch_wait pr = None"
  proof (rule ccontr)
    assume "getch_wait pr \<noteq> None"
    then obtain pr' where w: "getch_wait pr = Some pr'" by blast
    have "can_read 0 4 pr = Some False \<longrightarrow> False"
      by (rule getch_wait.raw_induct [OF _ w]) (auto split: bind_splits if_splits)
    then show False using c by simp
  qed
  then show "getch fss pr = None" by (simp add: getch_def)
qed

text \<open>A key that comes while the loop waits ends it when the file has room for it.\<close>

lemma getch_spin_returns:
  assumes "at_fd 0 pr p nd []" "scancode kb = 0" "list_all in_table bs" "List.map_filter key_of_byte bs = [key]" "is_int32 key"
    "length (content (fstate (vfs pr)) nd) + 4 \<le> space (fstate (vfs pr)) nd"
  shows "\<exists>kb' pr' nd'. getch_spin fss [bs, bs'] kb pr = Some (Returned key kb' pr') \<and> at_fd 0 pr' p nd' []"
proof -
  obtain kb1 pr1 nd1 where k: "key_interrupts fss bs kb pr = Some (kb1, pr1)" "at_fd 0 pr1 p nd1 (key_bytes key)"
    using keys_to_stdin [OF assms(1-3) assms(4) [symmetric]] assms(6) by auto
  obtain pr2 where r: "proc_read fss 0 4 pr1 = Some (key_bytes key, pr2)" "at_fd 0 pr2 p nd1 []"
    using fd_read_queue [OF k(2), of 4] by (auto simp: key_bytes_def)
  have "can_read 0 4 pr = Some False" "can_read 0 4 pr1 = Some True"
    using fd_can_read [OF assms(1), of 4] fd_can_read [OF k(2), of 4] by (simp_all add: key_bytes_def)
  then have "getch_spin fss [bs, bs'] kb pr = Some (Returned key kb1 pr2)" using k(1) r(1) key_roundtrip [OF assms(5), of "[]"] by simp
  then show ?thesis using r(2) by blast
qed

text \<open>Without room it never ends: after any number of rounds, and whatever is typed during them, it is waiting.\<close>

lemma getch_spin_full:
  assumes "at_fd 0 pr p nd q" "space (fstate (vfs pr)) nd = length (content (fstate (vfs pr)) nd)" "length q < 4"
    "scancode kb = 0" "list_all (list_all in_table) bss"
  shows "\<exists>kb' pr' nd'. getch_spin fss bss kb pr = Some (Waiting kb' pr') \<and> at_fd 0 pr' p nd' q \<and>
    content (fstate (vfs pr')) nd' = content (fstate (vfs pr)) nd"
  using assms
proof (induction bss arbitrary: kb pr nd)
  case (Cons bs bss)
  have t: "list_all in_table bs" "list_all (list_all in_table) bss" using Cons.prems(5) by simp_all
  obtain kb1 pr1 nd1 where k: "key_interrupts fss bs kb pr = Some (kb1, pr1)" "scancode kb1 = 0" "at_fd 0 pr1 p nd1 q"
      "content (fstate (vfs pr1)) nd1 = content (fstate (vfs pr)) nd" "space (fstate (vfs pr1)) nd1 = space (fstate (vfs pr)) nd"
    using stdin_full [OF Cons.prems(1,2,4) t(1)] by blast
  have "space (fstate (vfs pr1)) nd1 = length (content (fstate (vfs pr1)) nd1)" using k(4,5) Cons.prems(2) by simp
  from Cons.IH [OF k(3) this Cons.prems(3) k(2) t(2)] show ?case
    using k(1,4) getch_waits(1) [OF Cons.prems(1,3)] by simp
qed auto

lemma readLine_loop_spec:
  assumes "at_fd 0 pr p nd (concat (map key_bytes (ks @ [KEY_RETURN])) @ q)" "KEY_RETURN \<notin> set ks" "list_all is_int32 ks"
  shows "case edit_keys kb ks st of None \<Rightarrow> readLine_loop fss kb st pr = None
    | Some st' \<Rightarrow> \<exists>pr'. readLine_loop fss kb st pr = Some (st', pr') \<and> at_fd 0 pr' p nd q \<and> same_but 0 pr pr'"
  using assms
proof (induction ks arbitrary: st pr)
  case Nil
  have "at_fd 0 pr p nd (key_bytes KEY_RETURN @ q)" "is_int32 KEY_RETURN" using Nil by (simp_all add: is_int32_def)
  from getch_queue [OF this] obtain pr' where "getch fss pr = Some (KEY_RETURN, pr')" "at_fd 0 pr' p nd q" "same_but 0 pr pr'" by blast
  then show ?case using edit_return by (subst readLine_loop.simps) simp
next
  case (Cons k ks)
  have "at_fd 0 pr p nd (key_bytes k @ concat (map key_bytes (ks @ [KEY_RETURN])) @ q)" "is_int32 k" using Cons.prems by simp_all
  from getch_queue [OF this] obtain pr1 where g: "getch fss pr = Some (k, pr1)"
    "at_fd 0 pr1 p nd (concat (map key_bytes (ks @ [KEY_RETURN])) @ q)" "same_but 0 pr pr1" by blast
  have k: "k \<noteq> KEY_RETURN" "KEY_RETURN \<notin> set ks" "list_all is_int32 ks" using Cons.prems(2,3) by auto
  have step: "readLine_loop fss kb st pr = do { st \<leftarrow> edit_key kb k st; readLine_loop fss kb st pr1 }"
    using g(1) k(1) by (subst readLine_loop.simps) simp
  show ?case
  proof (cases "edit_key kb k st")
    case (Some st1)
    then show ?thesis using Cons.IH [OF g(2) k(2,3), of st1] same_but_trans [OF g(3)] step by (auto split: option.splits)
  qed (simp add: step)
qed

lemma flush_output_spec:
  assumes "at_fd 1 pr p nd q"
  shows "\<exists>pr'. flush_output fss out pr = Some (out @ map chr8 q, pr') \<and> at_fd 1 pr' p nd [] \<and> same_but 1 pr pr'"
  using assms
proof (induction "length q" arbitrary: q pr out rule: less_induct)
  case less
  show ?case
  proof (cases "q = []")
    case True
    then have "flush_output fss out pr = Some (out, pr)"
      using fd_can_read [OF less.prems, of 1] by (subst flush_output.simps) simp
    then show ?thesis using True less.prems by simp
  next
    case False
    obtain pr1 where r: "proc_read fss 1 2048 pr = Some (take 2048 q, pr1)" "at_fd 1 pr1 p nd (drop 2048 q)" "same_but 1 pr pr1"
      by (rule read_same_but [OF less.prems])
    have step: "flush_output fss out pr = flush_output fss (out @ map chr8 (take 2048 q)) pr1"
      using fd_can_read [OF less.prems, of 1] r(1) False by (subst flush_output.simps) (simp add: Suc_le_eq)
    have l: "length (drop 2048 q) < length q" using False by (cases q) simp_all
    have "map chr8 (take 2048 q) @ map chr8 (drop 2048 q) = map chr8 q" by (simp flip: map_append)
    then show ?thesis
      using less.hyps [OF l r(2), of "out @ map chr8 (take 2048 q)"] same_but_trans [OF r(3)] unfolding step by auto
  qed
qed

text \<open>Writing to standard output.\<close>

lemma out_write:
  assumes "at_fd 1 pr p nd q" "length (content (fstate (vfs pr)) nd) + length bs \<le> space (fstate (vfs pr)) nd"
  obtains pr' nd' where "proc_write fss 1 (length bs) bs pr = Some (length bs, pr')" "at_fd 1 pr' p nd' (q @ bs)"
    "node_write fss (length (content (fstate (vfs pr)) nd)) (length bs) bs nd (fstate (vfs pr)) = Some (fstate (vfs pr'), nd', length bs)"
    "length (content (fstate (vfs pr')) nd') = length (content (fstate (vfs pr)) nd) + length bs"
    "space (fstate (vfs pr')) nd' = space (fstate (vfs pr)) nd"
proof -
  have m: "min (length bs) (space (fstate (vfs pr)) nd - length (content (fstate (vfs pr)) nd)) = length bs" using assms(2) by simp
  show thesis
    using fd_write_queue [OF assms(1) order_refl, of bs, unfolded m take_all [OF order_refl]] that by auto
qed

lemma echo_spec:
  assumes "at_fd 1 pr p nd q" "length (content (fstate (vfs pr)) nd) + length data \<le> space (fstate (vfs pr)) nd"
  shows "\<exists>pr' nd'. echo fss data pr = Some pr' \<and> at_fd 1 pr' p nd' (q @ map of_char data) \<and>
    (\<forall>j p2 nd2 q2. j \<noteq> 1 \<and> p2 \<noteq> p \<and> apart nd nd2 \<and> at_fd j pr p2 nd2 q2 \<longrightarrow> at_fd j pr' p2 nd2 q2)"
proof -
  have l: "length (content (fstate (vfs pr)) nd) + length (map of_char data :: u8 list) \<le> space (fstate (vfs pr)) nd" using assms(2) by simp
  obtain pr' nd' where w: "proc_write fss 1 (length (map of_char data :: u8 list)) (map of_char data) pr = Some (length (map of_char data :: u8 list), pr')"
      "at_fd 1 pr' p nd' (q @ map of_char data)"
    by (rule out_write [OF assms(1) l])
  then show ?thesis using fd_write_other [OF assms(1) _ _ _ _ order_refl w(1)] by (auto simp: echo_def)
qed

abbreviation read_by :: "FileDescriptor \<Rightarrow> 'f Proc \<Rightarrow> nat \<Rightarrow> VNode \<Rightarrow> u8 list \<Rightarrow> bool" where
  "read_by \<equiv> reads fs_inv ok content"

lemma reads_step:
  assumes "read_by fd pr p nd q"
  shows "canReadXbytes 1 fd (vfs pr) = Some (q \<noteq> [])"
    "\<exists>fd'. fd_read fss n fd (vfs pr) = Some (take n q, fd') \<and> read_by fd' pr p nd (drop n q)"
proof -
  let ?c = "content (fstate (vfs pr)) nd"
  have r: "unat (readOffset fd) \<le> length ?c" and q: "q = drop (unat (readOffset fd)) ?c" using assms by (simp_all add: reads_def)
  have b: "length ?c < 2 ^ 31" using assms space_bound [of "fstate (vfs pr)" nd] by (auto simp: reads_def)
  have "sint (readOffset fd) = int (unat (readOffset fd))" using r b by (intro sint_u32_small) linarith
  then have "1 \<le> int (length ?c) - sint (readOffset fd) \<longleftrightarrow> unat (readOffset fd) < length ?c" by linarith
  then show "canReadXbytes 1 fd (vfs pr) = Some (q \<noteq> [])" using assms by (auto simp: reads_def canReadXbytes_def)
  have "node_read fss (unat (readOffset fd)) n nd (fstate (vfs pr)) = Some (take n q)"
    unfolding q by (rule read_content) (use assms in \<open>simp_all add: reads_def\<close>)
  moreover have u: "unat (readOffset fd + of_nat (length (take n q))) = unat (readOffset fd) + length (take n q)"
    using r b q by (intro unat_add_small) simp
  moreover have "drop n q = drop (unat (readOffset fd) + length (take n q)) ?c" unfolding q by (simp add: min_def add.commute)
  ultimately show "\<exists>fd'. fd_read fss n fd (vfs pr) = Some (take n q, fd') \<and> read_by fd' pr p nd (drop n q)"
    using assms q r by (auto simp: reads_def fd_read_def)
qed

lemma cat_loop_spec:
  assumes "at_fd 1 pr p nd q" "read_by fd pr p2 nd2 bs" "p2 \<noteq> p" "apart nd nd2"
  shows "\<exists>pr' nd'. cat_loop fss fd pr = Some pr' \<and>
    at_fd 1 pr' p nd' (q @ take (space (fstate (vfs pr)) nd - length (content (fstate (vfs pr)) nd)) bs) \<and>
    deref p2 (vfs pr') = Some nd2 \<and> content (fstate (vfs pr')) nd2 = content (fstate (vfs pr)) nd2"
  using assms
proof (induction "length bs" arbitrary: bs fd pr nd q rule: less_induct)
  case less
  note can = reads_step(1) [OF less.prems(2)]
  show ?case
  proof (cases "bs = []")
    case True
    then have "cat_loop fss fd pr = Some pr" using can by (subst cat_loop.simps) simp
    then show ?thesis using True less.prems(1,2) by (auto simp: reads_def)
  next
    case False
    let ?b = "take 2048 bs"
    obtain fd1 where r: "fd_read fss 2048 fd (vfs pr) = Some (?b, fd1)" "read_by fd1 pr p2 nd2 (drop 2048 bs)"
      using reads_step(2) [OF less.prems(2)] by blast
    define m where "m = space (fstate (vfs pr)) nd - length (content (fstate (vfs pr)) nd)"
    define k where "k = min (length ?b) m"
    obtain pr1 nd1 where w: "proc_write fss 1 (length ?b) ?b pr = Some (k, pr1)" "at_fd 1 pr1 p nd1 (q @ take k ?b)"
        "node_write fss (length (content (fstate (vfs pr)) nd)) (length ?b) ?b nd (fstate (vfs pr)) = Some (fstate (vfs pr1), nd1, k)"
        "content (fstate (vfs pr1)) nd1 = content (fstate (vfs pr)) nd @ take k ?b"
        "space (fstate (vfs pr1)) nd1 = space (fstate (vfs pr)) nd"
      using fd_write_queue [OF less.prems(1) order_refl, of ?b] unfolding m_def [symmetric] k_def [symmetric] by blast
    have o: "fs_inv (fstate (vfs pr))" "ok (fstate (vfs pr)) nd" "deref p2 (vfs pr) = Some nd2" "ok (fstate (vfs pr)) nd2"
      using less.prems(1,2) by (simp_all add: fd_at_def reads_def)
    have ap: "apart nd1 nd2" using write_apart [OF o(1,2,4) less.prems(4) order_refl order_refl w(3)] less.prems(4) by blast
    have keep: "deref p2 (vfs pr1) = Some nd2" "ok (fstate (vfs pr1)) nd2" "content (fstate (vfs pr1)) nd2 = content (fstate (vfs pr)) nd2"
      using fd_write_node [OF less.prems(1) o(3,4) less.prems(3,4) order_refl w(1)] by blast+
    then have rd: "read_by fd1 pr1 p2 nd2 (drop 2048 bs)" using r(2) w(2) by (simp add: reads_def fd_at_def)
    have step: "cat_loop fss fd pr = cat_loop fss fd1 pr1"
      using can False r(1) w(1) by (subst cat_loop.simps) (simp add: echo_bytes_def)
    have "length (drop 2048 bs) < length bs" using False by (cases bs) simp_all
    note ih = less.hyps [OF this w(2) rd less.prems(3) ap]
    have "space (fstate (vfs pr1)) nd1 - length (content (fstate (vfs pr1)) nd1) = m - k" using w(4,5) by (simp add: m_def k_def)
    moreover have "take k ?b @ take (m - k) (drop 2048 bs) = take m bs"
      using take_add [of 2048 "m - 2048" bs] by (cases "length ?b \<le> m") (auto simp: k_def min_def split: if_splits)
    ultimately show ?thesis using ih keep(3) unfolding step m_def [symmetric] by (simp add: append_assoc)
  qed
qed

lemma fprint_write:
  fixes data :: "u8 list"
  assumes "fs_inv (fstate s)" "deref p s = Some nd" "ok (fstate s) nd"
  defines "k \<equiv> min (length data) (space (fstate s) nd)"
  shows "\<exists>s' nd'. file_write fss (Some p) 0 (length data) data s = Some (k, s') \<and> deref p s' = Some nd' \<and>
    fs_inv (fstate s') \<and> content (fstate s') nd' = take k data @ drop k (content (fstate s) nd)"
proof -
  obtain f' nd' where w: "node_write fss 0 (length data) data nd (fstate s) = Some (f', nd', k)"
      "fs_inv f'" "content f' nd' = take 0 (content (fstate s) nd) @ take k data @ drop (0 + k) (content (fstate s) nd)"
    using write_content [OF assms(1,3) le0 order_refl, of data] unfolding diff_zero k_def by blast
  then show ?thesis using deref_len [OF assms(2)] assms(2) by (auto simp: file_write_def set_node_def deref_def)
qed

end

section \<open>The commands and the terminal over the kernel's file systems\<close>

lemma chr8_of_char: "map chr8 (map of_char cs :: u8 list) = cs"
proof -
  have "chr8 (of_char c :: u8) = c" for c
  proof -
    have "unat (of_char c :: u8) = unat (of_nat (of_char c) :: u8)" by (simp only: of_nat_of_char)
    also have "\<dots> = of_char c" by (simp only: unat_of_nat) simp
    finally show ?thesis by (simp only: char_of_char)
  qed
  then show ?thesis by (simp add: map_idI)
qed

text \<open>The answer of a command that only answers.\<close>

definition reply :: "Command \<Rightarrow> string \<Rightarrow> string option" where
  "reply cmd currDir =
    (if bin cmd = ''pwd'' then Some (currDir @ ''/'')
     else if bin cmd = ''echo'' then if 1 < length (args cmd) then Some (args cmd ! 1) else None
     else if bin cmd \<in> set [''cd'', ''ls'', ''touch'', ''mkdir'', ''cat'', ''fprint'', ''help'', ''stat'', ''snake''] then None
     else Some (''Command doesn'' @ [CHR 0x27] @ ''t exist, type help to get help''))"

lemma execute_reply:
  assumes "reply cmd currDir = Some r"
  shows "execute fss junk cmd currDir pr = map_option (\<lambda>pr. (currDir, pr)) (echo fss r pr)"
  using assms by (auto simp: reply_def execute_def formPath_def split: if_splits)

definition prompt :: "string \<Rightarrow> string \<Rightarrow> string" where
  "prompt username currDir = [ESC] @ ''[1;31m'' @ username @ '' @ '' @ currDir @ ''/ > '' @ [ESC] @ ''[0m''"

abbreviation stdout_at :: "Devices Proc \<Rightarrow> nat \<Rightarrow> VNode \<Rightarrow> u8 list \<Rightarrow> bool" where
  "stdout_at \<equiv> fd_at devs_inv devs_ok devs_content 1"

lemma run_round_reply:
  assumes sin: "stdin_at pr p nd (concat (map key_bytes (ks @ [KEY_RETURN])) @ q)" "KEY_RETURN \<notin> set ks" "list_all is_int32 ks"
    and sout: "stdout_at pr p2 nd2 []" "p \<noteq> p2" "devs_apart nd2 nd"
    and cmd: "edit_keys kb ks ([], []) = Some (line, typed)" "reply (parseCommand line) currDir = Some r"
    and room: "length (devs_content (fstate (vfs pr)) nd2) + length r \<le> devs_space (fstate (vfs pr)) nd2"
  shows "\<exists>pr' nd2'. run_round devs junk username kb currDir pr =
      Some (currDir, prompt username currDir @ typed @ newline @ r @ newline, pr') \<and>
    stdin_at pr' p nd q \<and> stdout_at pr' p2 nd2' []"
proof -
  obtain pr1 where r1: "readLine_loop devs kb ([], []) pr = Some ((line, typed), pr1)" "stdin_at pr1 p nd q" "same_but 0 pr pr1"
    using dv.readLine_loop_spec [OF sin, of kb "([], [])"] cmd(1) by auto
  have o1: "stdout_at pr1 p2 nd2 []" by (rule fd_at_same_but [OF sout(1) r1(3)]) simp
  have v: "vfs pr1 = vfs pr" using r1(3) by (simp add: same_but_def)
  obtain pr2 nd2' where e: "echo devs r pr1 = Some pr2" "stdout_at pr2 p2 nd2' (map of_char r)" "stdin_at pr2 p nd q"
    using dv.echo_spec [OF o1, of r] room sout(2,3) r1(2) unfolding v by force
  obtain pr3 where f: "flush_output devs (prompt username currDir @ typed @ newline) pr2 =
        Some ((prompt username currDir @ typed @ newline) @ map chr8 (map of_char r), pr3)"
      "stdout_at pr3 p2 nd2' []" "same_but 1 pr2 pr3"
    using dv.flush_output_spec [OF e(2)] by blast
  have "run_round devs junk username kb currDir pr =
      Some (currDir, prompt username currDir @ typed @ newline @ r @ newline, pr3)"
    unfolding run_round_def readLine_def r1(1) Let_def
    using execute_reply [OF cmd(2), of devs junk pr1] e(1) f(1) by (simp add: prompt_def chr8_of_char del: map_map)
  then show ?thesis using f(2) fd_at_same_but [OF e(3) f(3)] by auto
qed


section \<open>A small system\<close>

text \<open>Standard input is the file of the small disk, read to its end; standard output is an empty file with one block.\<close>

definition demo_out_disk :: RamDisk where
  "demo_out_disk = (let d = fresh_node FILE 1 demo_disk in addBlock 1 (the (getFreeDataBlock d)) d)"

definition demo_out :: VNode where
  "demo_out = \<lparr>vtype = FILE, vfileSystem = Some 1, resource = \<lparr>rinode = 1, rsize = 0, rdeviceID = 1\<rparr>, name = ''o'', children = [], parent = Some 0\<rparr>"

definition demo_shell :: "Devices Proc" where
  "demo_shell = \<lparr>vfs = \<lparr>root = 0, heap = [Some (demo_root [1, 2] 2), Some demo_file, Some demo_out],
      fstate = \<lparr>disk = demo_out_disk, fbdev = demo_fb\<rparr>\<rparr>,
     fileDescriptors = [\<lparr>readOffset = 3, writeOffset = 3, fileNode = Some 1\<rparr>, \<lparr>readOffset = 0, writeOffset = 0, fileNode = Some 2\<rparr>]\<rparr>"

lemma demo_out_disk_facts:
  "disk_inv demo_out_disk" "valid demo_out_disk m \<longleftrightarrow> m = 0 \<or> m = 1" "contents demo_out_disk 0 = [7, 7, 7]" "contents demo_out_disk 1 = []"
  "0 < blocksInUse (nodes demo_out_disk ! 1)" "blocksInUse (nodes demo_out_disk ! 0) = 1"
proof -
  let ?d = "fresh_node FILE 1 demo_disk"
  have f: "1 < length (nodes demo_disk)" "\<not> valid demo_disk 1" by (simp_all add: demo_disk_def valid_def blank_node_def)
  note n = fresh_node_spec [OF demo_inv f, of FILE]
  have v: "valid ?d m \<longleftrightarrow> m = 0 \<or> m = 1" for m using n(2) demo_valid by auto
  have c: "contents ?d 1 = []" "contents ?d 0 = [7, 7, 7]" using n(3,4) demo_valid demo_contents by auto
  have b: "blocksInUse (nodes ?d ! 1) = 0" "freeCnt ?d = 2" using n(5,6) demo_free by auto
  have g: "\<not> (0 = blocksInUse (nodes ?d ! 1) \<and> getFreeDataBlock ?d = None)" using b by (simp add: getFreeDataBlock_None)
  have e: "demo_out_disk = (if 0 = blocksInUse (nodes ?d ! 1) then addBlock 1 (the (getFreeDataBlock ?d)) ?d else ?d)"
    using b by (simp add: demo_out_disk_def Let_def)
  have i: "disk_inv ?d" "valid ?d 1" using n(1) v by auto
  obtain fresh where o: "disk_inv demo_out_disk" "only_node 1 ?d demo_out_disk" "0 < blocksInUse (nodes demo_out_disk ! 1)"
      "nsize (nodes demo_out_disk ! 1) = nsize (nodes ?d ! 1)"
    by (rule ensure_block [OF i _ _ g e]) simp_all
  show "disk_inv demo_out_disk" "0 < blocksInUse (nodes demo_out_disk ! 1)" by (fact o)+
  show v': "valid demo_out_disk m \<longleftrightarrow> m = 0 \<or> m = 1" for m using only_node_valid [OF o(2)] v by simp
  show "contents demo_out_disk 0 = [7, 7, 7]" using only_node_contents [OF o(2), of 0] v c by simp
  have "length (contents demo_out_disk 1) = length (contents ?d 1)"
    using length_contents [OF o(1)] length_contents [OF i] v' o(4) by simp
  then show "contents demo_out_disk 1 = []" using c by simp
  have "nodes demo_out_disk ! 0 = nodes ?d ! 0" using o(2) by (simp add: only_node_def)
  then show "blocksInUse (nodes demo_out_disk ! 0) = 1" by (simp add: fresh_node_def updNode_def demo_disk_def)
qed

lemma demo_shell_facts:
  "stdin_at demo_shell 1 demo_file []" "stdout_at demo_shell 2 demo_out []" "devs_apart demo_out demo_file" "devs_apart demo_file demo_out"
  "devs_content (fstate (vfs demo_shell)) demo_file = [7, 7, 7]" "devs_content (fstate (vfs demo_shell)) demo_out = []"
  "512 \<le> devs_held (fstate (vfs demo_shell)) demo_out" "512 \<le> devs_space (fstate (vfs demo_shell)) demo_out"
  "512 \<le> devs_space (fstate (vfs demo_shell)) demo_file" "reaches (vfs demo_shell) ''/f'' 1"
proof -
  note d = demo_out_disk_facts
  have f: "vfileSystem demo_file = Some 1" "rinode (resource demo_file) = 0" "rsize (resource demo_file) = 3"
      "vfileSystem demo_out = Some 1" "rinode (resource demo_out) = 1" "rsize (resource demo_out) = 0"
    by (simp_all add: demo_file_def demo_res_def demo_out_def)
  have g: "fstate (vfs demo_shell) = \<lparr>disk = demo_out_disk, fbdev = demo_fb\<rparr>" by (simp add: demo_shell_def)
  show c: "devs_content (fstate (vfs demo_shell)) demo_file = [7, 7, 7]" "devs_content (fstate (vfs demo_shell)) demo_out = []"
    using d(3,4) by (simp_all add: g devs_content_def f)
  have i: "devs_inv (fstate (vfs demo_shell))" "devs_ok (fstate (vfs demo_shell)) demo_file" "devs_ok (fstate (vfs demo_shell)) demo_out"
    using d(1,2) by (simp_all add: g devs_inv_def fb_ok_def demo_fb_def devs_ok_def disk_ok_def f)
  have e: "deref 0 (vfs demo_shell) = Some (demo_root [1, 2] 2)" "deref 1 (vfs demo_shell) = Some demo_file" "deref 2 (vfs demo_shell) = Some demo_out"
    by (simp_all add: deref_def demo_shell_def)
  show "stdin_at demo_shell 1 demo_file []" "stdout_at demo_shell 2 demo_out []"
    using i c e f by (simp_all add: fd_at_def) (simp_all add: demo_shell_def)
  show "devs_apart demo_out demo_file" "devs_apart demo_file demo_out" by (simp_all add: devs_apart_def f)
  show h: "512 \<le> devs_held (fstate (vfs demo_shell)) demo_out" using d(5) by (simp add: g devs_held_def f)
  show "512 \<le> devs_space (fstate (vfs demo_shell)) demo_out" using dv.space_bound [OF i(1,3)] h by linarith
  show "512 \<le> devs_space (fstate (vfs demo_shell)) demo_file" by (simp add: g devs_space_def f room_def d(6))
  have r: "root (vfs demo_shell) = 0" by (simp add: demo_shell_def)
  show "reaches (vfs demo_shell) ''/f'' 1" unfolding reaches_def r
    by (simp add: e demo_paths demo_root_def demo_file_def del: One_nat_def)
qed


end
