(* ===== verification/Paging.thy ===== *)
theory Paging
  imports Dimos_Prelude
begin

text \<open>
  Paging structures (\<open>kernel/include/kernel/memory/paging.h\<close>, and the address arithmetic of
  \<open>vmm.h\<close>): page table entries with their flag bits, tables that keep their level in bits 9 and 10
  of entry 0, and the four table indices of a virtual address.
\<close>

section \<open>Entries\<close>

datatype FlagOffset = PRESENT_FLAG | WRITABLE | USER_ACCESSIBLE | CACHING | DISABLE_CACHE | ACCESSED
  | DIRTY | HUGE_PAGE | GLOBAL | NO_EXECUTE | TABLE_LEVEL | TABLE_LEVEL_2

fun flagBit :: "FlagOffset \<Rightarrow> nat" where
  "flagBit PRESENT_FLAG = 0" | "flagBit WRITABLE = 1" | "flagBit USER_ACCESSIBLE = 2" | "flagBit CACHING = 3"
| "flagBit DISABLE_CACHE = 4" | "flagBit ACCESSED = 5" | "flagBit DIRTY = 6" | "flagBit HUGE_PAGE = 7"
| "flagBit GLOBAL = 8" | "flagBit NO_EXECUTE = 63" | "flagBit TABLE_LEVEL = 9" | "flagBit TABLE_LEVEL_2 = 10"

type_synonym Entry = u64

abbreviation (input) physicalAddrMask :: u64 where "physicalAddrMask \<equiv> 0x000ffffffffff000"
abbreviation (input) defaultEntry :: Entry where "defaultEntry \<equiv> 0"
abbreviation (input) entryCnt :: nat where "entryCnt \<equiv> 512"

definition setFlags :: "u64 \<Rightarrow> Entry \<Rightarrow> Entry" where "setFlags flags e = e OR flags"
definition removeFlags :: "u64 \<Rightarrow> Entry \<Rightarrow> Entry" where "removeFlags flags e = e AND NOT flags"
definition testFlag :: "FlagOffset \<Rightarrow> Entry \<Rightarrow> bool" where
  "testFlag f e \<longleftrightarrow> drop_bit (flagBit f) e AND 1 \<noteq> 0"
definition getPhysicalAddr :: "Entry \<Rightarrow> u64" where "getPhysicalAddr e = e AND physicalAddrMask"
definition setPhysicalAdr :: "u64 \<Rightarrow> Entry \<Rightarrow> Entry" where
  "setPhysicalAdr addr e = removeFlags physicalAddrMask e OR (addr AND physicalAddrMask)"
definition isPresent :: "Entry \<Rightarrow> bool" where "isPresent e = testFlag PRESENT_FLAG e"

section \<open>Tables\<close>

record Table =
  entries :: "Entry list"
  nextTables :: "u64 list"

datatype TableLevel = LEVEL0 | LEVEL1 | LEVEL2 | LEVEL3

fun levelVal :: "TableLevel \<Rightarrow> u64" where
  "levelVal LEVEL0 = 0" | "levelVal LEVEL1 = 1" | "levelVal LEVEL2 = 2" | "levelVal LEVEL3 = 3"

definition setLevel :: "TableLevel \<Rightarrow> Table \<Rightarrow> Table" where
  "setLevel level t = t\<lparr>entries := (entries t)[0 :=
     setFlags (push_bit (flagBit TABLE_LEVEL) (levelVal level))
       (removeFlags (push_bit (flagBit TABLE_LEVEL) 1 OR push_bit (flagBit TABLE_LEVEL_2) 1) (entries t ! 0))]\<rparr>"

definition getLevel :: "Table \<Rightarrow> TableLevel" where
  "getLevel t = (let lo = testFlag TABLE_LEVEL (entries t ! 0); hi = testFlag TABLE_LEVEL_2 (entries t ! 0)
     in if hi then (if lo then LEVEL3 else LEVEL2) else (if lo then LEVEL1 else LEVEL0))"

definition table_init :: "TableLevel \<Rightarrow> Table \<Rightarrow> Table" where
  "table_init level t = setLevel level
     (fold (\<lambda>i t. t\<lparr>entries := (entries t)[i := defaultEntry], nextTables := (nextTables t)[i := 0]\<rparr>) [0..<entryCnt] t)"

section \<open>Virtual addresses\<close>

type_synonym IndexOffset = "u64 list"

definition getVirtualAddr :: "IndexOffset \<Rightarrow> u64" where
  "getVirtualAddr i =
     (let ans = push_bit 39 (i ! 0) OR push_bit 30 (i ! 1) OR push_bit 21 (i ! 2) OR push_bit 12 (i ! 3)
      in if ans \<ge> 0x800000000000 then ans OR 0xffff000000000000 else ans)"

definition nextPage :: "IndexOffset \<Rightarrow> IndexOffset" where
  "nextPage io = fst (fold (\<lambda>i (res, carry).
      let v = res ! i + carry in if v \<ge> 512 then (res[i := 0], 1) else (res[i := v], 0)) [3, 2, 1, 0] (io, 1))"

definition getI3 :: "u64 \<Rightarrow> u64" where "getI3 x = drop_bit 12 x AND 0x1ff"
definition getI2 :: "u64 \<Rightarrow> u64" where "getI2 x = drop_bit 21 x AND 0x1ff"
definition getI1 :: "u64 \<Rightarrow> u64" where "getI1 x = drop_bit 30 x AND 0x1ff"
definition getI0 :: "u64 \<Rightarrow> u64" where "getI0 x = drop_bit 39 x AND 0x1ff"

definition getIndexOffset :: "u64 \<Rightarrow> IndexOffset" where
  "getIndexOffset x = [getI0 x, getI1 x, getI2 x, getI3 x]"

section \<open>Bits of entries\<close>

lemma phys_mask: "(physicalAddrMask :: u64) = push_bit 12 (mask 40)"
  by (simp add: mask_eq_exp_minus_1)

lemma bit_phys_mask: "bit (physicalAddrMask :: u64) k \<longleftrightarrow> 12 \<le> k \<and> k < 52"
  unfolding phys_mask by (auto simp: bit_simps)

lemma testFlag_bit: "testFlag f e \<longleftrightarrow> bit e (flagBit f)"
  by (simp add: testFlag_def bit_iff_and_drop_bit_eq_1 and_one_eq mod2_eq_if)

lemma bit_setPhysicalAdr:
  "k < 64 \<Longrightarrow> bit (setPhysicalAdr a e) k \<longleftrightarrow> (if 12 \<le> k \<and> k < 52 then bit a k else bit e k)"
  unfolding setPhysicalAdr_def removeFlags_def phys_mask by (auto simp: bit_simps)

lemma mask9: "(0x1ff :: u64) = mask 9"
  by (simp add: mask_eq_exp_minus_1)

lemma bit_top16: "bit (0xffff000000000000 :: u64) k \<longleftrightarrow> 48 \<le> k \<and> k < 64"
proof -
  have e: "(0xffff000000000000 :: u64) = push_bit 48 (mask 16)" by (simp add: mask_eq_exp_minus_1)
  show ?thesis unfolding e by (auto simp: bit_simps)
qed

lemma bit_getPhysicalAddr: "bit (getPhysicalAddr e) k \<longleftrightarrow> 12 \<le> k \<and> k < 52 \<and> bit e k"
  unfolding getPhysicalAddr_def phys_mask by (auto simp: bit_simps)

lemma bit_ge_64: "64 \<le> k \<Longrightarrow> \<not> bit (w :: u64) k"
  using bit_imp_le_length by fastforce

section \<open>Entry and table contracts\<close>

text \<open>Page table entries: storing a physical address keeps every flag and the level bits of the
  entry, reading it back gives the address with bits 0-11 and 52-63 dropped, and setting flags never changes
  the stored address when the flags lie outside the address field.\<close>

theorem entry_address_flags:
  "getPhysicalAddr (setPhysicalAdr a e) = a AND 0x000ffffffffff000 \<and>
   testFlag f (setPhysicalAdr a e) = testFlag f e \<and>
   getPhysicalAddr (setFlags (push_bit (flagBit f) 1) e) = getPhysicalAddr e \<and>
   testFlag f (setFlags (push_bit (flagBit f) 1) e) \<and> \<not> testFlag f (removeFlags (push_bit (flagBit f) 1) e)"
proof (intro conjI)
  show "getPhysicalAddr (setPhysicalAdr a e) = a AND 0x000ffffffffff000"
    unfolding phys_mask
    by (rule bit_eqI) (auto simp: bit_getPhysicalAddr bit_setPhysicalAdr bit_simps)
  have f: "flagBit f < 12 \<or> 52 \<le> flagBit f" "flagBit f < 64" by (cases f; simp)+
  show "testFlag f (setPhysicalAdr a e) = testFlag f e"
    using f by (auto simp: testFlag_bit bit_setPhysicalAdr)
  show "getPhysicalAddr (setFlags (push_bit (flagBit f) 1) e) = getPhysicalAddr e"
    using f by (intro bit_eqI) (auto simp: bit_getPhysicalAddr setFlags_def bit_simps)
  show "testFlag f (setFlags (push_bit (flagBit f) 1) e)" "\<not> testFlag f (removeFlags (push_bit (flagBit f) 1) e)"
    using f by (auto simp: testFlag_bit setFlags_def removeFlags_def bit_simps)
qed

definition table_ok :: "Table \<Rightarrow> bool" where
  "table_ok t \<longleftrightarrow> length (entries t) = 512 \<and> length (nextTables t) = 512"

lemma getLevel_cong: "bit (entries t ! 0) 9 = bit (entries t' ! 0) 9 \<Longrightarrow> bit (entries t ! 0) 10 = bit (entries t' ! 0) 10 \<Longrightarrow>
  getLevel t = getLevel t'"
  by (simp add: getLevel_def testFlag_bit)

lemma getLevel_setLevel [simp]: "entries t \<noteq> [] \<Longrightarrow> getLevel (setLevel l t) = l"
  by (cases l) (simp_all add: getLevel_def setLevel_def testFlag_bit setFlags_def removeFlags_def bit_simps)

lemma fold_init:
  assumes "n \<le> length (entries t)" "n \<le> length (nextTables t)"
  shows "fold (\<lambda>i t. t\<lparr>entries := (entries t)[i := 0], nextTables := (nextTables t)[i := 0]\<rparr>) [0..<n] t =
    t\<lparr>entries := replicate n 0 @ drop n (entries t), nextTables := replicate n 0 @ drop n (nextTables t)\<rparr>"
  using assms
proof (induction n)
  case (Suc n)
  then show ?case
    by (simp add: list_update_append Cons_nth_drop_Suc [symmetric] replicate_append_same)
qed simp

text \<open>\<open>Table::init\<close> empties a table: no entry is present, every child pointer is null, the level
  read back from entry 0 is the one given, and a later address store into any entry keeps that level.\<close>

theorem table_init_correct:
  assumes "table_ok t"
  shows "table_ok (table_init l t) \<and> getLevel (table_init l t) = l \<and>
    (\<forall>i<512. \<not> isPresent (entries (table_init l t) ! i) \<and> nextTables (table_init l t) ! i = 0) \<and>
    (\<forall>i<512. \<forall>a. getLevel (table_init l t\<lparr>entries := (entries (table_init l t))[i := setPhysicalAdr a (entries (table_init l t) ! i)]\<rparr>) = l)"
proof -
  define z where "z = t\<lparr>entries := replicate 512 0, nextTables := replicate 512 0\<rparr>"
  have z: "table_init l t = setLevel l z"
    using assms by (simp add: table_init_def z_def fold_init table_ok_def)
  have ok: "table_ok (setLevel l z)" by (simp add: table_ok_def setLevel_def z_def)
  have lev: "getLevel (setLevel l z) = l" by (rule getLevel_setLevel) (simp add: z_def)
  have pr: "\<not> isPresent (entries (setLevel l z) ! i)" if "i < 512" for i
    using that by (cases i; cases l)
      (simp_all add: isPresent_def testFlag_bit setLevel_def setFlags_def removeFlags_def z_def bit_simps)
  have nt: "nextTables (setLevel l z) ! i = 0" if "i < 512" for i
    using that by (simp add: setLevel_def z_def)
  have "getLevel (t'\<lparr>entries := (entries t')[i := setPhysicalAdr a (entries t' ! i)]\<rparr>) = getLevel t'"
    if "i < 512" "table_ok t'" for i a t'
    using that by (intro getLevel_cong) (auto simp: nth_list_update table_ok_def bit_setPhysicalAdr)
  then show ?thesis unfolding z using ok lev pr nt by simp
qed

theorem table_init_correct_witness:
  "getLevel (table_init LEVEL2 \<lparr>entries = replicate 512 0xfff, nextTables = replicate 512 7\<rparr>) = LEVEL2"
  using table_init_correct [of "\<lparr>entries = replicate 512 0xfff, nextTables = replicate 512 7\<rparr>" LEVEL2]
  by (simp add: table_ok_def)

section \<open>Index arithmetic\<close>

definition valid_idx :: "IndexOffset \<Rightarrow> bool" where
  "valid_idx io \<longleftrightarrow> length io = 4 \<and> (\<forall>i<4. io ! i < 512)"

definition pageNo :: "IndexOffset \<Rightarrow> nat" where
  "pageNo io = ((unat (io ! 0) * 512 + unat (io ! 1)) * 512 + unat (io ! 2)) * 512 + unat (io ! 3)"

lemma bit_small:
  assumes "unat (w :: u64) < 2 ^ n" "bit w k"
  shows "k < n"
proof (rule ccontr)
  assume k: "\<not> k < n"
  have "unat (drop_bit n w) = unat w div 2 ^ n" 
    by (simp only: unat_drop_bit_eq) (simp add: drop_bit_eq_div)
  then have "unat (drop_bit n w) = 0" using assms(1) by simp
  then have "drop_bit n w = 0" by (simp add: unat_eq_0)
  moreover have "bit (drop_bit n w) (k - n)" using assms(2) k by (simp add: bit_drop_bit_eq)
  ultimately show False by simp
qed

lemma unat_push_small:
  assumes "unat (w :: u64) * 2 ^ n < 2 ^ 64"
  shows "unat (push_bit n w) = unat w * 2 ^ n"
proof -
  have "unat (push_bit n w) = take_bit 64 (push_bit n (unat w))" by (simp only: unsigned_push_bit_eq) simp
  then show ?thesis using assms by (simp add: push_bit_eq_mult take_bit_nat_eq_self)
qed

lemma unat_or_push:
  fixes v w :: u64
  assumes "unat w < 2 ^ n" "unat v * 2 ^ n + unat w < 2 ^ 64"
  shows "unat (push_bit n v OR w) = unat v * 2 ^ n + unat w"
proof -
  have "push_bit n v AND w = 0"
    by (rule bit_eqI) (use bit_small [OF assms(1)] in \<open>force simp: bit_simps\<close>)
  then have "push_bit n v OR w = push_bit n v + w" by (simp add: disjunctive_add_eq_or)
  then show ?thesis using assms(2) unat_push_small [of v n] by (simp add: unat_word_ariths)
qed

lemma idx_bounds:
  assumes "valid_idx io"
  obtains a b c d where "io = [a, b, c, d]" "unat a < 512" "unat b < 512" "unat c < 512" "unat d < 512"
proof -
  obtain a b c d where io: "io = [a, b, c, d]"
    using assms by (auto simp: valid_idx_def length_Suc_conv eval_nat_numeral)
  have "io ! 0 < 512" "io ! 1 < 512" "io ! 2 < 512" "io ! 3 < 512" using assms by (simp_all add: valid_idx_def)
  then show ?thesis using io by (intro that [of a b c d]) (simp_all add: word_less_nat_alt)
qed

lemma pageNo_bound: "valid_idx io \<Longrightarrow> pageNo io < 2 ^ 36"
  by (erule idx_bounds) (simp add: pageNo_def)

lemma unat_or4:
  fixes a b c d :: u64
  assumes "unat a < 512" "unat b < 512" "unat c < 512" "unat d < 512"
  shows "unat (push_bit 39 a OR push_bit 30 b OR push_bit 21 c OR push_bit 12 d) = pageNo [a, b, c, d] * 4096"
proof -
  have 0: "unat (push_bit 12 d) = unat d * 2 ^ 12" using assms by (intro unat_push_small) simp
  have 1: "unat (push_bit 21 c OR push_bit 12 d) = unat c * 2 ^ 21 + unat d * 2 ^ 12"
    using assms 0 by (subst unat_or_push) simp_all
  have 2: "unat (push_bit 30 b OR (push_bit 21 c OR push_bit 12 d)) = unat b * 2 ^ 30 + (unat c * 2 ^ 21 + unat d * 2 ^ 12)"
    using assms 1 by (subst unat_or_push) simp_all
  have "unat (push_bit 39 a OR (push_bit 30 b OR (push_bit 21 c OR push_bit 12 d))) =
      unat a * 2 ^ 39 + (unat b * 2 ^ 30 + (unat c * 2 ^ 21 + unat d * 2 ^ 12))"
    using assms 2 by (subst unat_or_push) simp_all
  then show ?thesis by (simp add: or.assoc pageNo_def)
qed

lemma unat_vaddr:
  assumes "valid_idx io"
  shows "unat (getVirtualAddr io) = pageNo io * 4096 + (if pageNo io < 2 ^ 35 then 0 else 2 ^ 64 - 2 ^ 48)"
proof -
  obtain a b c d where io: "io = [a, b, c, d]" and l: "unat a < 512" "unat b < 512" "unat c < 512" "unat d < 512"
    using assms by (rule idx_bounds)
  define w where "w = (push_bit 39 a OR push_bit 30 b OR push_bit 21 c OR push_bit 12 d)"
  have w: "unat w = pageNo io * 4096" using unat_or4 [OF l] by (simp add: w_def io)
  have top: "(0xffff000000000000 :: u64) = push_bit 48 0xffff" by simp
  have small: "unat w < 2 ^ 48" using w pageNo_bound [OF assms] by simp
  have "unat (push_bit 48 0xffff OR w) = unat (0xffff :: u64) * 2 ^ 48 + unat w"
    using small w pageNo_bound [OF assms] by (intro unat_or_push) simp_all
  then have hi: "unat (w OR 0xffff000000000000) = pageNo io * 4096 + (2 ^ 64 - 2 ^ 48)"
    using w by (simp add: or.commute)
  have "w \<ge> 0x800000000000 \<longleftrightarrow> \<not> pageNo io < 2 ^ 35" using w by (simp add: word_le_nat_alt not_less)
  then show ?thesis using w hi by (simp add: getVirtualAddr_def w_def io Let_def)
qed

lemma unat_plus_one_small: "unat (x :: u64) < 512 \<Longrightarrow> unat (x + 1) = unat x + 1"
  by (simp add: unat_word_ariths)

lemma nextPage_pageNo:
  assumes "valid_idx io"
  shows "valid_idx (nextPage io)" "pageNo (nextPage io) = (pageNo io + 1) mod 2 ^ 36"
proof -
  obtain a b c d where io: "io = [a, b, c, d]" and l: "unat a < 512" "unat b < 512" "unat c < 512" "unat d < 512"
    using assms by (rule idx_bounds)
  have u: "unat (x + 1) = unat x + 1" "512 \<le> x + 1 \<longleftrightarrow> unat x = 511" if "unat x < 512" for x :: u64
    using that unat_plus_one_small [of x] by (auto simp: word_le_nat_alt)
  have v: "\<not> 512 \<le> x" if "unat x < 512" for x :: u64 using that by (simp add: word_le_nat_alt)
  have n: "nextPage io = (if unat d \<noteq> 511 then [a, b, c, d + 1] else if unat c \<noteq> 511 then [a, b, c + 1, 0]
      else if unat b \<noteq> 511 then [a, b + 1, 0, 0] else if unat a \<noteq> 511 then [a + 1, 0, 0, 0] else [0, 0, 0, 0])"
    using u v l by (simp add: nextPage_def io Let_def)
  show "valid_idx (nextPage io)"
    unfolding n using l u by (auto simp: valid_idx_def word_less_nat_alt nth_Cons split: nat.splits)
  show "pageNo (nextPage io) = (pageNo io + 1) mod 2 ^ 36"
    unfolding n unfolding io using l u by (auto simp: pageNo_def)
qed

lemma unat_getI:
  "unat (getI0 x) = unat x div 2 ^ 39 mod 512" "unat (getI1 x) = unat x div 2 ^ 30 mod 512"
  "unat (getI2 x) = unat x div 2 ^ 21 mod 512" "unat (getI3 x) = unat x div 2 ^ 12 mod 512"
proof -
  have "unat (drop_bit n x AND 0x1ff) = unat x div 2 ^ n mod 512" for n
  proof -
    have "drop_bit n x AND 0x1ff = take_bit 9 (drop_bit n x)" by (simp only: mask9 take_bit_eq_mask)
    also have "unat \<dots> = take_bit 9 (drop_bit n (unat x))" by (simp only: unsigned_take_bit_eq unat_drop_bit_eq)
    finally show ?thesis by (simp add: take_bit_eq_mod drop_bit_eq_div)
  qed
  then show "unat (getI0 x) = unat x div 2 ^ 39 mod 512" "unat (getI1 x) = unat x div 2 ^ 30 mod 512"
    "unat (getI2 x) = unat x div 2 ^ 21 mod 512" "unat (getI3 x) = unat x div 2 ^ 12 mod 512"
    by (simp_all only: getI0_def getI1_def getI2_def getI3_def)
qed

lemma radix512:
  fixes n :: nat
  shows "((n div 512 div 512 div 512 mod 512 * 512 + n div 512 div 512 mod 512) * 512 + n div 512 mod 512) * 512 + n mod 512
    = n mod 2 ^ 36"
proof -
  have s: "m mod (512 * k) = m div 512 mod k * 512 + m mod 512" for m k :: nat
    using mod_mult2_eq [of m 512 k] by simp
  have "(2 :: nat) ^ 36 = 512 * (512 * (512 * 512))" by simp
  then show ?thesis by (simp only: s)
qed

lemma pageNo_inj:
  assumes "valid_idx io" "valid_idx io'" "pageNo io = pageNo io'"
  shows "io = io'"
proof -
  obtain a b c d where io: "io = [a, b, c, d]" and l: "unat a < 512" "unat b < 512" "unat c < 512" "unat d < 512"
    using assms(1) by (rule idx_bounds)
  obtain a' b' c' d' where io': "io' = [a', b', c', d']"
    and l': "unat a' < 512" "unat b' < 512" "unat c' < 512" "unat d' < 512"
    using assms(2) by (rule idx_bounds)
  have dig: "x * 512 + y = x' * 512 + y' \<Longrightarrow> y < 512 \<Longrightarrow> y' < 512 \<Longrightarrow> x = x' \<and> y = y'" for x y x' y' :: nat
  proof -
    assume e: "x * 512 + y = x' * 512 + y'" and y: "y < 512" "y' < 512"
    have "(x * 512 + y) div 512 = x" "(x' * 512 + y') div 512 = x'" using y by simp_all
    with e have "x = x'" by simp
    then show "x = x' \<and> y = y'" using e by simp
  qed
  have "((unat a * 512 + unat b) * 512 + unat c) * 512 + unat d = ((unat a' * 512 + unat b') * 512 + unat c') * 512 + unat d'"
    using assms(3) by (simp add: pageNo_def io io')
  from dig [OF this l(4) l'(4)] have 1: "(unat a * 512 + unat b) * 512 + unat c = (unat a' * 512 + unat b') * 512 + unat c'"
    and "unat d = unat d'" by auto
  moreover from dig [OF 1 l(3) l'(3)] have 2: "unat a * 512 + unat b = unat a' * 512 + unat b'" and "unat c = unat c'" by auto
  moreover from dig [OF 2 l(2) l'(2)] have "unat a = unat a'" "unat b = unat b'" by auto
  ultimately show ?thesis by (simp add: io io' word_unat_eq_iff)
qed

lemma pageNo_getIndexOffset:
  "valid_idx (getIndexOffset x)" "pageNo (getIndexOffset x) = unat x div 4096 mod 2 ^ 36"
proof -
  show "valid_idx (getIndexOffset x)"
    using unat_getI [of x] by (auto simp: valid_idx_def getIndexOffset_def word_less_nat_alt nth_Cons split: nat.splits)
  define n where "n = unat x div 4096"
  have n: "unat x div 2 ^ 39 = n div 512 div 512 div 512" "unat x div 2 ^ 30 = n div 512 div 512"
    "unat x div 2 ^ 21 = n div 512" "unat x div 2 ^ 12 = n"
    by (simp_all add: n_def div_mult2_eq [symmetric])
  show "pageNo (getIndexOffset x) = unat x div 4096 mod 2 ^ 36"
    using radix512 [of n] by (simp add: n_def [symmetric] pageNo_def getIndexOffset_def unat_getI [of x, unfolded n])
qed

lemma vaddr_getIndexOffset:
  assumes "unat x < 2 ^ 47 \<or> 2 ^ 64 - 2 ^ 47 \<le> unat x"
  shows "unat (getVirtualAddr (getIndexOffset x)) = unat x div 4096 * 4096"
proof -
  define q where "q = unat x div 4096"
  have gx: "unat (getVirtualAddr (getIndexOffset x)) = q mod 2 ^ 36 * 4096 + (if q mod 2 ^ 36 < 2 ^ 35 then 0 else 2 ^ 64 - 2 ^ 48)"
    using unat_vaddr [OF pageNo_getIndexOffset(1) [of x]] pageNo_getIndexOffset(2) [of x] by (simp add: q_def)
  have "unat x < 2 ^ 64" using unsigned_less [of x] by simp
  then have q: "q < 2 ^ 35 \<or> 2 ^ 52 - 2 ^ 35 \<le> q \<and> q < 2 ^ 52" 
    using assms by (auto simp: q_def div_less_iff_less_mult less_eq_div_iff_mult_less_eq)
  have "unat (getVirtualAddr (getIndexOffset x)) = q * 4096"
  proof (cases "q < 2 ^ 35")
    case False
    then obtain r where r: "q = r + 65535 * 2 ^ 36" "2 ^ 35 \<le> r" "r < 2 ^ 36"
      using q by (intro that [of "q - 65535 * 2 ^ 36"]) auto
    have "q mod 2 ^ 36 = r" unfolding r(1) using r(3) by (simp only: mod_mult_self1) simp
    then show ?thesis using gx r by simp
  qed (use gx in simp)
  then show ?thesis by (simp add: q_def)
qed

text \<open>C24: address arithmetic of the virtual memory manager: for every valid index quadruple the address
  has the quadruple back as its indices, for every canonical address the indices lead to the address of its
  page, and \<open>nextPage\<close> is the next page of the canonical address space: plus 4096 everywhere except at the
  last page of the lower half, where it continues at \<open>0xffff800000000000\<close>.\<close>

theorem index_address_arithmetic:
  assumes "valid_idx io" "unat x < 2 ^ 47 \<or> 2 ^ 64 - 2 ^ 47 \<le> unat x"
  shows "getIndexOffset (getVirtualAddr io) = io \<and>
    unat (getVirtualAddr (getIndexOffset x)) = unat x div 4096 * 4096 \<and>
    getVirtualAddr (nextPage io) =
      (if io = [255, 511, 511, 511] then 0xffff800000000000 else getVirtualAddr io + 4096)"
proof (intro conjI)
  note b = pageNo_bound [OF assms(1)]
  have "unat (getVirtualAddr io) div 4096 mod 2 ^ 36 = pageNo io"
  proof (cases "pageNo io < 2 ^ 35")
    case False
    have "unat (getVirtualAddr io) = (pageNo io + 65535 * 2 ^ 36) * 4096" using unat_vaddr [OF assms(1)] False by simp
    then have "unat (getVirtualAddr io) div 4096 = pageNo io + 65535 * 2 ^ 36" by simp
    then show ?thesis using b by (simp only: mod_mult_self1) simp
  qed (use unat_vaddr [OF assms(1)] b in simp)
  then show "getIndexOffset (getVirtualAddr io) = io"
    using pageNo_inj [OF _ assms(1)] pageNo_getIndexOffset by simp
  show "unat (getVirtualAddr (getIndexOffset x)) = unat x div 4096 * 4096" using assms(2) by (rule vaddr_getIndexOffset)
  have e: "io = [255, 511, 511, 511] \<longleftrightarrow> pageNo io = 2 ^ 35 - 1"
  proof
    assume "pageNo io = 2 ^ 35 - 1"
    moreover have "valid_idx [255, 511, 511, 511]" by (auto simp: valid_idx_def nth_Cons split: nat.splits)
    ultimately show "io = [255, 511, 511, 511]" by (intro pageNo_inj assms(1)) (simp_all add: pageNo_def)
  qed (simp add: pageNo_def)
  have nx: "unat (getVirtualAddr (nextPage io)) = (pageNo io + 1) mod 2 ^ 36 * 4096 +
      (if (pageNo io + 1) mod 2 ^ 36 < 2 ^ 35 then 0 else 2 ^ 64 - 2 ^ 48)"
    using unat_vaddr nextPage_pageNo [OF assms(1)] by simp
  show "getVirtualAddr (nextPage io) =
      (if io = [255, 511, 511, 511] then 0xffff800000000000 else getVirtualAddr io + 4096)"
    unfolding word_unat_eq_iff e
    using nx unat_vaddr [OF assms(1)] b by (auto simp: unat_word_ariths mod_Suc)
qed

theorem index_address_arithmetic_witness:
  "getVirtualAddr (nextPage [255, 511, 511, 511]) = 0xffff800000000000 \<and>
   getIndexOffset (getVirtualAddr [256, 0, 511, 511]) = [256, 0, 511, 511]"
proof -
  have v: "valid_idx [255, 511, 511, 511]" "valid_idx [256, 0, 511, 511]"
    by (auto simp: valid_idx_def nth_Cons split: nat.splits)
  show ?thesis using index_address_arithmetic [OF v(1), of 0] index_address_arithmetic [OF v(2), of 0] by simp
qed

end
