(* ===== verification/Vmm.thy ===== *)
theory Vmm
  imports Phys_Mem Paging Interrupts "HOL-Library.Monad_Syntax"
begin

text \<open>
  The virtual memory manager (\<open>kernel/kernel/memory/vmm.cpp\<close>, class \<open>VMM\<close> of \<open>vmm.h\<close>): the search for
  unmapped pages in four levels of tables, with and without creation of missing tables, start-up, allocation
  and release of pages. The state has, beside the members of the class, the tables in memory by their address
  (\<open>tables\<close>; a missing address is one that the code must not dereference), the physical memory manager it
  calls, the global \<open>HHDMOffset\<close>, and what the code tells the processor: register \<open>cr3\<close> and the addresses
  given to \<open>invlpg\<close>. Indices come from \<open>getIndexOffset\<close>, \<open>nextPage\<close> or constants, so they are below 512 and
  the \<open>int\<close> loop counters are natural numbers. \<^const>\<open>None\<close> is a panic, a stray pointer or a search that
  never ends.
\<close>

section \<open>State\<close>

datatype AllocScheme = NO_ALLOC | USE_PMM | USE_VMM

record VMM =
  pml4 :: u64
  availablePagesLH :: int
  availablePagesHH :: int
  physicalMemUsage :: MemRange
  HHDMOffset :: u64
  tables :: "u64 \<rightharpoonup> Table"
  phys :: PMM
  cr3 :: u64
  flushed :: "u64 list"

abbreviation (input) pageSize :: u64 where "pageSize \<equiv> 4096"
abbreviation (input) minAvailablePages :: int where "minAvailablePages \<equiv> 11"

fun levelIdx :: "TableLevel \<Rightarrow> nat" where
  "levelIdx LEVEL0 = 0" | "levelIdx LEVEL1 = 1" | "levelIdx LEVEL2 = 2" | "levelIdx LEVEL3 = 3"

fun nextLevel :: "TableLevel \<Rightarrow> TableLevel" where
  "nextLevel LEVEL0 = LEVEL1" | "nextLevel LEVEL1 = LEVEL2" | "nextLevel LEVEL2 = LEVEL3" | "nextLevel LEVEL3 = LEVEL3"

definition getAvailablePages :: "bool \<Rightarrow> VMM \<Rightarrow> int" where
  "getAvailablePages higherHalf v = (if higherHalf then availablePagesHH v else availablePagesLH v)"

text \<open>Both counters change in the same way in the code: one of them, chosen by a flag.\<close>

definition addAvailable :: "bool \<Rightarrow> int \<Rightarrow> VMM \<Rightarrow> VMM" where
  "addAvailable higherHalf d v =
     (if higherHalf then v\<lparr>availablePagesHH := availablePagesHH v + d\<rparr> else v\<lparr>availablePagesLH := availablePagesLH v + d\<rparr>)"

section \<open>Page table entries in memory\<close>

text \<open>A pointer to an entry is the address of its table and the index.\<close>

definition getPTE :: "VMM \<Rightarrow> IndexOffset \<Rightarrow> (u64 \<times> nat) option" where
  "getPTE v i = do {
     t0 \<leftarrow> tables v (pml4 v);
     t1 \<leftarrow> tables v (nextTables t0 ! unat (i ! 0));
     t2 \<leftarrow> tables v (nextTables t1 ! unat (i ! 1));
     Some (nextTables t2 ! unat (i ! 2), unat (i ! 3)) }"

fun readPTE :: "VMM \<Rightarrow> u64 \<times> nat \<Rightarrow> Entry option" where
  "readPTE v (a, i) = do { t \<leftarrow> tables v a; Some (entries t ! i) }"

fun updPTE :: "(Entry \<Rightarrow> Entry) \<Rightarrow> u64 \<times> nat \<Rightarrow> VMM \<Rightarrow> VMM option" where
  "updPTE f (a, i) v = do {
     t \<leftarrow> tables v a;
     Some (v\<lparr>tables := (tables v)(a \<mapsto> t\<lparr>entries := (entries t)[i := f (entries t ! i)]\<rparr>)\<rparr>) }"

definition presentWritable :: u64 where
  "presentWritable = push_bit (flagBit PRESENT_FLAG) 1 OR push_bit (flagBit WRITABLE) 1"

definition assignFrameToPage :: "u64 \<times> nat \<Rightarrow> u64 \<Rightarrow> bool \<Rightarrow> VMM \<Rightarrow> VMM option" where
  "assignFrameToPage pte frameAddr higherHalf v = do {
     v \<leftarrow> updPTE (\<lambda>e. setFlags presentWritable (setPhysicalAdr frameAddr e)) pte v;
     Some (addAvailable higherHalf (- 1) v) }"

section \<open>Search for unmapped pages\<close>

text \<open>
  \<open>getFirstUnallocPageUtil\<close> differs between the allocation schemes in how it gets the memory of a missing
  table: \<open>NO_ALLOC\<close> not at all, \<open>USE_PMM\<close> through the direct map, \<open>USE_VMM\<close> by a search with \<open>NO_ALLOC\<close> for two
  pages. The search therefore takes the source of table memory as an argument (physical and virtual address),
  and the schemes are defined one after the other.
\<close>

definition clearBelow :: "TableLevel \<Rightarrow> nat \<Rightarrow> IndexOffset \<Rightarrow> IndexOffset" where
  "clearBelow level i cur = (if i > unat (cur ! levelIdx level)
     then fold (\<lambda>j c. c[j := 0]) [levelIdx level + 1..<4] cur else cur)"

definition blankTable :: Table where
  "blankTable = \<lparr>entries = replicate 512 0, nextTables = replicate 512 0\<rparr>"

text \<open>The new table is initialised, which overwrites whatever its memory held (\<open>blankTable\<close> stands for it).\<close>

definition installTable :: "TableLevel \<Rightarrow> u64 \<Rightarrow> nat \<Rightarrow> IndexOffset \<Rightarrow> u64 \<Rightarrow> u64 \<Rightarrow> VMM \<Rightarrow> VMM option" where
  "installTable level table i original paddr nextTable v =
    (let v = v\<lparr>tables := (tables v)(nextTable \<mapsto> table_init (nextLevel level) blankTable)\<rparr>
     in do {
       v \<leftarrow> updPTE (\<lambda>e. setPhysicalAdr paddr (setFlags presentWritable e)) (table, i) v;
       t \<leftarrow> tables v table;
       let v = v\<lparr>tables := (tables v)(table \<mapsto> t\<lparr>nextTables := (nextTables t)[i := nextTable]\<rparr>)\<rparr>;
       Some (if nextLevel level = LEVEL3
             then addAvailable (getVirtualAddr original \<ge> HHDMOffset v) 512 v else v) })"

type_synonym table_source = "VMM \<Rightarrow> (u64 \<times> u64 \<times> VMM) option"

text \<open>The table below entry \<open>i\<close>: \<^term>\<open>Some None\<close> is the \<open>continue\<close> of a search that creates no tables.\<close>

definition ensureTable :: "table_source option \<Rightarrow> TableLevel \<Rightarrow> u64 \<Rightarrow> nat \<Rightarrow> IndexOffset \<Rightarrow> VMM \<Rightarrow> VMM option option" where
  "ensureTable alloc level table i original v = do {
     t \<leftarrow> tables v table;
     if isPresent (entries t ! i) then Some (Some v)
     else case alloc of
       None \<Rightarrow> Some None
     | Some source \<Rightarrow> do {
         (paddr, nextTable, v) \<leftarrow> source v;
         v \<leftarrow> installTable level table i original paddr nextTable v;
         Some (Some v) } }"

definition childTable :: "u64 \<Rightarrow> nat \<Rightarrow> VMM \<Rightarrow> (u64 \<times> TableLevel) option" where
  "childTable table i v = do {
     t \<leftarrow> tables v table;
     t' \<leftarrow> tables v (nextTables t ! i);
     Some (nextTables t ! i, getLevel t') }"

text \<open>One iteration of the loop for entry \<open>i\<close> of a table, then the rest of the loop.\<close>

partial_function (option) searchTable :: "table_source option \<Rightarrow> TableLevel \<Rightarrow> u64 \<Rightarrow> IndexOffset \<Rightarrow> nat \<Rightarrow>
    IndexOffset \<Rightarrow> VMM \<Rightarrow> (bool \<times> IndexOffset \<times> VMM) option" where
  [code]: "searchTable alloc level table original i cur v =
    (if 512 \<le> i then Some (False, cur, v)
     else let cur = clearBelow level i cur in
       if level = LEVEL3 then do {
         e \<leftarrow> readPTE v (table, i);
         if \<not> isPresent e then Some (True, cur[3 := of_nat i], v)
         else searchTable alloc level table original (i + 1) cur v }
       else do {
         r \<leftarrow> ensureTable alloc level table i original v;
         case r of
           None \<Rightarrow> searchTable alloc level table original (i + 1) cur v
         | Some v \<Rightarrow> do {
             (next, nlevel) \<leftarrow> childTable table i v;
             (done, cur, v) \<leftarrow> searchTable alloc nlevel next cur (unat (cur ! levelIdx nlevel)) cur v;
             if done then Some (True, cur[levelIdx level := of_nat i], v)
             else searchTable alloc level table original (i + 1) cur v } })"

definition searchFrom :: "table_source option \<Rightarrow> IndexOffset \<Rightarrow> u64 \<Rightarrow> VMM \<Rightarrow> (bool \<times> IndexOffset \<times> VMM) option" where
  "searchFrom alloc cur table v = do {
     t \<leftarrow> tables v table;
     searchTable alloc (getLevel t) table cur (unat (cur ! levelIdx (getLevel t))) cur v }"

definition firstUnalloc :: "table_source option \<Rightarrow> IndexOffset \<Rightarrow> VMM \<Rightarrow> (IndexOffset \<times> VMM) option" where
  "firstUnalloc alloc begin v = do {
     (done, begin, v) \<leftarrow> searchFrom alloc begin (pml4 v) v;
     Some (if done then begin else begin[0 := 0, 1 := 0, 2 := 0, 3 := 0], v) }"

partial_function (option) contiguousLoop :: "table_source option \<Rightarrow> int \<Rightarrow> int \<Rightarrow> IndexOffset \<Rightarrow> IndexOffset \<Rightarrow> VMM \<Rightarrow>
    (IndexOffset \<times> VMM) option" where
  [code]: "contiguousLoop alloc n done res prev v =
    (if done < n then do {
       (next, v) \<leftarrow> firstUnalloc alloc (nextPage prev) v;
       if getVirtualAddr (nextPage prev) = getVirtualAddr next
       then contiguousLoop alloc n (done + 1) res next v
       else contiguousLoop alloc n 1 next next v }
     else Some (res, v))"

definition firstNUnalloc :: "table_source option \<Rightarrow> IndexOffset \<Rightarrow> int \<Rightarrow> VMM \<Rightarrow> (IndexOffset \<times> VMM) option" where
  "firstNUnalloc alloc begin n v = do {
     (res, v) \<leftarrow> firstUnalloc alloc begin v;
     contiguousLoop alloc n 1 res res v }"

definition takeFrames :: "VMM \<Rightarrow> u64 \<times> VMM" where
  "takeFrames v = (let (paddr, p) = allocNFrames 2 (phys v); u = physicalMemUsage v
     in (paddr, v\<lparr>phys := p, physicalMemUsage := u\<lparr>mr_size := mr_size u + 8192\<rparr>\<rparr>))"

definition newTable_pmm :: table_source where
  "newTable_pmm v = (let (paddr, v) = takeFrames v in Some (paddr, paddr + HHDMOffset v, v))"

definition newTable_vmm :: table_source where
  "newTable_vmm v = (let (paddr, v) = takeFrames v in do {
     (first, v) \<leftarrow> firstNUnalloc None [256, 0, 0, 0] 2 v;
     pte \<leftarrow> getPTE v first;
     v \<leftarrow> updPTE (\<lambda>e. setPhysicalAdr paddr (setFlags presentWritable e)) pte v;
     pte \<leftarrow> getPTE v (nextPage first);
     v \<leftarrow> updPTE (\<lambda>e. setPhysicalAdr (paddr + 4096) (setFlags presentWritable e)) pte v;
     Some (paddr, getVirtualAddr first, addAvailable True (- 2) v) })"

fun tableSource :: "AllocScheme \<Rightarrow> table_source option" where
  "tableSource NO_ALLOC = None"
| "tableSource USE_PMM = Some newTable_pmm"
| "tableSource USE_VMM = Some newTable_vmm"

definition getFirstUnallocPageUtil :: "IndexOffset \<Rightarrow> AllocScheme \<Rightarrow> u64 \<Rightarrow> VMM \<Rightarrow> (bool \<times> IndexOffset \<times> VMM) option" where
  "getFirstUnallocPageUtil cur scheme table v = searchFrom (tableSource scheme) cur table v"

definition getFirstUnallocPage :: "IndexOffset \<Rightarrow> AllocScheme \<Rightarrow> VMM \<Rightarrow> (IndexOffset \<times> VMM) option" where
  "getFirstUnallocPage begin scheme v = firstUnalloc (tableSource scheme) begin v"

definition getFirstNUnallocPage :: "IndexOffset \<Rightarrow> AllocScheme \<Rightarrow> int \<Rightarrow> VMM \<Rightarrow> (IndexOffset \<times> VMM) option" where
  "getFirstNUnallocPage begin scheme n v = firstNUnalloc (tableSource scheme) begin n v"

section \<open>Allocation and release\<close>

fun assignFrames :: "nat \<Rightarrow> IndexOffset \<Rightarrow> VMM \<Rightarrow> VMM option" where
  "assignFrames 0 cur v = Some v"
| "assignFrames (Suc n) cur v =
    (let (frameAddr, p) = allocFrame (phys v); v = v\<lparr>phys := p\<rparr> in do {
       pte \<leftarrow> getPTE v cur;
       v \<leftarrow> assignFrameToPage pte frameAddr (getVirtualAddr cur \<ge> HHDMOffset v) v;
       assignFrames n (nextPage cur) v })"

definition allocPages :: "bool \<Rightarrow> bool \<Rightarrow> int \<Rightarrow> VMM \<Rightarrow> (u64 \<times> VMM) option" where
  "allocPages higherHalf doMinCheck reqPages v =
    (let availablePages = sint (word_of_int (getAvailablePages higherHalf v) :: 32 word);
         minReqPages = minAvailablePages + reqPages;
         beginOffset = (if higherHalf then [256, 0, 0, 0] else [0, 0, 0, 0])
     in do {
       v \<leftarrow> (if doMinCheck \<and> availablePages < minReqPages
             then do { (_, v) \<leftarrow> getFirstNUnallocPage beginOffset USE_VMM minReqPages v; Some v } else Some v);
       if frameCnt (phys v) - usedframes (phys v) < reqPages then None
       else do {
         (firstPageOffset, v) \<leftarrow> getFirstNUnallocPage beginOffset NO_ALLOC reqPages v;
         v \<leftarrow> assignFrames (nat reqPages) firstPageOffset v;
         Some (getVirtualAddr firstPageOffset, v) } })"

definition allocNPages :: "bool \<Rightarrow> int \<Rightarrow> VMM \<Rightarrow> (u64 \<times> VMM) option" where
  "allocNPages higherHalf n v = allocPages higherHalf True n v"

definition allocPage :: "bool \<Rightarrow> VMM \<Rightarrow> (u64 \<times> VMM) option" where
  "allocPage higherHalf v = allocPages higherHalf True 1 v"

definition invlpg :: "u64 \<Rightarrow> VMM \<Rightarrow> VMM" where
  "invlpg addr v = v\<lparr>flushed := flushed v @ [addr]\<rparr>"

definition freePage :: "u64 \<Rightarrow> VMM \<Rightarrow> VMM option" where
  "freePage addr v = (let idxOffset = getIndexOffset addr in do {
     pte \<leftarrow> getPTE v idxOffset;
     e \<leftarrow> readPTE v pte;
     let v = v\<lparr>phys := freeFrame (getPhysicalAddr e) (phys v)\<rparr>;
     v \<leftarrow> updPTE (\<lambda>_. defaultEntry) pte v;
     Some (invlpg addr (addAvailable (getVirtualAddr idxOffset \<ge> HHDMOffset v) 1 v)) })"

section \<open>Start-up\<close>

definition switchPML4 :: "u64 \<Rightarrow> VMM \<Rightarrow> bool \<times> VMM" where
  "switchPML4 table v = (if table = 0 then (False, v)
     else (True, v\<lparr>pml4 := table, cr3 := table - HHDMOffset v\<rparr>))"

partial_function (option) mapKernel :: "u64 \<Rightarrow> u64 \<Rightarrow> IndexOffset \<Rightarrow> VMM \<Rightarrow> VMM option" where
  [code]: "mapKernel st stop io v =
    (if st < stop then do {
       (io, v) \<leftarrow> getFirstUnallocPage io USE_PMM v;
       pte \<leftarrow> getPTE v io;
       v \<leftarrow> assignFrameToPage pte st True v;
       mapKernel (st + pageSize) stop io v }
     else Some v)"

text \<open>The range is passed by reference: the last call passes \<open>physicalMemUsage\<close> itself, which grows while
  its pages are mapped, so the bound is read from the state in each iteration.\<close>

partial_function (option) mapDirect :: "(VMM \<Rightarrow> MemRange) \<Rightarrow> u64 \<Rightarrow> VMM \<Rightarrow> VMM option" where
  [code]: "mapDirect rng st v =
    (if st < mr_start (rng v) + mr_size (rng v) then do {
       (identity, v) \<leftarrow> getFirstUnallocPage (getIndexOffset st) USE_PMM v;
       (hhdm, v) \<leftarrow> getFirstUnallocPage (getIndexOffset (st + HHDMOffset v)) USE_PMM v;
       pte \<leftarrow> getPTE v hhdm;
       v \<leftarrow> assignFrameToPage pte st True v;
       pte \<leftarrow> getPTE v identity;
       v \<leftarrow> assignFrameToPage pte st False v;
       mapDirect rng (st + pageSize) v }
     else Some v)"

definition setHHDMandIdentityPTE :: "(VMM \<Rightarrow> MemRange) \<Rightarrow> 'b Machine \<times> VMM \<Rightarrow> ('b Machine \<times> VMM) option" where
  "setHHDMandIdentityPTE rng = (\<lambda>(m, v). if mr_size (rng v) \<ge> pageSize
     then do {
       let m = printf_call (''[VMM] Mapping Physical range: %x, %x'' @ nl)
                 [IntArg (mr_start (rng v)), IntArg (mr_start (rng v) + mr_size (rng v))] m;
       v \<leftarrow> mapDirect rng (mr_start (rng v)) v;
       Some (m, v) }
     else Some (m, v))"

fun mapRanges :: "MemRange list \<Rightarrow> 'b Machine \<times> VMM \<Rightarrow> ('b Machine \<times> VMM) option" where
  "mapRanges [] s = Some s"
| "mapRanges (r # rs) s = do { s \<leftarrow> setHHDMandIdentityPTE (\<lambda>_. r) s; mapRanges rs s }"

text \<open>The gaps before, between and behind the available ranges.\<close>

fun usedRanges :: "u64 \<Rightarrow> u64 \<Rightarrow> MemRange list \<Rightarrow> MemRange list" where
  "usedRanges memEnd st [] = [\<lparr>mr_start = st, mr_size = memEnd - st\<rparr>]"
| "usedRanges memEnd st (r # rs) =
     \<lparr>mr_start = st, mr_size = mr_start r - st\<rparr> # usedRanges memEnd (mr_start r + mr_size r) rs"

definition vmm_init :: "u64 \<Rightarrow> PhysicalMemMap \<Rightarrow> MemRange list \<Rightarrow> 'b Machine \<times> VMM \<Rightarrow> ('b Machine \<times> VMM) option" where
  "vmm_init handler mm otherRanges = (\<lambda>(m, v). do {
     let (paddr, p) = allocNFrames 2 (phys v);
     let root = paddr + HHDMOffset v;
     let v = v\<lparr>phys := p, pml4 := root, tables := (tables v)(root \<mapsto> table_init LEVEL0 blankTable),
               physicalMemUsage := \<lparr>mr_start = paddr, mr_size = 8192\<rparr>\<rparr>;
     v \<leftarrow> mapKernel (kernelStart mm) (kernelStart mm + kernelSize mm) (getIndexOffset 0xffffffff80000000) v;
     let v = v\<lparr>availablePagesHH := 0, availablePagesLH := 0\<rparr>;
     s \<leftarrow> mapRanges (usedRanges (totalSize mm) 0 (take (unat (availMemArrCnt mm)) (availableMemArr mm))) (m, v);
     s \<leftarrow> mapRanges otherRanges s;
     (m, v) \<leftarrow> setHHDMandIdentityPTE physicalMemUsage s;
     (_, v) \<leftarrow> getFirstNUnallocPage [0, 0, 0, 0] USE_PMM minAvailablePages v;
     (_, v) \<leftarrow> getFirstNUnallocPage [256, 0, 0, 0] USE_PMM minAvailablePages v;
     let m = printf_call (''[VMM] Initialization finished with available pages-> HH: %l, LH: %l'' @ nl)
               [IntArg (word_of_int (availablePagesHH v)), IntArg (word_of_int (availablePagesLH v))] m;
     let (_, v) = switchPML4 (pml4 v) v;
     Some (registerInterruptHandler 14 handler m, v) })"

end
