(* ===== verification/Vmm_Search.thy ===== *)
theory Vmm_Search
  imports Vmm
begin

text \<open>
  The search of the virtual memory manager without creation of tables finds the first vacant page, and the
  search for \<open>n\<close> pages the first run. Pages are index lists in the order of their number.
\<close>

section \<open>Index lists as numbers\<close>

primrec num :: "nat list \<Rightarrow> nat" where
  "num [] = 0"
| "num (d # ds) = d * 512 ^ length ds + num ds"

definition digits :: "nat list \<Rightarrow> bool" where "digits ds \<longleftrightarrow> (\<forall>d\<in>set ds. d < 512)"

lemma digits_simps [simp]: "digits []" "digits (d # ds) \<longleftrightarrow> d < 512 \<and> digits ds"
  by (auto simp: digits_def)

lemma num_less: "digits ds \<Longrightarrow> num ds < 512 ^ length ds"
proof (induction ds)
  case (Cons d ds)
  then have "d * 512 ^ length ds + num ds < Suc d * 512 ^ length ds" by simp
  also have "\<dots> \<le> 512 * 512 ^ length ds" using Cons.prems by (intro mult_right_mono) simp_all
  finally show ?case by simp
qed simp

section \<open>Vacant pages\<close>

text \<open>A page is vacant when the tables on its way exist and its entry is not present.\<close>

fun vacant :: "VMM \<Rightarrow> u64 \<Rightarrow> nat list \<Rightarrow> bool" where
  "vacant v a [] = False"
| "vacant v a (i # s) = (case tables v a of None \<Rightarrow> False
     | Some t \<Rightarrow> if s = [] then \<not> isPresent (entries t ! i) else isPresent (entries t ! i) \<and> vacant v (nextTables t ! i) s)"

primrec subtree :: "VMM \<Rightarrow> nat \<Rightarrow> u64 \<Rightarrow> bool" where
  "subtree v 0 a = (\<exists>t. tables v a = Some t \<and> table_ok t \<and> getLevel t = LEVEL3)"
| "subtree v (Suc k) a = (\<exists>t. tables v a = Some t \<and> table_ok t \<and> levelIdx (getLevel t) + Suc k = 3 \<and>
     (\<forall>i<512. isPresent (entries t ! i) \<longrightarrow> subtree v k (nextTables t ! i)))"

definition none_from :: "VMM \<Rightarrow> u64 \<Rightarrow> nat \<Rightarrow> nat \<Rightarrow> bool" where
  "none_from v a k lo \<longleftrightarrow> (\<forall>s. length s = Suc k \<and> digits s \<and> vacant v a s \<longrightarrow> num s < lo)"

definition least_from :: "VMM \<Rightarrow> u64 \<Rightarrow> nat \<Rightarrow> nat \<Rightarrow> nat list \<Rightarrow> bool" where
  "least_from v a k lo s \<longleftrightarrow> length s = Suc k \<and> digits s \<and> vacant v a s \<and> lo \<le> num s \<and>
     (\<forall>s'. length s' = Suc k \<and> digits s' \<and> vacant v a s' \<and> lo \<le> num s' \<longrightarrow> num s \<le> num s')"

text \<open>Entry \<open>i\<close> holds no vacant page from \<open>lo\<close> on: the search goes on behind it.\<close>

definition skips :: "VMM \<Rightarrow> u64 \<Rightarrow> nat \<Rightarrow> nat \<Rightarrow> nat \<Rightarrow> bool" where
  "skips v a k i lo \<longleftrightarrow> i * 512 ^ k \<le> lo \<and> lo \<le> Suc i * 512 ^ k \<and>
     (\<forall>s. length s = k \<and> digits s \<and> vacant v a (i # s) \<longrightarrow> num (i # s) < lo)"

lemma skips_above:
  assumes "skips v a k i lo" "length s = Suc k" "digits s" "vacant v a s"
  shows "lo \<le> num s \<longleftrightarrow> Suc i * 512 ^ k \<le> num s"
proof -
  obtain d s' where s: "s = d # s'" "length s' = k" using assms(2) by (cases s) auto
  have lt: "num s' < 512 ^ k" using num_less [of s'] assms(3) s by simp
  consider "d < i" | "d = i" | "Suc i \<le> d" by linarith
  then show ?thesis
  proof cases
    case 1
    then have "num s < i * 512 ^ k" "i * 512 ^ k \<le> lo"
      using lt s assms(1) mult_le_mono1 [of "Suc d" i "512 ^ k"] by (auto simp: skips_def)
    then show ?thesis by (simp add: algebra_simps)
  next
    case 2
    then have "num s < lo" using assms s by (auto simp: skips_def)
    moreover have "num s < Suc i * 512 ^ k" using 2 lt s by simp
    ultimately show ?thesis by simp
  next
    case 3
    then have "Suc i * 512 ^ k \<le> num s" using s mult_le_mono1 [of "Suc i" d "512 ^ k"] by auto
    then show ?thesis using assms(1) by (auto simp: skips_def)
  qed
qed

lemma least_skip:
  assumes "skips v a k i lo" "least_from v a k (Suc i * 512 ^ k) s"
  shows "least_from v a k lo s"
  using assms(2) unfolding least_from_def by (simp add: skips_above [OF assms(1)] cong: conj_cong)

lemma none_skip:
  assumes "skips v a k i lo" "none_from v a k (Suc i * 512 ^ k)"
  shows "none_from v a k lo"
  using assms(2) skips_above [OF assms(1)] unfolding none_from_def by (metis not_less)

lemma least_child:
  assumes "tables v a = Some t" "isPresent (entries t ! i)" "i < 512" "least_from v (nextTables t ! i) k lo s"
  shows "least_from v a (Suc k) (i * 512 ^ Suc k + lo) (i # s)"
proof -
  have s: "length s = Suc k" "digits s" "vacant v (nextTables t ! i) s" "lo \<le> num s"
    using assms(4) by (auto simp: least_from_def)
  then have "vacant v a (i # s)" using assms(1,2) by auto
  moreover have "num (i # s) \<le> num s'"
    if s': "length s' = Suc (Suc k)" "digits s'" "vacant v a s'" "i * 512 ^ Suc k + lo \<le> num s'" for s'
  proof -
    obtain d r where r: "s' = d # r" "length r = Suc k" "d < 512" "digits r" using s' by (cases s') auto
    have lr: "num r < 512 ^ Suc k" "num s < 512 ^ Suc k" using num_less [of r] num_less [of s] r s by auto
    consider "d < i" | "d = i" | "i < d" by linarith
    then show ?thesis
    proof cases
      case 1
      then have "num s' < i * 512 ^ Suc k" using r lr mult_le_mono1 [of "Suc d" i "512 ^ Suc k"] by auto
      then show ?thesis using s'(4) by simp
    next
      case 2
      then have "vacant v (nextTables t ! i) r" "lo \<le> num r" using s' r assms(1) by (auto split: if_splits)
      then have "num s \<le> num r" using assms(4) r by (auto simp: least_from_def)
      then show ?thesis using 2 r s by simp
    next
      case 3
      then show ?thesis using r s lr mult_le_mono1 [of "Suc i" d "512 ^ Suc k"] by auto
    qed
  qed
  ultimately show ?thesis using s assms(3) unfolding least_from_def by simp
qed

section \<open>The loop over a table\<close>

abbreviation suffix_of :: "nat \<Rightarrow> IndexOffset \<Rightarrow> nat list" where
  "suffix_of l c \<equiv> drop l (map unat c)"

lemma valid_idx_digits: "valid_idx c \<longleftrightarrow> length c = 4 \<and> digits (map unat c)"
  by (auto simp: valid_idx_def digits_def word_less_nat_alt all_set_conv_all_nth)

lemma digits_drop: "digits s \<Longrightarrow> digits (drop n s)"
  by (auto simp: digits_def dest: in_set_dropD)

lemma pageNo_num: "valid_idx c \<Longrightarrow> pageNo c = num (map unat c)"
  by (erule idx_bounds) (simp add: pageNo_def algebra_simps)

lemma clearBelow_spec:
  assumes "valid_idx c"
  shows "valid_idx (clearBelow lv i c)" "take (Suc (levelIdx lv)) (clearBelow lv i c) = take (Suc (levelIdx lv)) c"
    "drop (Suc (levelIdx lv)) (clearBelow lv i c) =
      (if unat (c ! levelIdx lv) < i then replicate (3 - levelIdx lv) 0 else drop (Suc (levelIdx lv)) c)"
proof -
  obtain x0 x1 x2 x3 where c: "c = [x0, x1, x2, x3]" "unat x0 < 512" "unat x1 < 512" "unat x2 < 512" "unat x3 < 512"
    using assms by (rule idx_bounds)
  have u: "[Suc 0..<4] = [1, 2, 3]" "[Suc (Suc 0)..<4] = [2, 3]" "[3..<4] = [3 :: nat]" by (simp_all add: upt_rec)
  show "valid_idx (clearBelow lv i c)" "take (Suc (levelIdx lv)) (clearBelow lv i c) = take (Suc (levelIdx lv)) c"
    "drop (Suc (levelIdx lv)) (clearBelow lv i c) =
      (if unat (c ! levelIdx lv) < i then replicate (3 - levelIdx lv) 0 else drop (Suc (levelIdx lv)) c)"
    unfolding valid_idx_digits using c u by (cases lv; simp add: clearBelow_def numeral_2_eq_2 numeral_3_eq_3)+
qed

text \<open>Where the loop for entry \<open>i\<close> begins.\<close>

definition start_at :: "TableLevel \<Rightarrow> nat \<Rightarrow> IndexOffset \<Rightarrow> nat" where
  "start_at lv i c = num (i # suffix_of (Suc (levelIdx lv)) (clearBelow lv i c))"

definition search_result :: "VMM \<Rightarrow> u64 \<Rightarrow> TableLevel \<Rightarrow> nat \<Rightarrow> nat \<Rightarrow> IndexOffset \<Rightarrow> bool \<Rightarrow> IndexOffset \<Rightarrow> bool" where
  "search_result v a lv k lo c found c' \<longleftrightarrow> valid_idx c' \<and> take (levelIdx lv) c' = take (levelIdx lv) c \<and>
     (if found then least_from v a k lo (suffix_of (levelIdx lv) c')
      else take (Suc (levelIdx lv)) c' = take (Suc (levelIdx lv)) c \<and> none_from v a k lo)"

lemma num_zeros [simp]: "num (replicate n 0) = 0"
  by (induction n) simp_all

lemma digits_zeros [simp]: "digits (replicate n 0)"
  by (induction n) simp_all

lemma start_at_bounds:
  assumes "valid_idx c" "levelIdx lv + k = 3" "i < 512"
  shows "i * 512 ^ k \<le> start_at lv i c" "start_at lv i c < Suc i * 512 ^ k"
proof -
  let ?s = "suffix_of (Suc (levelIdx lv)) (clearBelow lv i c)"
  have v: "valid_idx (clearBelow lv i c)" by (rule clearBelow_spec [OF assms(1)])
  then have "length ?s = k" using assms(2) by (simp add: valid_idx_def)
  moreover have "digits ?s" using v by (simp add: valid_idx_digits digits_drop)
  ultimately show "i * 512 ^ k \<le> start_at lv i c" "start_at lv i c < Suc i * 512 ^ k"
    using num_less [of ?s] by (auto simp: start_at_def)
qed

lemma start_at_Suc:
  assumes "valid_idx c" "levelIdx lv + k = 3" "unat (c ! levelIdx lv) \<le> i"
  shows "start_at lv (Suc i) c = Suc i * 512 ^ k"
proof -
  have "3 - levelIdx lv = k" using assms(2) by simp
  then show ?thesis using clearBelow_spec(3) [OF assms(1), of lv "Suc i"] assms
    by (simp add: start_at_def drop_map map_replicate)
qed

lemma result_skip:
  assumes "skips v a k i lo" "search_result v a lv k (Suc i * 512 ^ k) c found c'"
    "take (Suc (levelIdx lv)) c = take (Suc (levelIdx lv)) c0"
  shows "search_result v a lv k lo c0 found c'"
proof -
  have "take (levelIdx lv) c = take (levelIdx lv) c0" using arg_cong [OF assms(3), of "take (levelIdx lv)"] by simp
  then show ?thesis using assms least_skip none_skip by (auto simp: search_result_def)
qed

lemma loop_end: "valid_idx c \<Longrightarrow> levelIdx lv + k = 3 \<Longrightarrow> none_from v a k (start_at lv 512 c)"
proof -
  have "num s < start_at lv 512 c" if "valid_idx c" "levelIdx lv + k = 3" "length s = Suc k" "digits s" for s
  proof -
    have "length (suffix_of (Suc (levelIdx lv)) (clearBelow lv 512 c)) = k"
      using that clearBelow_spec(1) [OF that(1), of lv 512] by (simp add: valid_idx_def)
    then show ?thesis using num_less [OF that(4)] that(3) by (simp add: start_at_def)
  qed
  then show "valid_idx c \<Longrightarrow> levelIdx lv + k = 3 \<Longrightarrow> none_from v a k (start_at lv 512 c)" by (simp add: none_from_def)
qed

lemma search_steps:
  assumes lv: "levelIdx lv + k = 3"
    and step: "\<And>i c. valid_idx c \<Longrightarrow> i < 512 \<Longrightarrow> unat (c ! levelIdx lv) \<le> i \<Longrightarrow>
      (\<exists>c'. searchTable None lv a orig i c v = Some (True, c', v) \<and> search_result v a lv k (start_at lv i c) c True c') \<or>
      (\<exists>c'. searchTable None lv a orig i c v = searchTable None lv a orig (Suc i) c' v \<and> valid_idx c' \<and>
        take (Suc (levelIdx lv)) c' = take (Suc (levelIdx lv)) c \<and> skips v a k i (start_at lv i c))"
  shows "valid_idx c \<Longrightarrow> i \<le> 512 \<Longrightarrow> unat (c ! levelIdx lv) \<le> i \<Longrightarrow>
    \<exists>d c'. searchTable None lv a orig i c v = Some (d, c', v) \<and> search_result v a lv k (start_at lv i c) c d c'"
proof (induction "512 - i" arbitrary: i c)
  case 0
  then have "searchTable None lv a orig i c v = Some (False, c, v)" by (subst searchTable.simps) simp
  moreover have "i = 512" using 0 by simp
  ultimately show ?case using 0 lv loop_end by (auto simp: search_result_def)
next
  case (Suc n)
  from Suc(2) have "i < 512" by simp
  from step [OF Suc(3) this Suc(5)] show ?case
  proof (elim disjE exE conjE)
    fix c' assume c': "searchTable None lv a orig i c v = searchTable None lv a orig (Suc i) c' v" "valid_idx c'"
      "take (Suc (levelIdx lv)) c' = take (Suc (levelIdx lv)) c" "skips v a k i (start_at lv i c)"
    have l: "levelIdx lv < Suc (levelIdx lv)" "levelIdx lv < 4" by (cases lv; simp)+
    have "c' ! levelIdx lv = c ! levelIdx lv"
      using arg_cong [OF c'(3), of "\<lambda>x. x ! levelIdx lv"] c'(2) Suc(3) l by (simp add: valid_idx_def)
    then have le: "unat (c' ! levelIdx lv) \<le> i" using Suc by simp
    have n: "n = 512 - Suc i" "Suc i \<le> 512" using Suc(2) by simp_all
    obtain d c'' where "searchTable None lv a orig (Suc i) c' v = Some (d, c'', v)"
      "search_result v a lv k (start_at lv (Suc i) c') c' d c''"
      using Suc(1) [OF n(1) c'(2) n(2)] le by auto
    then show ?thesis using c' result_skip [OF c'(4)] start_at_Suc [OF c'(2) lv le] by auto
  qed blast
qed

lemma search_leaf:
  assumes "subtree v 0 a" "valid_idx c" "i < 512"
  shows "(\<exists>c'. searchTable None LEVEL3 a orig i c v = Some (True, c', v) \<and> search_result v a LEVEL3 0 (start_at LEVEL3 i c) c True c') \<or>
      (\<exists>c'. searchTable None LEVEL3 a orig i c v = searchTable None LEVEL3 a orig (Suc i) c' v \<and> valid_idx c' \<and>
        take (Suc (levelIdx LEVEL3)) c' = take (Suc (levelIdx LEVEL3)) c \<and> skips v a 0 i (start_at LEVEL3 i c))"
proof -
  obtain t where t: "tables v a = Some t" using assms(1) by auto
  define cb where "cb = clearBelow LEVEL3 i c"
  have cb: "valid_idx cb" "take 4 cb = take 4 c" using clearBelow_spec [OF assms(2), of LEVEL3 i] by (simp_all add: cb_def)
  have len: "length cb = 4" "length c = 4" using cb assms(2) by (simp_all add: valid_idx_def)
  have st: "start_at LEVEL3 i c = i" using len by (simp add: start_at_def cb_def [symmetric])
  show ?thesis
  proof (cases "isPresent (entries t ! i)")
    case False
    have u: "unat (of_nat i :: u64) = i" using assms(3) by (simp add: unat_of_nat)
    obtain x0 x1 x2 x3 where c: "cb = [x0, x1, x2, x3]" "unat x0 < 512" "unat x1 < 512" "unat x2 < 512" "unat x3 < 512"
      using cb(1) by (rule idx_bounds)
    have "searchTable None LEVEL3 a orig i c v = Some (True, cb[3 := of_nat i], v)"
      using False t assms(3) by (subst searchTable.simps) (simp add: cb_def Let_def)
    moreover have "least_from v a 0 i [i]" using t False assms(3) by (auto simp: least_from_def length_Suc_conv)
    moreover have "take 3 cb = take 3 c" using arg_cong [OF cb(2), of "take 3"] by simp
    ultimately show ?thesis using c u assms(3) st by (auto simp: search_result_def valid_idx_digits)
  next
    case True
    then have "searchTable None LEVEL3 a orig i c v = searchTable None LEVEL3 a orig (Suc i) cb v"
      using t assms(3) by (subst searchTable.simps) (simp add: cb_def Let_def)
    moreover have "skips v a 0 i i" using t True by (simp add: skips_def)
    ultimately show ?thesis using cb st by auto
  qed
qed

lemma search_inner:
  assumes sub: "subtree v (Suc k) a" and lv: "levelIdx lv + Suc k = 3" and c: "valid_idx c" and i: "i < 512"
    and IH: "\<And>a lv c i orig. subtree v k a \<Longrightarrow> levelIdx lv + k = 3 \<Longrightarrow> valid_idx c \<Longrightarrow> i \<le> 512 \<Longrightarrow> unat (c ! levelIdx lv) \<le> i \<Longrightarrow>
      \<exists>d c'. searchTable None lv a orig i c v = Some (d, c', v) \<and> search_result v a lv k (start_at lv i c) c d c'"
  shows "(\<exists>c'. searchTable None lv a orig i c v = Some (True, c', v) \<and> search_result v a lv (Suc k) (start_at lv i c) c True c') \<or>
      (\<exists>c'. searchTable None lv a orig i c v = searchTable None lv a orig (Suc i) c' v \<and> valid_idx c' \<and>
        take (Suc (levelIdx lv)) c' = take (Suc (levelIdx lv)) c \<and> skips v a (Suc k) i (start_at lv i c))"
proof -
  let ?l = "levelIdx lv"
  obtain t where t: "tables v a = Some t" "table_ok t" "isPresent (entries t ! i) \<Longrightarrow> subtree v k (nextTables t ! i)"
    using sub i by auto
  have nl: "lv \<noteq> LEVEL3" and l3: "?l < 3" using lv by auto
  define cb where "cb = clearBelow lv i c"
  have cb: "valid_idx cb" "take (Suc ?l) cb = take (Suc ?l) c" using clearBelow_spec [OF c, of lv i] by (simp_all add: cb_def)
  have len: "length cb = 4" "length c = 4" using cb c by (simp_all add: valid_idx_def)
  note bounds = start_at_bounds [OF c lv i]
  show ?thesis
  proof (cases "isPresent (entries t ! i)")
    case False
    then have "ensureTable None lv a i orig v = Some None" using t by (simp add: ensureTable_def)
    then have "searchTable None lv a orig i c v = searchTable None lv a orig (Suc i) cb v"
      using i nl by (subst searchTable.simps) (simp add: cb_def Let_def)
    moreover have "skips v a (Suc k) i (start_at lv i c)"
      unfolding skips_def using bounds t False by auto
    ultimately show ?thesis using cb by auto
  next
    case True
    let ?a = "nextTables t ! i"
    obtain t' where t': "tables v ?a = Some t'" "levelIdx (getLevel t') + k = 3"
      using t(3) [OF True] by (cases k) auto
    have l': "levelIdx (getLevel t') = Suc ?l" using t'(2) lv by simp
    define j where "j = unat (cb ! Suc ?l)"
    have j: "j \<le> 512" using cb(1) l3 by (simp add: j_def valid_idx_def word_less_nat_alt less_imp_le)
    obtain d c' where r: "searchTable None (getLevel t') ?a cb j cb v = Some (d, c', v)"
      "search_result v ?a (getLevel t') k (start_at (getLevel t') j cb) cb d c'"
      using IH [OF t(3) [OF True] t'(2) cb(1) j, of cb] l' by (auto simp: j_def)
    have len': "length c' = 4" using r(2) by (simp add: search_result_def valid_idx_def)
    have k: "3 - ?l = Suc k" using lv by simp
    have "clearBelow (getLevel t') j cb = cb" by (simp add: clearBelow_def l' j_def)
    then have "start_at (getLevel t') j cb = num (suffix_of (Suc ?l) cb)"
      using len l3 by (simp add: start_at_def l' j_def Cons_nth_drop_Suc [symmetric])
    then have st: "start_at lv i c = i * 512 ^ Suc k + start_at (getLevel t') j cb"
      unfolding start_at_def cb_def [symmetric] using len lv k by (simp add: start_at_def)
    have e: "ensureTable None lv a i orig v = Some (Some v)" using t True by (simp add: ensureTable_def)
    have ch: "childTable a i v = Some (?a, getLevel t')" using t t' by (simp add: childTable_def)
    have eq: "searchTable None lv a orig i c v =
        (if d then Some (True, c'[?l := of_nat i], v) else searchTable None lv a orig (Suc i) c' v)"
      using i nl e ch r(1) by (subst searchTable.simps) (simp add: cb_def [symmetric] Let_def l' j_def)
    have tk: "take (Suc ?l) c' = take (Suc ?l) c" using r(2) cb(2) by (simp add: search_result_def l')
    have tk': "take ?l c' = take ?l c" using arg_cong [OF tk, of "take ?l"] by simp
    have u: "unat (of_nat i :: u64) = i" using i by (simp add: unat_of_nat)
    show ?thesis
    proof (cases d)
      case True
      have "suffix_of ?l (c'[?l := of_nat i]) = i # suffix_of (Suc ?l) c'"
        using len' l3 u by (simp add: drop_map drop_update_swap Cons_nth_drop_Suc [symmetric])
      moreover have "valid_idx (c'[?l := of_nat i])"
        using r(2) i u len' l3 by (auto simp: search_result_def valid_idx_def nth_list_update word_less_nat_alt)
      ultimately show ?thesis
        using True eq r(2) tk' least_child [OF t(1) \<open>isPresent (entries t ! i)\<close> i] st l' by (auto simp: search_result_def)
    next
      case False
      have "skips v a (Suc k) i (start_at lv i c)"
        unfolding skips_def using bounds t r(2) False st by (auto simp: search_result_def none_from_def split: if_splits)
      then show ?thesis using False eq r(2) tk by (auto simp: search_result_def)
    qed
  qed
qed

lemma search_loop:
  "subtree v k a \<Longrightarrow> levelIdx lv + k = 3 \<Longrightarrow> valid_idx c \<Longrightarrow> i \<le> 512 \<Longrightarrow> unat (c ! levelIdx lv) \<le> i \<Longrightarrow>
    \<exists>d c'. searchTable None lv a orig i c v = Some (d, c', v) \<and> search_result v a lv k (start_at lv i c) c d c'"
proof (induction k arbitrary: a lv c i orig)
  case 0
  then have lv: "lv = LEVEL3" by (cases lv) auto
  show ?case unfolding lv by (rule search_steps) (use 0 lv search_leaf [OF 0(1)] in auto)
next
  case (Suc k)
  show ?case by (rule search_steps [OF Suc(3)]) (use Suc search_inner [OF Suc(2,3) _ _ Suc(1)] in auto)
qed

text \<open>The pages of the manager, from its root.\<close>

definition vacant_page :: "VMM \<Rightarrow> IndexOffset \<Rightarrow> bool" where
  "vacant_page v io \<longleftrightarrow> valid_idx io \<and> vacant v (pml4 v) (map unat io)"

lemma first_vacant_spec:
  assumes "subtree v 3 (pml4 v)" "valid_idx io"
  shows "\<exists>r. firstUnalloc None io v = Some (r, v) \<and>
    (if \<exists>p. vacant_page v p \<and> pageNo io \<le> pageNo p
     then vacant_page v r \<and> pageNo io \<le> pageNo r \<and> (\<forall>p. vacant_page v p \<and> pageNo io \<le> pageNo p \<longrightarrow> pageNo r \<le> pageNo p)
     else r = [0, 0, 0, 0])"
proof -
  obtain t where t: "tables v (pml4 v) = Some t" "levelIdx (getLevel t) = 0"
    using assms(1) by (auto simp: numeral_3_eq_3)
  have lv: "getLevel t = LEVEL0" using t(2) by (cases "getLevel t") auto
  obtain x0 x1 x2 x3 where io: "io = [x0, x1, x2, x3]" "unat x0 < 512" using assms(2) by (rule idx_bounds)
  have st: "start_at LEVEL0 (unat x0) io = pageNo io"
    by (simp add: start_at_def clearBelow_def io pageNo_def algebra_simps)
  obtain d c where r: "searchTable None LEVEL0 (pml4 v) io (unat (io ! 0)) io v = Some (d, c, v)"
    "search_result v (pml4 v) LEVEL0 3 (pageNo io) io d c"
    using search_loop [OF assms(1) _ assms(2), of LEVEL0 "unat x0" io] io st by auto
  have c: "valid_idx c" using r(2) by (simp add: search_result_def)
  have z: "c[0 := 0, 1 := 0, 2 := 0, 3 := 0] = [0, 0, 0, 0]"
    using c by (rule idx_bounds) (simp add: numeral_2_eq_2 numeral_3_eq_3)
  have eq: "firstUnalloc None io v = Some (if d then c else [0, 0, 0, 0], v)"
    using t(1) lv r(1) z by (simp add: firstUnalloc_def searchFrom_def)
  have dig: "length (map unat p) = Suc 3 \<and> digits (map unat p)" if "valid_idx p" for p
    using that by (simp add: valid_idx_digits)
  show ?thesis
  proof (cases d)
    case True
    then have "least_from v (pml4 v) 3 (pageNo io) (map unat c)" using r(2) by (simp add: search_result_def)
    then show ?thesis using True eq c dig by (auto simp: least_from_def vacant_page_def pageNo_num)
  next
    case False
    then have "none_from v (pml4 v) 3 (pageNo io)" using r(2) by (simp add: search_result_def)
    then have "\<not> (\<exists>p. vacant_page v p \<and> pageNo io \<le> pageNo p)"
      unfolding none_from_def vacant_page_def using dig by (metis pageNo_num not_less)
    then show ?thesis using False eq by auto
  qed
qed

lemma first_vacant_found:
  assumes "subtree v 3 (pml4 v)" "valid_idx io" "vacant_page v p" "pageNo io \<le> pageNo p"
  obtains r where "firstUnalloc None io v = Some (r, v)" "vacant_page v r" "pageNo io \<le> pageNo r"
    "\<And>p. vacant_page v p \<Longrightarrow> pageNo io \<le> pageNo p \<Longrightarrow> pageNo r \<le> pageNo p"
proof -
  have "\<exists>p. vacant_page v p \<and> pageNo io \<le> pageNo p" using assms(3,4) by blast
  then show thesis using first_vacant_spec [OF assms(1,2)] that by (auto simp only: if_True)
qed

section \<open>Runs of pages\<close>

definition vacant_run :: "VMM \<Rightarrow> nat \<Rightarrow> nat \<Rightarrow> bool" where
  "vacant_run v q n \<longleftrightarrow> (\<forall>j<n. \<exists>p. vacant_page v p \<and> pageNo p = q + j)"

lemma vaddr_eq_iff:
  assumes "valid_idx a" "valid_idx b"
  shows "getVirtualAddr a = getVirtualAddr b \<longleftrightarrow> pageNo a = pageNo b"
proof
  assume "getVirtualAddr a = getVirtualAddr b"
  then have "pageNo a * 4096 + (if pageNo a < 2 ^ 35 then 0 else 2 ^ 64 - 2 ^ 48) =
      pageNo b * 4096 + (if pageNo b < 2 ^ 35 then 0 else 2 ^ 64 - 2 ^ 48)"
    using unat_vaddr [OF assms(1)] unat_vaddr [OF assms(2)] by simp
  then show "pageNo a = pageNo b"
    using pageNo_bound [OF assms(1)] pageNo_bound [OF assms(2)] by (auto split: if_splits)
next
  assume "pageNo a = pageNo b"
  then show "getVirtualAddr a = getVirtualAddr b" using pageNo_inj [OF assms] by simp
qed

lemma vacant_runD: "vacant_run v q n \<Longrightarrow> q \<le> m \<Longrightarrow> m < q + n \<Longrightarrow> \<exists>p. vacant_page v p \<and> pageNo p = m"
  unfolding vacant_run_def by (drule spec [of _ "m - q"]) auto

lemma vacant_run_Suc: "vacant_run v q (Suc n) \<longleftrightarrow> vacant_run v q n \<and> (\<exists>p. vacant_page v p \<and> pageNo p = q + n)"
  by (auto simp: vacant_run_def less_Suc_eq)

definition least_run :: "VMM \<Rightarrow> nat \<Rightarrow> nat \<Rightarrow> IndexOffset \<Rightarrow> bool" where
  "least_run v lo n r \<longleftrightarrow> vacant_page v r \<and> lo \<le> pageNo r \<and> vacant_run v (pageNo r) n \<and>
     (\<forall>q. lo \<le> q \<and> vacant_run v q n \<longrightarrow> pageNo r \<le> q)"

text \<open>The loop has found \<open>k\<close> pages from \<open>res\<close> to \<open>prev\<close>, and no run of \<open>n\<close> pages begins before \<open>res\<close>.\<close>

definition run_inv :: "VMM \<Rightarrow> nat \<Rightarrow> nat \<Rightarrow> nat \<Rightarrow> IndexOffset \<Rightarrow> IndexOffset \<Rightarrow> bool" where
  "run_inv v lo n k res prev \<longleftrightarrow> 0 < k \<and> k \<le> n \<and> valid_idx prev \<and> pageNo prev + 1 = pageNo res + k \<and>
     vacant_page v res \<and> lo \<le> pageNo res \<and> vacant_run v (pageNo res) k \<and>
     (\<forall>q. lo \<le> q \<and> vacant_run v q n \<longrightarrow> pageNo res \<le> q)"

lemma run_step:
  assumes sub: "subtree v 3 (pml4 v)" and inv: "run_inv v lo n k res prev" and k: "k < n"
    and ex: "lo \<le> q0" "vacant_run v q0 n"
  obtains nxt where "firstUnalloc None (nextPage prev) v = Some (nxt, v)" "valid_idx nxt"
    "pageNo prev < pageNo nxt"
    "getVirtualAddr (nextPage prev) = getVirtualAddr nxt \<Longrightarrow> run_inv v lo n (Suc k) res nxt"
    "getVirtualAddr (nextPage prev) \<noteq> getVirtualAddr nxt \<Longrightarrow> run_inv v lo n 1 nxt nxt"
proof -
  have prev: "valid_idx prev" "pageNo prev + 1 = pageNo res + k" "pageNo res \<le> q0"
    using inv ex by (auto simp: run_inv_def)
  have "q0 \<le> q0 + (n - 1)" "q0 + (n - 1) < q0 + n" using k by simp_all
  then obtain p0 where p0: "vacant_page v p0" "pageNo p0 = q0 + (n - 1)" using vacant_runD [OF ex(2)] by blast
  have "pageNo p0 < 2 ^ 36" using p0 by (intro pageNo_bound) (simp add: vacant_page_def)
  then have np: "valid_idx (nextPage prev)" "pageNo (nextPage prev) = pageNo prev + 1"
    using nextPage_pageNo [OF prev(1)] prev p0(2) k by simp_all
  have "pageNo (nextPage prev) \<le> pageNo p0" using p0 np prev k by auto
  then obtain nxt where nxt: "firstUnalloc None (nextPage prev) v = Some (nxt, v)" "vacant_page v nxt"
    "pageNo prev + 1 \<le> pageNo nxt" "\<And>p. vacant_page v p \<Longrightarrow> pageNo prev + 1 \<le> pageNo p \<Longrightarrow> pageNo nxt \<le> pageNo p"
    using first_vacant_found [OF sub np(1) p0(1)] np(2) by metis
  have vn: "valid_idx nxt" using nxt(2) by (simp add: vacant_page_def)
  have eq: "getVirtualAddr (nextPage prev) = getVirtualAddr nxt \<longleftrightarrow> pageNo nxt = pageNo prev + 1"
    using vaddr_eq_iff [OF np(1) vn] np(2) by auto
  show thesis
  proof (rule that [OF nxt(1) vn])
    show "pageNo prev < pageNo nxt" using nxt(3) by simp
    assume "getVirtualAddr (nextPage prev) = getVirtualAddr nxt"
    then show "run_inv v lo n (Suc k) res nxt"
      using inv k nxt(2) vn prev(2) eq by (auto simp: run_inv_def vacant_run_Suc)
  next
    assume "getVirtualAddr (nextPage prev) \<noteq> getVirtualAddr nxt"
    then have gap: "pageNo prev + 1 < pageNo nxt" using eq nxt(3) by simp
    have "pageNo nxt \<le> q" if q: "lo \<le> q" "vacant_run v q n" for q
    proof (rule ccontr)
      assume lt: "\<not> pageNo nxt \<le> q"
      have "pageNo res \<le> q" using inv q by (auto simp: run_inv_def)
      define m where "m = max q (pageNo prev + 1)"
      have "q \<le> m" "m < q + n" using prev(2) k \<open>pageNo res \<le> q\<close> by (auto simp: m_def)
      then obtain p where "vacant_page v p" "pageNo p = m" using vacant_runD [OF q(2)] by blast
      then have "pageNo nxt \<le> m" using nxt(4) [of p] by (simp add: m_def)
      then show False using lt gap by (auto simp: m_def)
    qed
    then show "run_inv v lo n 1 nxt nxt"
      using inv k nxt(2) vn prev(2) gap by (auto simp: run_inv_def vacant_run_def)
  qed
qed

lemma contiguousLoop_spec:
  assumes sub: "subtree v 3 (pml4 v)" and ex: "lo \<le> q0" "vacant_run v q0 n"
  shows "run_inv v lo n k res prev \<Longrightarrow>
    \<exists>r. contiguousLoop None (int n) (int k) res prev v = Some (r, v) \<and> least_run v lo n r"
proof (induction "2 ^ 36 - pageNo prev" arbitrary: k res prev rule: less_induct)
  case less
  show ?case
  proof (cases "k < n")
    case False
    then have "k = n" using less(2) by (simp add: run_inv_def)
    then have "contiguousLoop None (int n) (int k) res prev v = Some (res, v)" by (subst contiguousLoop.simps) simp
    then show ?thesis using less(2) \<open>k = n\<close> by (auto simp: run_inv_def least_run_def)
  next
    case True
    obtain nxt where nxt: "firstUnalloc None (nextPage prev) v = Some (nxt, v)" "valid_idx nxt" "pageNo prev < pageNo nxt"
      "getVirtualAddr (nextPage prev) = getVirtualAddr nxt \<Longrightarrow> run_inv v lo n (Suc k) res nxt"
      "getVirtualAddr (nextPage prev) \<noteq> getVirtualAddr nxt \<Longrightarrow> run_inv v lo n 1 nxt nxt"
      using run_step [OF sub less(2) True ex] by metis
    have m: "2 ^ 36 - pageNo nxt < 2 ^ 36 - pageNo prev" using nxt(3) pageNo_bound [OF nxt(2)] by simp
    have c: "contiguousLoop None (int n) (int k) res prev v =
        (if getVirtualAddr (nextPage prev) = getVirtualAddr nxt
         then contiguousLoop None (int n) (int (Suc k)) res nxt v else contiguousLoop None (int n) (int 1) nxt nxt v)"
      using True nxt(1) by (subst contiguousLoop.simps) (simp add: add.commute)
    show ?thesis
      using less(1) [OF m nxt(4)] less(1) [OF m nxt(5)] unfolding c by (auto split: if_splits)
  qed
qed

lemma first_run_spec:
  assumes "subtree v 3 (pml4 v)" "valid_idx io" "0 < n" "pageNo io \<le> q" "vacant_run v q n"
  shows "\<exists>r. firstNUnalloc None io (int n) v = Some (r, v) \<and> least_run v (pageNo io) n r"
proof -
  obtain p where p: "vacant_page v p" "pageNo p = q" using vacant_runD [OF assms(5), of q] assms(3) by auto
  obtain r where r: "firstUnalloc None io v = Some (r, v)" "vacant_page v r" "pageNo io \<le> pageNo r"
    "\<And>p. vacant_page v p \<Longrightarrow> pageNo io \<le> pageNo p \<Longrightarrow> pageNo r \<le> pageNo p"
    using first_vacant_found [OF assms(1,2) p(1)] p(2) assms(4) by blast
  have "pageNo r \<le> q'" if "pageNo io \<le> q'" "vacant_run v q' n" for q'
    using vacant_runD [OF that(2), of q'] r(4) that(1) assms(3) by force
  then have "run_inv v (pageNo io) n 1 r r"
    using r assms(3) by (auto simp: run_inv_def vacant_run_def vacant_page_def)
  from contiguousLoop_spec [OF assms(1,4,5) this] show ?thesis using r(1) by (simp add: firstNUnalloc_def)
qed

end
