(* ===== verification/Vmm_Alloc.thy ===== *)
theory Vmm_Alloc
  imports Vmm_Search
begin

text \<open>
  Allocation and release of pages against the abstract page map: which page is mapped to which physical
  address. The invariant \<open>vmm_ok\<close> says that the tables form a tree with the levels the code reads back from
  them.
\<close>

section \<open>Walking the tables\<close>

primrec walk :: "VMM \<Rightarrow> u64 \<Rightarrow> nat list \<Rightarrow> u64 option" where
  "walk v a [] = Some a"
| "walk v a (i # s) = (case tables v a of None \<Rightarrow> None
     | Some t \<Rightarrow> if isPresent (entries t ! i) then walk v (nextTables t ! i) s else None)"

lemma table_walk_append: "walk v a (p @ q) = Option.bind (walk v a p) (\<lambda>b. walk v b q)"
  by (induction p arbitrary: a) (auto split: option.splits)

definition entry_of :: "VMM \<Rightarrow> IndexOffset \<Rightarrow> Entry option" where
  "entry_of v io = (case walk v (pml4 v) (map unat (take 3 io)) of None \<Rightarrow> None
     | Some a \<Rightarrow> readPTE v (a, unat (io ! 3)))"

definition page_map :: "VMM \<Rightarrow> IndexOffset \<Rightarrow> u64 option" where
  "page_map v io = (case entry_of v io of None \<Rightarrow> None
     | Some e \<Rightarrow> if isPresent e then Some (getPhysicalAddr e) else None)"

definition vmm_ok :: "VMM \<Rightarrow> bool" where
  "vmm_ok v \<longleftrightarrow> subtree v 3 (pml4 v) \<and>
     (\<forall>p q a. length p \<le> 3 \<and> length q \<le> 3 \<and> digits p \<and> digits q \<and>
        walk v (pml4 v) p = Some a \<and> walk v (pml4 v) q = Some a \<longrightarrow> p = q)"

lemma vmm_ok_unique:
  assumes "vmm_ok v" "walk v (pml4 v) p = Some a" "walk v (pml4 v) q = Some a" "digits p" "digits q" "length p \<le> 3" "length q \<le> 3"
  shows "p = q"
proof -
  have "\<forall>p q a. length p \<le> 3 \<and> length q \<le> 3 \<and> digits p \<and> digits q \<and>
      walk v (pml4 v) p = Some a \<and> walk v (pml4 v) q = Some a \<longrightarrow> p = q" using assms(1) by (simp add: vmm_ok_def)
  then show ?thesis using assms(2-) by blast
qed

lemma above_leaf:
  assumes "vmm_ok v" "length s = 3" "digits s" "walk v (pml4 v) s = Some a"
    "walk v (pml4 v) q = Some b" "digits q" "length q < 3"
  shows "b \<noteq> a"
  using vmm_ok_unique [OF assms(1,4), of q] assms by auto

lemma vacant_walk:
  "vacant v a (s @ [i]) \<longleftrightarrow> (\<exists>b t. walk v a s = Some b \<and> tables v b = Some t \<and> \<not> isPresent (entries t ! i))"
  by (induction s arbitrary: a) (auto split: option.splits)

lemma idx_split: "valid_idx io \<Longrightarrow> map unat io = map unat (take 3 io) @ [unat (io ! 3)]"
  by (erule idx_bounds) simp

lemma vacant_page_entry: "vacant_page v io \<longleftrightarrow> valid_idx io \<and> (\<exists>e. entry_of v io = Some e \<and> \<not> isPresent e)"
  unfolding vacant_page_def by (auto simp: idx_split vacant_walk entry_of_def split: option.splits bind_splits)

lemma vacant_not_mapped: "vacant_page v io \<Longrightarrow> page_map v io = None"
  by (auto simp: vacant_page_entry page_map_def)

lemma subtree_walk:
  "subtree v k a \<Longrightarrow> digits s \<Longrightarrow> length s \<le> k \<Longrightarrow> walk v a s = Some b \<Longrightarrow> subtree v (k - length s) b"
proof (induction s arbitrary: k a)
  case (Cons i s)
  then obtain k' where k: "k = Suc k'" by (cases k) auto
  with Cons show ?case by (auto split: if_splits)
qed simp

text \<open>The table of a page and the pointer the code computes for its entry.\<close>

lemma getPTE_walk:
  assumes "walk v (pml4 v) (map unat (take 3 io)) = Some a" "valid_idx io"
  shows "getPTE v io = Some (a, unat (io ! 3))"
  using assms(2)
proof (rule idx_bounds)
  fix x0 x1 x2 x3 assume io: "io = [x0, x1, x2, x3]"
  show ?thesis using assms(1) unfolding io getPTE_def by (auto split: option.splits if_splits)
qed

lemma digits_take3: "valid_idx io \<Longrightarrow> digits (map unat (take 3 io)) \<and> length (map unat (take 3 io)) = 3"
  by (erule idx_bounds) simp

section \<open>Updates of leaf tables\<close>

definition set_leaf :: "u64 \<Rightarrow> Table \<Rightarrow> VMM \<Rightarrow> VMM" where
  "set_leaf a t v = v\<lparr>tables := (tables v)(a \<mapsto> t)\<rparr>"

lemma set_leaf_fields [simp]: "pml4 (set_leaf a t v) = pml4 v" "phys (set_leaf a t v) = phys v"
  "HHDMOffset (set_leaf a t v) = HHDMOffset v" "tables (set_leaf a t v) = (tables v)(a \<mapsto> t)"
  "availablePagesHH (set_leaf a t v) = availablePagesHH v" "availablePagesLH (set_leaf a t v) = availablePagesLH v"
  by (simp_all add: set_leaf_def)

lemma walk_set_leaf:
  assumes "vmm_ok v" "length s = 3" "digits s" "walk v (pml4 v) s = Some a"
  shows "walk v (pml4 v) q = Some b \<Longrightarrow> digits q \<Longrightarrow> digits r \<Longrightarrow> length q + length r \<le> 3 \<Longrightarrow>
    walk (set_leaf a t v) b r = walk v b r"
proof (induction r arbitrary: q b)
  case (Cons i r)
  have "b \<noteq> a" using above_leaf [OF assms Cons.prems(1,2)] Cons.prems(4) by simp
  moreover have "walk (set_leaf a t v) (nextTables u ! i) r = walk v (nextTables u ! i) r"
    if "tables v b = Some u" "isPresent (entries u ! i)" for u
    using Cons.IH [of "q @ [i]" "nextTables u ! i"] Cons.prems that by (simp add: table_walk_append digits_def)
  ultimately show ?case by (auto split: option.splits)
qed simp

lemma subtree_set_leaf:
  assumes "vmm_ok v" "length s = 3" "digits s" "walk v (pml4 v) s = Some a" "table_ok t" "getLevel t = LEVEL3"
  shows "walk v (pml4 v) q = Some b \<Longrightarrow> digits q \<Longrightarrow> length q + k = 3 \<Longrightarrow> subtree v k b \<Longrightarrow> subtree (set_leaf a t v) k b"
proof (induction k arbitrary: q b)
  case 0
  then show ?case using assms(5,6) by (cases "b = a") auto
next
  case (Suc k)
  have ne: "b \<noteq> a" using above_leaf [OF assms(1-4) Suc.prems(1,2)] Suc.prems(3) by simp
  obtain u where u: "tables v b = Some u" "table_ok u" "levelIdx (getLevel u) + Suc k = 3"
    "\<And>i. i < 512 \<Longrightarrow> isPresent (entries u ! i) \<Longrightarrow> subtree v k (nextTables u ! i)" using Suc.prems(4) by auto
  have "subtree (set_leaf a t v) k (nextTables u ! i)" if i: "i < 512" "isPresent (entries u ! i)" for i
    using Suc.IH [of "q @ [i]" "nextTables u ! i"] Suc.prems u i by (simp add: table_walk_append digits_def)
  then show ?case using ne u by auto
qed

lemma vmm_ok_set_leaf:
  assumes "vmm_ok v" "length s = 3" "digits s" "walk v (pml4 v) s = Some a" "table_ok t" "getLevel t = LEVEL3"
  shows "vmm_ok (set_leaf a t v)"
proof -
  have "walk (set_leaf a t v) (pml4 v) r = walk v (pml4 v) r" if "digits r" "length r \<le> 3" for r
    using walk_set_leaf [OF assms(1-4), of "[]"] that by simp
  moreover have "subtree (set_leaf a t v) 3 (pml4 v)"
    using subtree_set_leaf [OF assms, of "[]"] assms(1) by (simp add: vmm_ok_def)
  ultimately show ?thesis
    unfolding vmm_ok_def set_leaf_fields using vmm_ok_unique [OF assms(1)] by auto
qed

lemma entry_set_leaf:
  assumes "vmm_ok v" "length s = 3" "digits s" "walk v (pml4 v) s = Some a" "valid_idx io"
  shows "entry_of (set_leaf a t v) io =
    (if map unat (take 3 io) = s then Some (entries t ! unat (io ! 3)) else entry_of v io)"
proof -
  note d = digits_take3 [OF assms(5)]
  have "walk (set_leaf a t v) (pml4 v) (map unat (take 3 io)) = walk v (pml4 v) (map unat (take 3 io))"
    using walk_set_leaf [OF assms(1-4), of "[]"] d by simp
  moreover have "walk v (pml4 v) (map unat (take 3 io)) = Some a \<longleftrightarrow> map unat (take 3 io) = s"
    using assms(2-4) d vmm_ok_unique [OF assms(1), of "map unat (take 3 io)" a s] by auto
  ultimately show ?thesis by (auto simp: entry_of_def split: option.splits)
qed

text \<open>The tables and the root alone decide the page map.\<close>

lemma walk_cong: "tables v = tables v' \<Longrightarrow> walk v a s = walk v' a s"
  by (induction s arbitrary: a) (auto split: option.splits)

lemma subtree_cong: "tables v = tables v' \<Longrightarrow> subtree v k a = subtree v' k a"
  by (induction k arbitrary: a) auto

lemma same_tables:
  assumes "tables v = tables v'" "pml4 v = pml4 v'"
  shows "vmm_ok v = vmm_ok v'" "entry_of v = entry_of v'" "page_map v = page_map v'" "vacant_page v = vacant_page v'"
proof -
  have w: "walk v a s = walk v' a s" and t: "subtree v k a = subtree v' k a" for a s k
    using walk_cong [OF assms(1)] subtree_cong [OF assms(1)] by auto
  show "vmm_ok v = vmm_ok v'" unfolding vmm_ok_def w t using assms by simp
  show e: "entry_of v = entry_of v'" by (rule ext) (simp only: entry_of_def w readPTE.simps assms)
  show "page_map v = page_map v'" unfolding page_map_def e ..
  show "vacant_page v = vacant_page v'" unfolding vacant_page_entry e fun_eq_iff by simp
qed

lemma addAvailable_fields [simp]: "tables (addAvailable b d v) = tables v" "pml4 (addAvailable b d v) = pml4 v"
  "phys (addAvailable b d v) = phys v" "HHDMOffset (addAvailable b d v) = HHDMOffset v"
  "availablePagesHH (addAvailable b d v) + availablePagesLH (addAvailable b d v) = availablePagesHH v + availablePagesLH v + d"
  by (simp_all add: addAvailable_def)

lemma page_eq_iff:
  assumes "valid_idx p" "valid_idx io"
  shows "p = io \<longleftrightarrow> map unat (take 3 p) = map unat (take 3 io) \<and> unat (p ! 3) = unat (io ! 3)"
  using assms by (elim idx_bounds) (auto simp: word_unat_eq_iff)

lemma upd_entry:
  assumes ok: "vmm_ok v" and io: "valid_idx io" and e: "entry_of v io = Some e"
  obtains a v' where "getPTE v io = Some (a, unat (io ! 3))" "readPTE v (a, unat (io ! 3)) = Some e"
    "updPTE f (a, unat (io ! 3)) v = Some v'" "pml4 v' = pml4 v" "phys v' = phys v" "HHDMOffset v' = HHDMOffset v"
    "availablePagesHH v' + availablePagesLH v' = availablePagesHH v + availablePagesLH v"
    "\<And>p. valid_idx p \<Longrightarrow> entry_of v' p = (if p = io then Some (f e) else entry_of v p)"
    "unat (io ! 3) \<noteq> 0 \<or> bit (f e) 9 = bit e 9 \<and> bit (f e) 10 = bit e 10 \<Longrightarrow> vmm_ok v'"
    "unat (io ! 3) = 0 \<Longrightarrow> \<not> bit (f e) 9 \<Longrightarrow> \<not> vmm_ok v'"
proof -
  let ?s = "map unat (take 3 io)" and ?i = "unat (io ! 3)"
  note s = digits_take3 [OF io]
  obtain a t where a: "walk v (pml4 v) ?s = Some a" "tables v a = Some t" "e = entries t ! ?i"
    using e by (auto simp: entry_of_def split: option.splits bind_splits)
  have "subtree v 3 (pml4 v)" using ok by (simp add: vmm_ok_def)
  from subtree_walk [OF this, of ?s a] have t: "table_ok t" "getLevel t = LEVEL3" using s a by auto
  have i: "?i < 512" using io by (simp add: valid_idx_def word_less_nat_alt)
  define t' where "t' = t\<lparr>entries := (entries t)[?i := f e]\<rparr>"
  have t': "table_ok t'" using t by (simp add: t'_def table_ok_def)
  have nth: "entries t' ! j = (if j = ?i then f e else entries t ! j)" for j
    using t(1) i by (auto simp: t'_def table_ok_def nth_list_update)
  have same: "entry_of (set_leaf a t' v) p = (if p = io then Some (f e) else entry_of v p)" if "valid_idx p" for p
    using entry_set_leaf [OF ok conjunct2 [OF s] conjunct1 [OF s] a(1) that] page_eq_iff [OF that io] nth a
    by (auto simp: entry_of_def)
  show thesis
  proof (rule that)
    show "getPTE v io = Some (a, ?i)" using a(1) io by (rule getPTE_walk)
    show "readPTE v (a, ?i) = Some e" using a by simp
    show "updPTE f (a, ?i) v = Some (set_leaf a t' v)" using a by (simp add: set_leaf_def t'_def)
    show "entry_of (set_leaf a t' v) p = (if p = io then Some (f e) else entry_of v p)" if "valid_idx p" for p
      using that by (rule same)
    show "vmm_ok (set_leaf a t' v)" if "?i \<noteq> 0 \<or> bit (f e) 9 = bit e 9 \<and> bit (f e) 10 = bit e 10"
    proof -
      have "getLevel t' = getLevel t" using that a(3) by (intro getLevel_cong) (auto simp: nth)
      then show ?thesis using vmm_ok_set_leaf [OF ok _ _ a(1) t'] s t by simp
    qed
    show "\<not> vmm_ok (set_leaf a t' v)" if "?i = 0" "\<not> bit (f e) 9"
    proof
      assume ok': "vmm_ok (set_leaf a t' v)"
      then have "subtree (set_leaf a t' v) 3 (pml4 v)" by (simp add: vmm_ok_def)
      moreover have "walk (set_leaf a t' v) (pml4 v) ?s = Some a"
        using walk_set_leaf [OF ok _ _ a(1), of "[]" "pml4 v" ?s] s a(1) by simp
      ultimately have "getLevel t' = LEVEL3" using subtree_walk [of _ 3 "pml4 v" ?s a] s by fastforce
      then show False using that nth [of 0] by (auto simp: getLevel_def testFlag_bit Let_def split: if_splits)
    qed
  qed simp_all
qed

lemma bit_presentWritable: "bit presentWritable k \<longleftrightarrow> k = 0 \<or> k = 1"
proof -
  have e: "presentWritable = mask 2" by (simp add: presentWritable_def mask_eq_exp_minus_1)
  show ?thesis unfolding e by (auto simp: bit_simps)
qed

lemma assigned_entry:
  "isPresent (setFlags presentWritable (setPhysicalAdr a e))"
  "bit (setFlags presentWritable (setPhysicalAdr a e)) 9 = bit e 9"
  "bit (setFlags presentWritable (setPhysicalAdr a e)) 10 = bit e 10"
  "getPhysicalAddr (setFlags presentWritable (setPhysicalAdr a e)) = a AND 0x000ffffffffff000"
proof -
  let ?e = "setFlags presentWritable (setPhysicalAdr a e)"
  show "isPresent ?e" "bit ?e 9 = bit e 9" "bit ?e 10 = bit e 10"
    by (auto simp: isPresent_def testFlag_bit setFlags_def bit_simps bit_presentWritable bit_setPhysicalAdr)
  show "getPhysicalAddr ?e = a AND 0x000ffffffffff000"
    unfolding phys_mask
    by (rule bit_eqI) (auto simp: bit_getPhysicalAddr setFlags_def bit_setPhysicalAdr bit_presentWritable bit_simps)
qed

lemma managed_masked:
  assumes "pmm_inv p" "frameCnt p \<le> 2 ^ 40" "a \<in> managed_addrs p"
  shows "a AND 0x000ffffffffff000 = a"
proof -
  obtain f where f: "a = frame_addr f" "0 \<le> f" "f < 2 ^ 40" using assms by (auto simp: managed_addrs_def)
  define w :: u64 where "w = word_of_int f"
  have w: "unat w < 2 ^ 40" using f by (simp add: w_def unat_eq_nat_uint uint_word_of_int nat_less_iff)
  have "a = push_bit 12 w" by (simp add: f(1) frame_addr_def w_def push_bit_eq_mult)
  then have "12 \<le> k \<and> k < 52" if "bit a k" for k
    using that bit_small [OF w, of "k - 12"] by (auto simp: bit_simps)
  then show ?thesis unfolding phys_mask by (intro bit_eqI) (fastforce simp: bit_simps)
qed

section \<open>Mapping a run of pages\<close>

lemma map_vacant:
  assumes "vmm_ok v" "vacant_page v io"
  obtains a v' where "getPTE v io = Some a" "assignFrameToPage a fr hh v = Some v'" "vmm_ok v'" "pml4 v' = pml4 v" "phys v' = phys v"
    "HHDMOffset v' = HHDMOffset v" "availablePagesHH v' + availablePagesLH v' = availablePagesHH v + availablePagesLH v - 1"
    "\<And>p. valid_idx p \<Longrightarrow> page_map v' p = (if p = io then Some (fr AND 0x000ffffffffff000) else page_map v p)"
    "\<And>p. vacant_page v' p \<longleftrightarrow> vacant_page v p \<and> p \<noteq> io"
proof -
  obtain e where e: "valid_idx io" "entry_of v io = Some e" "\<not> isPresent e" using assms(2) by (auto simp: vacant_page_entry)
  let ?f = "\<lambda>e. setFlags presentWritable (setPhysicalAdr fr e)"
  obtain a v1 where v1: "getPTE v io = Some (a, unat (io ! 3))" "updPTE ?f (a, unat (io ! 3)) v = Some v1" "pml4 v1 = pml4 v"
    "phys v1 = phys v" "HHDMOffset v1 = HHDMOffset v"
    "availablePagesHH v1 + availablePagesLH v1 = availablePagesHH v + availablePagesLH v"
    "\<And>p. valid_idx p \<Longrightarrow> entry_of v1 p = (if p = io then Some (?f e) else entry_of v p)"
    "unat (io ! 3) \<noteq> 0 \<or> bit (?f e) 9 = bit e 9 \<and> bit (?f e) 10 = bit e 10 \<Longrightarrow> vmm_ok v1"
    by (rule upd_entry [OF assms(1) e(1,2), of ?f]) blast
  define v' where "v' = addAvailable hh (- 1) v1"
  note same = same_tables [of v' v1, OF addAvailable_fields(1,2) [of hh "- 1" v1, folded v'_def]]
  show thesis
  proof (rule that [OF v1(1)])
    show "assignFrameToPage (a, unat (io ! 3)) fr hh v = Some v'"
      unfolding assignFrameToPage_def v1(2) by (simp add: v'_def)
    show "vmm_ok v'" using v1(8) assigned_entry by (simp add: same)
    show "page_map v' p = (if p = io then Some (fr AND 0x000ffffffffff000) else page_map v p)" if "valid_idx p" for p
      unfolding same(3) using v1(7) [OF that] assigned_entry by (simp add: page_map_def)
    show "vacant_page v' p \<longleftrightarrow> vacant_page v p \<and> p \<noteq> io" for p
      unfolding same(4) using v1(7) [of p] assigned_entry(1) by (cases "p = io") (simp_all add: vacant_page_entry cong: conj_cong)
  qed (use v1(3-6) in \<open>simp_all add: v'_def\<close>)
qed

lemma vacant_run_head: "vacant_run v (pageNo io) (Suc n) \<Longrightarrow> valid_idx io \<Longrightarrow> vacant_page v io"
  unfolding vacant_run_def using pageNo_inj by (force simp: vacant_page_def)

definition mapped_run :: "VMM \<Rightarrow> VMM \<Rightarrow> nat \<Rightarrow> u64 list \<Rightarrow> bool" where
  "mapped_run v v' q frs \<longleftrightarrow> (\<forall>p. valid_idx p \<longrightarrow> page_map v' p =
     (if q \<le> pageNo p \<and> pageNo p < q + length frs then Some (frs ! (pageNo p - q)) else page_map v p))"

lemma mapped_run_Cons:
  assumes io: "valid_idx io" and w: "\<And>p. valid_idx p \<Longrightarrow> page_map w p = (if p = io then Some x else page_map v p)"
    and ys: "mapped_run w v' (Suc (pageNo io)) ys"
  shows "mapped_run v v' (pageNo io) (x # ys)"
proof -
  have "page_map v' p = (if pageNo io \<le> pageNo p \<and> pageNo p < pageNo io + length (x # ys)
      then Some ((x # ys) ! (pageNo p - pageNo io)) else page_map v p)" if p: "valid_idx p" for p
  proof -
    have "page_map v' p = (if Suc (pageNo io) \<le> pageNo p \<and> pageNo p < Suc (pageNo io) + length ys
        then Some (ys ! (pageNo p - Suc (pageNo io))) else page_map w p)" using ys p by (simp add: mapped_run_def)
    moreover have "p = io \<longleftrightarrow> pageNo p = pageNo io" using pageNo_inj [OF p io] by auto
    ultimately show ?thesis using w [OF p] by (auto simp: nth_Cons' Suc_diff_le)
  qed
  then show ?thesis by (simp add: mapped_run_def)
qed

lemma frameCnt_allocFrame: "frameCnt (snd (allocFrame p)) = frameCnt p"
  by (simp add: allocFrame_def Let_def)

lemma frameCnt_repeat: "repeat_alloc allocFrame n p = (frs, p') \<Longrightarrow> frameCnt p' = frameCnt p"
proof (induction n arbitrary: p frs)
  case (Suc n)
  then show ?case using frameCnt_allocFrame [of p] by (auto split: prod.splits)
qed simp

lemma assignFrames_spec:
  assumes "vmm_ok v" "pmm_inv (phys v)" "frameCnt (phys v) \<le> 2 ^ 40" "n \<le> card (avail_addrs (phys v))"
    "valid_idx io" "vacant_run v (pageNo io) n" "repeat_alloc allocFrame n (phys v) = (frs, p')"
  shows "\<exists>v'. assignFrames n io v = Some v' \<and> vmm_ok v' \<and> phys v' = p' \<and> pml4 v' = pml4 v \<and> HHDMOffset v' = HHDMOffset v \<and>
    mapped_run v v' (pageNo io) frs \<and>
    availablePagesHH v' + availablePagesLH v' = availablePagesHH v + availablePagesLH v - int n"
  using assms
proof (induction n arbitrary: v io frs)
  case 0
  then show ?case by (auto simp: mapped_run_def)
next
  case (Suc n)
  have v: "vacant_page v io" using vacant_run_head [OF Suc.prems(6,5)] .
  obtain x p1 where x: "allocFrame (phys v) = (x, p1)" by fastforce
  obtain ys where ys: "repeat_alloc allocFrame n p1 = (ys, p')" "frs = x # ys"
    using Suc.prems(7) x by (auto split: prod.splits)
  have ne: "avail_addrs (phys v) \<noteq> {}" using Suc.prems(4) by auto
  note al = pmm.alloc_takes [OF Suc.prems(2) ne x]
  have "x \<in> managed_addrs (phys v)" using al pmm.avail_managed [OF Suc.prems(2)] by auto
  then have mask: "x AND 0x000ffffffffff000 = x" by (rule managed_masked [OF Suc.prems(2,3)])
  define u where "u = v\<lparr>phys := p1\<rparr>"
  have u: "vmm_ok u" "page_map u = page_map v" "vacant_page u = vacant_page v" "phys u = p1" "pml4 u = pml4 v" "HHDMOffset u = HHDMOffset v"
    "availablePagesHH u = availablePagesHH v" "availablePagesLH u = availablePagesLH v"
    using same_tables [of u v] Suc.prems(1) by (simp_all add: u_def)
  obtain a w where w: "getPTE u io = Some a" "assignFrameToPage a x (getVirtualAddr io \<ge> HHDMOffset u) u = Some w" "vmm_ok w"
    "pml4 w = pml4 u" "phys w = phys u" "HHDMOffset w = HHDMOffset u"
    "availablePagesHH w + availablePagesLH w = availablePagesHH u + availablePagesLH u - 1"
    "\<And>p. valid_idx p \<Longrightarrow> page_map w p = (if p = io then Some x else page_map u p)"
    "\<And>p. vacant_page w p \<longleftrightarrow> vacant_page u p \<and> p \<noteq> io"
    using map_vacant [OF u(1), of io x "getVirtualAddr io \<ge> HHDMOffset u"] v u(3) mask by (metis (no_types, lifting))
  have eq: "assignFrames (Suc n) io v = assignFrames n (nextPage io) w"
    unfolding assignFrames.simps x using w(1,2) by (simp add: u_def)
  show ?case
  proof (cases n)
    case 0
    have "mapped_run w w (Suc (pageNo io)) []" by (auto simp: mapped_run_def)
    then have "mapped_run v w (pageNo io) frs" using mapped_run_Cons [OF Suc.prems(5) w(8) [unfolded u(2)]] ys 0 by auto
    then show ?thesis using 0 eq w u ys by (auto simp: u_def)
  next
    case (Suc m)
    let ?q = "pageNo io"
    obtain p2 where "vacant_page v p2" "pageNo p2 = ?q + 1" using vacant_runD [OF Suc.prems(6), of "?q + 1"] Suc by auto
    then have "?q + 1 < 2 ^ 36" using pageNo_bound [of p2] by (simp add: vacant_page_def)
    then have np: "valid_idx (nextPage io)" "pageNo (nextPage io) = ?q + 1" using nextPage_pageNo [OF Suc.prems(5)] by simp_all
    have run: "vacant_run w (pageNo (nextPage io)) n"
    proof (unfold vacant_run_def, intro allI impI)
      fix j assume "j < n"
      then obtain p where "vacant_page v p" "pageNo p = ?q + 1 + j" using vacant_runD [OF Suc.prems(6), of "?q + 1 + j"] by auto
      then show "\<exists>p. vacant_page w p \<and> pageNo p = pageNo (nextPage io) + j" using np(2) w(9) u(3) by auto
    qed
    have card: "n \<le> card (avail_addrs (phys w))" "frameCnt (phys w) \<le> 2 ^ 40" "pmm_inv (phys w)"
      using al Suc.prems(3,4) w(5) u(4) pmm.finite_avail frameCnt_allocFrame [of "phys v"] x by auto
    obtain v' where v': "assignFrames n (nextPage io) w = Some v'" "vmm_ok v'" "phys v' = p'" "pml4 v' = pml4 w"
      "HHDMOffset v' = HHDMOffset w" "mapped_run w v' (pageNo (nextPage io)) ys"
      "availablePagesHH v' + availablePagesLH v' = availablePagesHH w + availablePagesLH w - int n"
      using Suc.IH [OF w(3) card(3,2,1) np(1) run, of ys] ys(1) w(5) u(4) by auto
    have "mapped_run v v' ?q frs" using mapped_run_Cons [OF Suc.prems(5) w(8) [unfolded u(2)]] v'(6) np(2) ys(2) by auto
    then show ?thesis using eq v' w u by auto
  qed
qed

section \<open>The operations of the manager\<close>

lemma card_avail:
  assumes "pmm_inv p"
  shows "int (card (avail_addrs p)) = frameCnt p - usedframes p"
proof -
  let ?U = "{f. 0 \<le> f \<and> f < frameCnt p \<and> bitmapIsSet p f}"
  have "card {0..<frameCnt p} = card (free_frames p \<union> ?U)" by (rule arg_cong [of _ _ card]) (auto simp: free_frames_def)
  also have "\<dots> = card (free_frames p) + card ?U" by (rule card_Un_disjoint) (auto simp: free_frames_def)
  finally have "frameCnt p = int (card (free_frames p)) + usedframes p" using assms by (simp add: pmm_inv_def) linarith
  moreover have "card (avail_addrs p) = card (free_frames p)"
    unfolding avail_addrs_def
    by (rule card_image) (rule inj_on_subset [OF inj_frame_addr [OF assms]], auto simp: free_frames_def)
  ultimately show ?thesis by simp
qed

definition first_page :: "bool \<Rightarrow> IndexOffset" where
  "first_page hh = (if hh then [256, 0, 0, 0] else [0, 0, 0, 0])"

lemma first_page_no: "valid_idx (first_page hh)" "pageNo (first_page hh) = (if hh then 2 ^ 35 else 0)"
  by (auto simp: first_page_def valid_idx_digits pageNo_def)

text \<open>What a successful allocation of \<open>n\<close> pages does.\<close>

definition pages_taken :: "VMM \<Rightarrow> VMM \<Rightarrow> IndexOffset \<Rightarrow> nat \<Rightarrow> bool" where
  "pages_taken v v' io n \<longleftrightarrow> (\<exists>frs. length frs = n \<and> distinct frs \<and> set frs \<subseteq> avail_addrs (phys v) \<and>
     avail_addrs (phys v') = avail_addrs (phys v) - set frs \<and> managed_addrs (phys v') = managed_addrs (phys v) \<and>
     mapped_run v v' (pageNo io) frs)"

lemma allocPages_spec:
  assumes "vmm_ok v" "pmm_inv (phys v)" "frameCnt (phys v) \<le> 2 ^ 40" "0 < n"
    and av: "int n + 11 \<le> getAvailablePages hh v" "getAvailablePages hh v < 2 ^ 31"
    and run: "pageNo (first_page hh) \<le> q" "vacant_run v q n"
  shows "if card (avail_addrs (phys v)) < n then allocPages hh True (int n) v = None
    else \<exists>io v'. allocPages hh True (int n) v = Some (getVirtualAddr io, v') \<and> least_run v (pageNo (first_page hh)) n io \<and>
      vmm_ok v' \<and> pmm_inv (phys v') \<and> pml4 v' = pml4 v \<and> HHDMOffset v' = HHDMOffset v \<and> pages_taken v v' io n \<and>
      frameCnt (phys v') = frameCnt (phys v)"
proof -
  let ?p = "phys v"
  have nw: "\<not> sint (word_of_int (getAvailablePages hh v) :: 32 word) < 11 + int n"
    using av by (simp add: sint_sbintrunc' signed_take_bit_int_eq_self)
  have enough: "frameCnt ?p - usedframes ?p < int n \<longleftrightarrow> card (avail_addrs ?p) < n" using card_avail [OF assms(2)] by linarith
  have sub: "subtree v 3 (pml4 v)" using assms(1) by (simp add: vmm_ok_def)
  obtain io where io: "firstNUnalloc None (first_page hh) (int n) v = Some (io, v)" "least_run v (pageNo (first_page hh)) n io"
    using first_run_spec [OF sub first_page_no(1) assms(4) run] by blast
  have eq: "allocPages hh True (int n) v = (if card (avail_addrs ?p) < n then None
      else do { v \<leftarrow> assignFrames n io v; Some (getVirtualAddr io, v) })"
    unfolding allocPages_def getFirstNUnallocPage_def first_page_def [symmetric]
    using nw enough io(1) by (simp add: Let_def)
  show ?thesis
  proof (cases "card (avail_addrs ?p) < n")
    case False
    obtain frs p' where rep: "repeat_alloc allocFrame n ?p = (frs, p')" by fastforce
    note fr = pmm.repeat_alloc_takes [OF assms(2) _ rep]
    obtain v' where v': "assignFrames n io v = Some v'" "vmm_ok v'" "phys v' = p'" "pml4 v' = pml4 v" "HHDMOffset v' = HHDMOffset v"
      "mapped_run v v' (pageNo io) frs"
      using assignFrames_spec [OF assms(1-3) _ _ _ rep, of io] False io(2) by (auto simp: least_run_def vacant_page_def)
    have "frameCnt p' = frameCnt ?p" using rep by (rule frameCnt_repeat)
    then show ?thesis using False eq io(2) v' fr unfolding pages_taken_def by auto
  qed (simp add: eq)
qed

lemma freePage_spec:
  assumes "vmm_ok v" "pmm_inv (phys v)" "valid_idx io" "getIndexOffset addr = io"
    "page_map v io = Some fr" "fr \<in> managed_addrs (phys v)"
  shows "\<exists>v'. freePage addr v = Some v' \<and> pmm_inv (phys v') \<and> avail_addrs (phys v') = insert fr (avail_addrs (phys v)) \<and>
    managed_addrs (phys v') = managed_addrs (phys v) \<and>
    (\<forall>p. valid_idx p \<longrightarrow> page_map v' p = (if p = io then None else page_map v p)) \<and> addr \<in> set (flushed v') \<and>
    (vmm_ok v' \<longleftrightarrow> io ! 3 \<noteq> 0)"
proof -
  obtain e where e: "entry_of v io = Some e" "isPresent e" "getPhysicalAddr e = fr"
    using assms(5) by (auto simp: page_map_def split: option.splits if_splits)
  define u where "u = v\<lparr>phys := freeFrame fr (phys v)\<rparr>"
  have u: "vmm_ok u" "page_map u = page_map v" "entry_of u = entry_of v" "getPTE u = getPTE v" "readPTE u = readPTE v"
    using same_tables [of u v] assms(1) by (simp_all add: u_def fun_eq_iff getPTE_def)
  obtain a w where w: "getPTE u io = Some (a, unat (io ! 3))" "readPTE u (a, unat (io ! 3)) = Some e"
    "updPTE (\<lambda>_. 0) (a, unat (io ! 3)) u = Some w" "pml4 w = pml4 u" "phys w = phys u" "HHDMOffset w = HHDMOffset u"
    "\<And>p. valid_idx p \<Longrightarrow> entry_of w p = (if p = io then Some 0 else entry_of u p)"
    "unat (io ! 3) \<noteq> 0 \<Longrightarrow> vmm_ok w" "unat (io ! 3) = 0 \<Longrightarrow> \<not> vmm_ok w"
    by (rule upd_entry [OF u(1) assms(3), of e "\<lambda>_. 0"]) (auto simp: u(3) e(1))
  define v' where "v' = invlpg addr (addAvailable (HHDMOffset w \<le> getVirtualAddr io) 1 w)"
  have v': "freePage addr v = Some v'"
    unfolding freePage_def assms(4) Let_def using w(1-3) e(3) u(4,5) by (simp add: u_def [symmetric] v'_def del: updPTE.simps readPTE.simps)
  note same = same_tables [of v' w]
  have f: "tables v' = tables w" "pml4 v' = pml4 w" "phys v' = freeFrame fr (phys v)" "addr \<in> set (flushed v')"
    using w(5) by (simp_all add: v'_def invlpg_def u_def)
  have "page_map v' p = (if p = io then None else page_map v p)" if "valid_idx p" for p
    unfolding same(3) [OF f(1,2)] using w(7) [OF that] u(2,3)
    by (simp add: page_map_def isPresent_def testFlag_def)
  moreover have "vmm_ok v' \<longleftrightarrow> io ! 3 \<noteq> 0" using w(8,9) same(1) [OF f(1,2)] by (auto simp: unat_eq_0)
  ultimately show ?thesis using v' f pmm.release_gives [OF assms(2,6)] by auto
qed

section \<open>A small example\<close>

definition demo_table :: "TableLevel \<Rightarrow> nat \<Rightarrow> Entry \<Rightarrow> u64 \<Rightarrow> Table" where
  "demo_table lv i e n = (let t = setLevel lv blankTable
     in t\<lparr>entries := (entries t)[i := setFlags e (entries t ! i)], nextTables := (nextTables t)[i := n]\<rparr>)"

definition demo_vmm :: VMM where
  "demo_vmm = \<lparr>pml4 = 0x1000, availablePagesLH = 0, availablePagesHH = 511, physicalMemUsage = \<lparr>mr_start = 0x1000, mr_size = 0x4000\<rparr>,
     HHDMOffset = 0xffff800000000000,
     tables = [0x1000 \<mapsto> demo_table LEVEL0 256 0x2003 0x2000, 0x2000 \<mapsto> demo_table LEVEL1 0 0x3003 0x3000,
       0x3000 \<mapsto> demo_table LEVEL2 0 0x4003 0x4000, 0x4000 \<mapsto> demo_table LEVEL3 1 0x1003 0],
     phys = pmm_small, cr3 = 0x1000, flushed = []\<rparr>"

lemma demo_table_entry:
  assumes "i < 512" "j < 512"
  shows "entries (demo_table lv i e n) ! j =
    (if j = i then (if i = 0 then push_bit 9 (levelVal lv) else 0) OR e else if j = 0 then push_bit 9 (levelVal lv) else 0)"
  using assms by (cases lv) (auto simp: demo_table_def setLevel_def blankTable_def setFlags_def removeFlags_def nth_list_update Let_def)

lemma demo_table_ok: "table_ok (demo_table lv i e n)"
  by (simp add: demo_table_def table_ok_def setLevel_def blankTable_def Let_def)

lemma demo_present:
  assumes "i < 512" "j < 512" "odd e"
  shows "isPresent (entries (demo_table lv i e n) ! j) \<longleftrightarrow> j = i"
  using assms by (cases lv) (simp_all add: demo_table_entry isPresent_def testFlag_bit bit_simps bit_0 even_or_iff)

lemma demo_next: "i < 512 \<Longrightarrow> nextTables (demo_table lv i e n) ! i = n"
  by (simp add: demo_table_def setLevel_def blankTable_def Let_def)

lemma demo_level:
  assumes "i < 512" "\<not> bit e 9" "\<not> bit e 10"
  shows "getLevel (demo_table lv i e n) = lv"
proof -
  have "getLevel (demo_table lv i e n) = getLevel (setLevel lv blankTable)"
    using assms by (intro getLevel_cong)
      (auto simp: demo_table_def setFlags_def Let_def nth_list_update bit_simps setLevel_def blankTable_def)
  then show ?thesis by (simp add: blankTable_def)
qed

lemma demo_tables:
  "tables demo_vmm 0x1000 = Some (demo_table LEVEL0 256 0x2003 0x2000)"
  "tables demo_vmm 0x2000 = Some (demo_table LEVEL1 0 0x3003 0x3000)"
  "tables demo_vmm 0x3000 = Some (demo_table LEVEL2 0 0x4003 0x4000)"
  "tables demo_vmm 0x4000 = Some (demo_table LEVEL3 1 0x1003 0)"
  by (simp_all add: demo_vmm_def)

lemma demo_subtree: "subtree demo_vmm 0 0x4000" "subtree demo_vmm 1 0x3000" "subtree demo_vmm 2 0x2000" "subtree demo_vmm 3 0x1000"
proof -
  show 0: "subtree demo_vmm 0 0x4000" using demo_tables by (simp add: demo_table_ok demo_level)
  show 1: "subtree demo_vmm 1 0x3000" using demo_tables 0 by (simp add: demo_table_ok demo_level demo_present demo_next)
  show 2: "subtree demo_vmm 2 0x2000" using demo_tables 1 by (simp add: numeral_2_eq_2 demo_table_ok demo_level demo_present demo_next)
  show "subtree demo_vmm 3 0x1000" using demo_tables 2 by (simp add: numeral_3_eq_3 numeral_2_eq_2 demo_table_ok demo_level demo_present demo_next)
qed

lemma demo_walk_step:
  assumes "digits (i # s)" "tables demo_vmm a = Some (demo_table lv j e n)" "j < 512" "odd e"
  shows "walk demo_vmm a (i # s) = (if i = j then walk demo_vmm n s else None)"
  using assms by (auto simp: demo_present demo_next)

lemma demo_walk:
  assumes "digits s" "length s \<le> 3"
  shows "walk demo_vmm 0x1000 s = (if s = [] then Some 0x1000 else if s = [256] then Some 0x2000
    else if s = [256, 0] then Some 0x3000 else if s = [256, 0, 0] then Some 0x4000 else None)"
proof -
  consider "s = []" | i where "s = [i]" | i j where "s = [i, j]" | i j k where "s = [i, j, k]"
    using assms(2) by (cases s; cases "tl s"; cases "tl (tl s)") auto
  then show ?thesis using assms(1)
    by cases (auto simp: demo_walk_step [OF _ demo_tables(1)] demo_walk_step [OF _ demo_tables(2)]
        demo_walk_step [OF _ demo_tables(3)] simp del: walk.simps(2))
qed

lemma demo_walk3:
  assumes "digits s" "length s = 3"
  shows "walk demo_vmm 0x1000 s = (if s = [256, 0, 0] then Some 0x4000 else None)"
proof -
  have "s \<noteq> []" "s \<noteq> [256]" "s \<noteq> [256, 0]" using assms(2) by auto
  then show ?thesis using demo_walk [of s] assms by simp
qed

lemma demo_vmm_ok: "vmm_ok demo_vmm"
proof -
  have "pml4 demo_vmm = 0x1000" by (simp add: demo_vmm_def)
  then show ?thesis unfolding vmm_ok_def using demo_subtree(4) by (auto simp: demo_walk split: if_splits)
qed

lemma demo_entry:
  assumes "valid_idx io"
  shows "entry_of demo_vmm io = (if take 3 io = [256, 0, 0]
     then Some (entries (demo_table LEVEL3 1 0x1003 0) ! unat (io ! 3)) else None)"
proof -
  have "map unat (take 3 io) = [256, 0, 0] \<longleftrightarrow> take 3 io = [256, 0, 0]"
    using assms by (rule idx_bounds) (auto simp: word_unat_eq_iff)
  then have "walk demo_vmm 0x1000 (map unat (take 3 io)) = (if take 3 io = [256, 0, 0] then Some 0x4000 else None)"
    using digits_take3 [OF assms] demo_walk3 by simp
  moreover have "pml4 demo_vmm = 0x1000" by (simp add: demo_vmm_def)
  ultimately show ?thesis using demo_tables(4) by (simp add: entry_of_def)
qed

lemma demo_page:
  assumes "k < 512"
  shows "valid_idx [256, 0, 0, of_nat k]" "pageNo [256, 0, 0, of_nat k] = 2 ^ 35 + k"
    "page_map demo_vmm [256, 0, 0, of_nat k] = (if k = 1 then Some 0x1000 else None)"
    "vacant_page demo_vmm [256, 0, 0, of_nat k] \<longleftrightarrow> k \<noteq> 1"
proof -
  have u: "unat (of_nat k :: u64) = k" using assms by (simp add: unat_of_nat)
  show v: "valid_idx [256, 0, 0, of_nat k]" using u assms by (simp add: valid_idx_digits)
  show "pageNo [256, 0, 0, of_nat k] = 2 ^ 35 + k" using u by (simp add: pageNo_def)
  have e: "entry_of demo_vmm [256, 0, 0, of_nat k] = Some (entries (demo_table LEVEL3 1 0x1003 0) ! k)"
    using demo_entry [OF v] u by simp
  show "page_map demo_vmm [256, 0, 0, of_nat k] = (if k = 1 then Some 0x1000 else None)"
    "vacant_page demo_vmm [256, 0, 0, of_nat k] \<longleftrightarrow> k \<noteq> 1"
    using e v demo_present [of 1 k "0x1003" LEVEL3 0] assms
    by (auto simp: page_map_def vacant_page_entry demo_table_entry getPhysicalAddr_def)
qed

lemma demo_run: "2 \<le> k \<Longrightarrow> k + n \<le> 512 \<Longrightarrow> vacant_run demo_vmm (2 ^ 35 + k) n"
  unfolding vacant_run_def
proof (intro allI impI)
  fix j assume "2 \<le> k" "k + n \<le> 512" "j < n"
  then show "\<exists>p. vacant_page demo_vmm p \<and> pageNo p = 2 ^ 35 + k + j"
    using demo_page [of "k + j"] by (intro exI [of _ "[256, 0, 0, of_nat (k + j)]"]) simp
qed

lemma demo_phys: "pmm_inv (phys demo_vmm)" "frameCnt (phys demo_vmm) \<le> 2 ^ 40" "card (avail_addrs (phys demo_vmm)) = 3"
proof -
  have p: "phys demo_vmm = pmm_small" by (simp add: demo_vmm_def)
  show "pmm_inv (phys demo_vmm)" "frameCnt (phys demo_vmm) \<le> 2 ^ 40"
    using pmm_small_inv by (simp_all add: p pmm_small_def pmm_of_def)
  have "int (card (avail_addrs pmm_small)) = 3" using card_avail [OF pmm_small_inv] by (simp add: pmm_small_def pmm_of_def)
  then show "card (avail_addrs (phys demo_vmm)) = 3" by (simp add: p)
qed

section \<open>Properties\<close>

text \<open>Without any vacant page the loop for runs never ends: the failed search gives indices 0, behind which it starts again.\<close>

lemma contiguousLoop_endless:
  assumes "contiguousLoop None n k res prev v = Some y" "subtree v 3 (pml4 v)" "\<nexists>p. vacant_page v p" "k = 1" "2 \<le> n" "prev = [0, 0, 0, 0]"
  shows False
proof -
  have s: "\<exists>r. firstUnalloc None io v = Some (r, v) \<and> r = [0, 0, 0, 0]" if "valid_idx io" for io
    using first_vacant_spec [OF assms(2) that] assms(3) by auto
  have "alloc = None \<longrightarrow> w = v \<longrightarrow> j = 1 \<longrightarrow> 2 \<le> n \<longrightarrow> pv = [0, 0, 0, 0] \<longrightarrow> False"
    if "contiguousLoop alloc n j rs pv w = Some z" for alloc n j rs pv w z
  proof (rule contiguousLoop.raw_induct [OF _ that], intro impI, goal_cases)
    case (1 loop alloc n j rs pv w z)
    have np: "nextPage pv = [0, 0, 0, 1]" "valid_idx [0, 0, 0, 1]" "getVirtualAddr [0, 0, 0, 1] \<noteq> getVirtualAddr [0, 0, 0, 0]"
      unfolding 1 by (simp_all add: nextPage_def valid_idx_def) code_simp+
    then have f: "firstUnalloc None [0, 0, 0, 1] v = Some ([0, 0, 0, 0], v)" using s by auto
    have "loop None n 1 [0, 0, 0, 0] [0, 0, 0, 0] v = Some z" using 1(2-) f np by simp
    then show False using 1(1) 1(6) by blast
  qed
  then show False using assms(1,4-6) by blast
qed

text \<open>C23: the search without table creation on well-formed tables. \<open>getFirstUnallocPage\<close> always returns: the first vacant page from \<open>begin\<close> on in the
  order of addresses, or indices 0 when there is none. \<open>getFirstNUnallocPage\<close> returns the first run of \<open>n\<close> vacant pages if there is one from \<open>begin\<close>
  on, and never returns when there is no vacant page at all and more than one is asked for. Nothing is changed.\<close>

theorem vmm_search_first:
  assumes "vmm_ok v" "valid_idx io"
  shows "(\<exists>r. getFirstUnallocPage io NO_ALLOC v = Some (r, v) \<and>
      (if \<exists>p. vacant_page v p \<and> pageNo io \<le> pageNo p
       then vacant_page v r \<and> pageNo io \<le> pageNo r \<and> (\<forall>p. vacant_page v p \<and> pageNo io \<le> pageNo p \<longrightarrow> pageNo r \<le> pageNo p)
       else r = [0, 0, 0, 0])) \<and>
    (\<forall>n q. 0 < n \<and> pageNo io \<le> q \<and> vacant_run v q n \<longrightarrow>
      (\<exists>r. getFirstNUnallocPage io NO_ALLOC (int n) v = Some (r, v) \<and> least_run v (pageNo io) n r)) \<and>
    ((\<nexists>p. vacant_page v p) \<longrightarrow> (\<forall>n\<ge>2. getFirstNUnallocPage io NO_ALLOC n v = None))"
proof -
  have sub: "subtree v 3 (pml4 v)" using assms(1) by (simp add: vmm_ok_def)
  have "firstNUnalloc None io n v = None" if none: "\<nexists>p. vacant_page v p" and n: "2 \<le> n" for n
  proof -
    have "firstUnalloc None io v = Some ([0, 0, 0, 0], v)" using first_vacant_spec [OF sub assms(2)] none by auto
    moreover have "contiguousLoop None n 1 [0, 0, 0, 0] [0, 0, 0, 0] v = None"
      using contiguousLoop_endless [OF _ sub none refl n refl] by (cases "contiguousLoop None n 1 [0, 0, 0, 0] [0, 0, 0, 0] v") blast+
    ultimately show ?thesis by (simp add: firstNUnalloc_def)
  qed
  then show ?thesis
    using first_vacant_spec [OF sub assms(2)] first_run_spec [OF sub assms(2)]
    unfolding getFirstUnallocPage_def getFirstNUnallocPage_def tableSource.simps by blast
qed

theorem vmm_search_first_witness:
  "vmm_ok demo_vmm \<and> valid_idx [256, 0, 0, 0] \<and>
   (\<exists>r. getFirstNUnallocPage [256, 0, 0, 0] NO_ALLOC (int 2) demo_vmm = Some (r, demo_vmm) \<and> least_run demo_vmm (2 ^ 35) 2 r)"
proof -
  have v: "valid_idx [256, 0, 0, 0]" "pageNo [256, 0, 0, 0] = 2 ^ 35" using demo_page [of 0] by simp_all
  show ?thesis
    using conjunct1 [OF conjunct2 [OF vmm_search_first [OF demo_vmm_ok v(1)]], THEN spec, THEN spec, of 2 "2 ^ 35 + 2"]
      demo_run [of 2 2] v demo_vmm_ok by simp
qed

text \<open>C21: \<open>allocNPages\<close> with enough page table entries at hand: it panics when fewer frames than pages are free;
  otherwise it returns the address of the first run of \<open>n\<close> vacant pages of the half asked for and maps each
  of them to a different frame that was free. All other pages keep their mapping, exactly these frames are
  taken, and the tables stay well-formed.\<close>

theorem allocNPages_maps:
  assumes "vmm_ok v" "pmm_inv (phys v)" "frameCnt (phys v) \<le> 2 ^ 40" "0 < n"
    "int n + 11 \<le> getAvailablePages hh v" "getAvailablePages hh v < 2 ^ 31"
    "pageNo (first_page hh) \<le> q" "vacant_run v q n"
  shows "if card (avail_addrs (phys v)) < n then allocNPages hh (int n) v = None
    else \<exists>io v'. allocNPages hh (int n) v = Some (getVirtualAddr io, v') \<and> least_run v (pageNo (first_page hh)) n io \<and>
      vmm_ok v' \<and> pmm_inv (phys v') \<and> pml4 v' = pml4 v \<and> pages_taken v v' io n"
  using allocPages_spec [OF assms] unfolding allocNPages_def by (auto split: if_splits)

theorem allocNPages_maps_witness:
  "\<exists>io v'. allocNPages True (int 3) demo_vmm = Some (getVirtualAddr io, v') \<and> vmm_ok v' \<and> pages_taken demo_vmm v' io 3"
proof -
  have a: "int 3 + 11 \<le> getAvailablePages True demo_vmm" "getAvailablePages True demo_vmm < 2 ^ 31"
    by (simp_all add: demo_vmm_def getAvailablePages_def)
  have "pageNo (first_page True) \<le> 2 ^ 35 + 2" using first_page_no(2) [of True] by simp
  then show ?thesis
    using allocNPages_maps [OF demo_vmm_ok demo_phys(1,2) _ a _ demo_run [of 2 3]] demo_phys(3) by auto
qed

text \<open>C22: \<open>freePage\<close> of a mapped page unmaps exactly that page, gives its frame back and flushes the address; but
  it also clears the level bits that entry 0 of a table holds, so the tables stay well-formed if and only if
  the page is not the first one of its table.\<close>

theorem freePage_unmaps:
  assumes "vmm_ok v" "pmm_inv (phys v)" "valid_idx io" "getIndexOffset addr = io"
    "page_map v io = Some fr" "fr \<in> managed_addrs (phys v)"
  shows "\<exists>v'. freePage addr v = Some v' \<and> pmm_inv (phys v') \<and> avail_addrs (phys v') = insert fr (avail_addrs (phys v)) \<and>
    (\<forall>p. valid_idx p \<longrightarrow> page_map v' p = (if p = io then None else page_map v p)) \<and> addr \<in> set (flushed v') \<and>
    (vmm_ok v' \<longleftrightarrow> io ! 3 \<noteq> 0)"
  using freePage_spec [OF assms] by blast

theorem freePage_unmaps_witness:
  "\<exists>v'. freePage 0xffff800000001000 demo_vmm = Some v' \<and> vmm_ok v' \<and> page_map v' [256, 0, 0, 1] = None \<and>
    card (avail_addrs (phys v')) = 4"
proof -
  have i: "getIndexOffset 0xffff800000001000 = [256, 0, 0, 1]"
    by (simp add: getIndexOffset_def getI0_def getI1_def getI2_def getI3_def drop_bit_eq_div)
  have v: "valid_idx [256, 0, 0, 1]" "page_map demo_vmm [256, 0, 0, 1] = Some 0x1000" using demo_page [of 1] by simp_all
  have p: "phys demo_vmm = pmm_small" by (simp add: demo_vmm_def)
  have m: "0x1000 = frame_addr 1" by (simp add: frame_addr_def)
  have f: "frame_addr 1 \<in> managed_addrs pmm_small" by (auto simp: managed_addrs_def pmm_small_def pmm_of_def)
  have "1 \<notin> free_frames pmm_small" by (simp add: pmm_small_free)
  then have "frame_addr 1 \<notin> avail_addrs pmm_small" by (auto simp: avail_addrs_def pmm_small_free frame_addr_inj)
  then show ?thesis
    using freePage_unmaps [OF demo_vmm_ok demo_phys(1) v(1) i v(2)] f v(1) demo_phys(3) pmm.finite_avail
    unfolding p m by auto
qed

end
