(* ===== verification/Free_List.thy ===== *)
theory Free_List
  imports Byte_Memory
begin

text \<open>
  The kernel heap (\<open>kernel/include/kernel/memory/heap.h\<close>, \<open>kernel/kernel/memory/heap.cpp\<close>,
  \<open>kheap.cpp\<close>): a free list of blocks kept in the memory it manages. A block is a 16-byte packed
  header (\<open>size\<close>, \<open>next\<close>) and \<open>size\<close> payload bytes behind it. The model works on the byte memory
  of \<open>Byte_Memory\<close>, with 64-bit pointer arithmetic; a walk along \<open>next\<close> pointers that does not end
  is \<^const>\<open>None\<close>.
\<close>

section \<open>State and node accesses\<close>

record FreeList =
  hmem :: mem
  head :: u64

abbreviation (input) sizeofNode :: u64 where "sizeofNode \<equiv> 16"
abbreviation (input) pageSize :: u64 where "pageSize \<equiv> 4096"

definition nsize :: "mem \<Rightarrow> u64 \<Rightarrow> u64" where "nsize m p = read64 m p"
definition nnext :: "mem \<Rightarrow> u64 \<Rightarrow> u64" where "nnext m p = read64 m (p + 8)"
definition set_nsize :: "u64 \<Rightarrow> u64 \<Rightarrow> mem \<Rightarrow> mem" where "set_nsize p v m = write64 p v m"
definition set_nnext :: "u64 \<Rightarrow> u64 \<Rightarrow> mem \<Rightarrow> mem" where "set_nnext p v m = write64 (p + 8) v m"

section \<open>Operations\<close>

text \<open>The branch of \<open>addNode\<close> that grows \<open>cur\<close> over the node behind it, and then over \<open>next\<close>.\<close>

definition coalesceInto :: "u64 \<Rightarrow> u64 \<Rightarrow> mem \<Rightarrow> mem" where
  "coalesceInto cur newNode m =
     (let m1 = set_nsize cur (nsize m cur + (sizeofNode + nsize m newNode)) m;
          nxt = nnext m1 cur
      in if nxt = cur + sizeofNode + nsize m1 cur
         then let m2 = set_nsize cur (nsize m1 cur + (sizeofNode + nsize m1 nxt)) m1
              in set_nnext cur (nnext m2 nxt) m2
         else m1)"

text \<open>The loop of \<open>addNode\<close>: \<open>Inl\<close> is its early return, \<open>Inr (prev, cur)\<close> the exit of the loop.\<close>

partial_function (option) addNode_walk :: "mem \<Rightarrow> u64 \<Rightarrow> u64 \<Rightarrow> u64 \<Rightarrow> (mem + u64 \<times> u64) option" where
  "addNode_walk m newNode cur prev =
     (if cur \<noteq> 0 \<and> cur \<le> newNode then
        if cur + sizeofNode + nsize m cur = newNode
        then Some (Inl (coalesceInto cur newNode m))
        else addNode_walk m newNode (nnext m cur) cur
      else Some (Inr (prev, cur)))"

text \<open>The rest of \<open>addNode\<close>: link the node between \<open>prev\<close> and \<open>cur\<close>, then merge with what follows.\<close>

definition linkNode :: "u64 \<Rightarrow> u64 \<Rightarrow> u64 \<Rightarrow> FreeList \<Rightarrow> FreeList" where
  "linkNode newNode prev cur h =
     (let m1 = set_nnext newNode cur (hmem h);
          h2 = (if prev \<noteq> 0 then h\<lparr>hmem := set_nnext prev newNode m1\<rparr>
                else h\<lparr>hmem := m1, head := newNode\<rparr>);
          m2 = hmem h2
      in if newNode + sizeofNode + nsize m2 newNode = cur then
           let m3 = set_nsize newNode (nsize m2 newNode + (sizeofNode + nsize m2 cur)) m2;
               m4 = set_nnext newNode (nnext m3 cur) m3;
               nxt = nnext m4 cur
           in if newNode + sizeofNode + nsize m4 newNode = nxt then
                let m5 = set_nsize newNode (nsize m4 newNode + (sizeofNode + nsize m4 nxt)) m4
                in h2\<lparr>hmem := set_nnext newNode (nnext m5 nxt) m5\<rparr>
              else h2\<lparr>hmem := m4\<rparr>
         else h2)"

definition addNode :: "u64 \<Rightarrow> FreeList \<Rightarrow> FreeList option" where
  "addNode newNode h =
     (case addNode_walk (hmem h) newNode (head h) 0 of
        None \<Rightarrow> None
      | Some (Inl m) \<Rightarrow> Some (h\<lparr>hmem := m\<rparr>)
      | Some (Inr (prev, cur)) \<Rightarrow> Some (linkNode newNode prev cur h))"

definition addMemory :: "u64 \<Rightarrow> u64 \<Rightarrow> FreeList \<Rightarrow> FreeList option" where
  "addMemory addr sz h =
     addNode addr (h\<lparr>hmem := set_nnext addr 0 (set_nsize addr (sz - sizeofNode) (hmem h))\<rparr>)"

definition heap_new :: "u64 \<Rightarrow> u64 \<Rightarrow> mem \<Rightarrow> FreeList option" where
  "heap_new addr sz m = addMemory addr sz \<lparr>hmem = m, head = 0\<rparr>"

definition heap_free :: "u64 \<Rightarrow> FreeList \<Rightarrow> FreeList option" where
  "heap_free ptr h = addNode (ptr - sizeofNode) h"

text \<open>\<open>split\<close> returns the rest of a block that is large enough to be cut (0 for \<open>nullptr\<close>).\<close>

definition split_node :: "u64 \<Rightarrow> u64 \<Rightarrow> mem \<Rightarrow> u64 \<times> mem" where
  "split_node node sz m =
     (if nsize m node < sz + sizeofNode + 1 then (0, m)
      else let part = node + sizeofNode + sz;
               m1 = set_nsize part (nsize m node - sz - sizeofNode) m
           in (part, set_nnext part 0 m1))"

text \<open>The best-fit scan of \<open>alloc\<close>; the result is \<open>(target, prev)\<close>.\<close>

partial_function (option) alloc_scan ::
  "mem \<Rightarrow> u64 \<Rightarrow> u64 \<Rightarrow> u64 \<Rightarrow> u64 \<Rightarrow> u64 \<Rightarrow> u64 \<Rightarrow> (u64 \<times> u64) option" where
  "alloc_scan m sz cur target prev prevNode usedSize =
     (if cur = 0 then Some (target, prev)
      else if nsize m cur \<ge> sz \<and> nsize m cur < usedSize
      then alloc_scan m sz (nnext m cur) cur prevNode cur (nsize m cur)
      else alloc_scan m sz (nnext m cur) target prev cur usedSize)"

text \<open>What \<open>alloc\<close> does with the target it found.\<close>

definition takeTarget :: "u64 \<Rightarrow> u64 \<Rightarrow> u64 \<Rightarrow> FreeList \<Rightarrow> u64 \<times> FreeList" where
  "takeTarget sz target prev h =
     (let (part, m1) = split_node target sz (hmem h)
      in if part \<noteq> 0 then
           let h2 = (if prev \<noteq> 0 then h\<lparr>hmem := set_nnext prev part m1\<rparr>
                     else h\<lparr>hmem := m1, head := part\<rparr>);
               m3 = set_nnext part (nnext (hmem h2) target) (hmem h2)
           in (target + sizeofNode, h2\<lparr>hmem := set_nsize target sz m3\<rparr>)
         else
           (target + sizeofNode,
            if prev \<noteq> 0 then h\<lparr>hmem := set_nnext prev (nnext m1 target) m1\<rparr>
            else h\<lparr>hmem := m1, head := nnext m1 target\<rparr>))"

text \<open>
  \<open>alloc\<close> asks the virtual memory manager for whole pages when no block fits, and retries. The
  argument \<open>allocNPages\<close> is \<open>VMM::allocNPages(true, n)\<close> as a transformer of the manager's state.
\<close>

definition reqPages :: "u64 \<Rightarrow> int" where
  "reqPages sz = sint (ucast ((sz + sizeofNode + pageSize - 1) div pageSize) :: u32)"

partial_function (option) heap_alloc ::
  "(int \<Rightarrow> 'v \<Rightarrow> (u64 \<times> 'v) option) \<Rightarrow> u64 \<Rightarrow> 'v \<Rightarrow> FreeList \<Rightarrow> (u64 \<times> 'v \<times> FreeList) option" where
  "heap_alloc allocNPages sz vmm h =
     Option.bind (alloc_scan (hmem h) sz (head h) 0 0 0 (- 1))
       (\<lambda>(target, prev).
          if target = 0 then
            Option.bind (allocNPages (reqPages sz) vmm)
              (\<lambda>(addr, vmm'). Option.bind (addMemory addr (word_of_int (reqPages sz * 4096)) h)
                 (\<lambda>h'. heap_alloc allocNPages sz vmm' h'))
          else (let (p, h') = takeTarget sz target prev h in Some (p, vmm, h')))"

text \<open>\<open>MallocHeap::init\<close>, \<open>kmalloc\<close> and \<open>kfree\<close> work on the one static heap.\<close>

definition mallocHeap_init ::
  "(int \<Rightarrow> 'v \<Rightarrow> (u64 \<times> 'v) option) \<Rightarrow> 'v \<Rightarrow> mem \<Rightarrow> ('v \<times> FreeList) option" where
  "mallocHeap_init allocNPages vmm m =
     Option.bind (allocNPages 1 vmm)
       (\<lambda>(addr, vmm'). map_option (\<lambda>h. (vmm', h)) (heap_new addr pageSize m))"

definition kmalloc ::
  "(int \<Rightarrow> 'v \<Rightarrow> (u64 \<times> 'v) option) \<Rightarrow> u64 \<Rightarrow> 'v \<Rightarrow> FreeList \<Rightarrow> (u64 \<times> 'v \<times> FreeList) option" where
  "kmalloc allocNPages sz vmm h = heap_alloc allocNPages sz vmm h"

definition kfree :: "u64 \<Rightarrow> FreeList \<Rightarrow> FreeList option" where
  "kfree ptr h = heap_free ptr h"

section \<open>Abstraction: the list of free blocks\<close>

text \<open>
  A block is a pair of numbers: the address of its header and its payload size. \<open>seg m p bs q\<close>
  says that following \<open>next\<close> from \<open>p\<close> visits the blocks \<open>bs\<close> and then reaches \<open>q\<close>.
\<close>

type_synonym block = "nat \<times> nat"

fun seg :: "mem \<Rightarrow> u64 \<Rightarrow> block list \<Rightarrow> u64 \<Rightarrow> bool" where
  "seg m p [] q \<longleftrightarrow> p = q"
| "seg m p ((a, s) # bs) q \<longleftrightarrow> p \<noteq> 0 \<and> unat p = a \<and> unat (nsize m p) = s \<and> seg m (nnext m p) bs q"

definition bend :: "block \<Rightarrow> nat" where
  "bend b = fst b + 16 + snd b"

text \<open>Free blocks lie in address order with a gap between any two, and end below \<open>2\<^sup>6\<^sup>4\<close>.\<close>

fun separated :: "block list \<Rightarrow> bool" where
  "separated [] \<longleftrightarrow> True"
| "separated (b # bs) \<longleftrightarrow> 0 < fst b \<and> bend b < 2 ^ 64 \<and> (\<forall>c \<in> set bs. bend b < fst c) \<and> separated bs"

definition heap_inv :: "FreeList \<Rightarrow> block list \<Rightarrow> bool" where
  "heap_inv h bs \<longleftrightarrow> seg (hmem h) (head h) bs 0 \<and> separated bs"

text \<open>Insertion of a block with merging of its neighbours, and best-fit selection.\<close>

fun merge_next :: "block \<Rightarrow> block list \<Rightarrow> block list" where
  "merge_next (a, s) [] = [(a, s)]"
| "merge_next (a, s) ((c, t) # bs) =
     (if a + 16 + s = c then (a, s + 16 + t) # bs else (a, s) # (c, t) # bs)"

fun insert_block :: "block \<Rightarrow> block list \<Rightarrow> block list" where
  "insert_block b [] = [b]"
| "insert_block b (c # bs) =
     (if fst b < fst c then merge_next b (c # bs)
      else if bend c = fst b then merge_next (fst c, snd c + 16 + snd b) bs
      else c # insert_block b bs)"

fun best_fit :: "nat \<Rightarrow> block option \<Rightarrow> block list \<Rightarrow> block option" where
  "best_fit n best [] = best"
| "best_fit n best (b # bs) =
     (if n \<le> snd b \<and> (case best of None \<Rightarrow> True | Some c \<Rightarrow> snd b < snd c)
      then best_fit n (Some b) bs else best_fit n best bs)"

text \<open>What remains of a block after \<open>n\<close> bytes of it were allocated, and the allocated part.\<close>

definition rest_of :: "nat \<Rightarrow> block \<Rightarrow> block list" where
  "rest_of n b = (if snd b < n + 17 then [] else [(fst b + 16 + n, snd b - n - 16)])"

definition taken_of :: "nat \<Rightarrow> block \<Rightarrow> block" where
  "taken_of n b = (fst b, if snd b < n + 17 then snd b else n)"

definition replace_block :: "block \<Rightarrow> block list \<Rightarrow> block list \<Rightarrow> block list" where
  "replace_block b rs bs = takeWhile (\<lambda>c. c \<noteq> b) bs @ rs @ tl (dropWhile (\<lambda>c. c \<noteq> b) bs)"

text \<open>The bytes a list of blocks occupies.\<close>

definition bytes_of :: "block list \<Rightarrow> nat set" where
  "bytes_of bs = (\<Union>b\<in>set bs. {fst b..<bend b})"

section \<open>Headers in memory\<close>

definition apart :: "u64 \<Rightarrow> nat \<Rightarrow> bool" where
  "apart p a \<longleftrightarrow> unat p + 16 \<le> a \<or> a + 16 \<le> unat p"

lemma fits_field: "fits p 16 \<Longrightarrow> fits p 8 \<and> fits (p + 8) 8 \<and> unat (p + 8) = unat p + 8"
proof -
  assume f: "fits p 16"
  then have "unat (p + 8) = unat p + 8" using unat_plus_small [OF f, of 8] by simp
  then show ?thesis using f by (simp add: fits_def)
qed

lemma node_same [simp]:
  "nsize (set_nsize p v m) p = v" "nnext (set_nnext p v m) p = v"
  by (simp_all add: nsize_def nnext_def set_nsize_def set_nnext_def)

lemma node_other_field [simp]:
  "fits p 16 \<Longrightarrow> nnext (set_nsize p v m) p = nnext m p"
  "fits p 16 \<Longrightarrow> nsize (set_nnext p v m) p = nsize m p"
  using fits_field [of p]
  by (simp_all add: nsize_def nnext_def set_nsize_def set_nnext_def read64_write64_apart)

lemma node_apart:
  assumes "fits p 16" "fits q 16" "apart p (unat q)"
  shows "nsize (set_nsize p v m) q = nsize m q" "nnext (set_nsize p v m) q = nnext m q"
    "nsize (set_nnext p v m) q = nsize m q" "nnext (set_nnext p v m) q = nnext m q"
  using assms(3) fits_field [OF assms(1)] fits_field [OF assms(2)]
  by (auto simp: nsize_def nnext_def set_nsize_def set_nnext_def apart_def intro!: read64_write64_apart)

lemma node_outside:
  assumes "fits p 16" "unat x \<notin> {unat p..<unat p + 16}"
  shows "set_nsize p v m x = m x" "set_nnext p v m x = m x"
  using assms(2) fits_field [OF assms(1)]
  by (auto simp: set_nsize_def set_nnext_def not_le not_less intro!: write64_outside)

lemma unat_end:
  fixes p v :: u64
  assumes "unat p + 16 + unat v < 2 ^ 64"
  shows "unat (p + 16 + v) = unat p + 16 + unat v" "unat (p + (16 + v)) = unat p + 16 + unat v"
  using assms by (simp_all add: unat_word_ariths add.assoc)

lemma unat_eq_word: "(p :: u64) = q \<longleftrightarrow> unat p = unat q"
  by (rule word_unat_eq_iff)

section \<open>Segments\<close>

lemma seg_append: "seg m p (xs @ ys) q \<longleftrightarrow> (\<exists>r. seg m p xs r \<and> seg m r ys q)"
  by (induction xs arbitrary: p) auto

lemma seg_frame:
  assumes "\<And>b p. b \<in> set bs \<Longrightarrow> unat p = fst b \<Longrightarrow> nsize m' p = nsize m p \<and> nnext m' p = nnext m p"
  shows "seg m' p bs q \<longleftrightarrow> seg m p bs q"
  using assms
proof (induction bs arbitrary: p)
  case (Cons b bs)
  obtain a s where b: "b = (a, s)" by fastforce
  have "seg m' r bs q \<longleftrightarrow> seg m r bs q" for r using Cons by auto
  moreover have "nsize m' p = nsize m p \<and> nnext m' p = nnext m p" if "unat p = a"
    using Cons.prems [of b p] that b by simp
  ultimately show ?case unfolding b by (cases "unat p = a") (simp_all del: unat_eq_0)
qed simp

definition all_apart :: "u64 \<Rightarrow> block list \<Rightarrow> bool" where
  "all_apart p bs \<longleftrightarrow> (\<forall>b\<in>set bs. bend b < 2 ^ 64 \<and> apart p (fst b))"

lemma all_apart_simps [simp]:
  "all_apart p []" "all_apart p (b # bs) \<longleftrightarrow> bend b < 2 ^ 64 \<and> apart p (fst b) \<and> all_apart p bs"
  "all_apart p (xs @ ys) \<longleftrightarrow> all_apart p xs \<and> all_apart p ys"
  by (auto simp: all_apart_def)

lemma bend_fits: "bend b < 2 ^ 64 \<Longrightarrow> unat p = fst b \<Longrightarrow> fits p 16"
  by (simp add: bend_def fits_def)

lemma seg_update:
  assumes "fits p 16" "all_apart p bs"
  shows "seg (set_nsize p v m) r bs q \<longleftrightarrow> seg m r bs q" "seg (set_nnext p v m) r bs q \<longleftrightarrow> seg m r bs q"
proof -
  have f: "fits r 16" "apart p (unat r)" if "b \<in> set bs" "unat r = fst b" for b r
    using assms(2) that bend_fits [of b r] by (simp_all add: all_apart_def)
  show "seg (set_nsize p v m) r bs q \<longleftrightarrow> seg m r bs q" "seg (set_nnext p v m) r bs q \<longleftrightarrow> seg m r bs q"
    by (rule seg_frame, use f node_apart [OF assms(1)] in blast)+
qed

lemma separated_append:
  "separated (xs @ ys) \<longleftrightarrow> separated xs \<and> separated ys \<and> (\<forall>x\<in>set xs. \<forall>y\<in>set ys. bend x < fst y)"
  by (induction xs) auto

lemma separated_mem: "separated bs \<Longrightarrow> b \<in> set bs \<Longrightarrow> 0 < fst b \<and> bend b < 2 ^ 64"
  by (induction bs) auto

lemma separated_apart:
  assumes "separated (xs @ b # ys)" "unat p = fst b"
  shows "all_apart p xs" "all_apart p ys"
  using assms by (auto simp: separated_append all_apart_def apart_def bend_def dest: separated_mem)

lemma seg_relink:
  assumes "seg m p (xs @ [b]) r" "separated (xs @ [b])" "unat z = fst b"
  shows "seg (set_nnext z q m) p (xs @ [b]) q"
proof -
  obtain y where y: "seg m p xs y" "seg m y [b] r" using assms(1) by (auto simp: seg_append)
  obtain a s where b: "b = (a, s)" by fastforce
  have yz: "y = z" using y(2) assms(3) b by (simp add: unat_eq_word)
  have f: "fits z 16" using assms(2,3) by (intro bend_fits [of b]) (auto simp: separated_append)
  show ?thesis using y yz f b separated_apart [OF assms(2,3)] seg_update(2) [OF f]
    by (auto simp: seg_append)
qed

section \<open>Insertion with coalescing\<close>

text \<open>Blocks the loop of \<open>addNode\<close> walks past: at or below the new node and not touching it.\<close>

definition passed :: "nat \<Rightarrow> block list \<Rightarrow> bool" where
  "passed a bs \<longleftrightarrow> (\<forall>b\<in>set bs. fst b \<le> a \<and> bend b \<noteq> a)"

lemma passed_simps [simp]:
  "passed a []" "passed a (b # bs) \<longleftrightarrow> fst b \<le> a \<and> bend b \<noteq> a \<and> passed a bs"
  "passed a (xs @ ys) \<longleftrightarrow> passed a xs \<and> passed a ys"
  by (auto simp: passed_def)

lemma addNode_walk_spec:
  assumes "seg m cur ys 0" "separated ys" "unat nd = a"
  shows "(\<exists>us c vs cw. ys = us @ c # vs \<and> passed a us \<and> bend c = a \<and> seg m cur us cw \<and> unat cw = fst c \<and>
            addNode_walk m nd cur prev = Some (Inl (coalesceInto cw nd m))) \<or>
         (\<exists>us vs cw pw. ys = us @ vs \<and> passed a us \<and> (vs = [] \<or> a < fst (hd vs)) \<and>
            seg m cur us cw \<and> seg m cw vs 0 \<and>
            addNode_walk m nd cur prev = Some (Inr (pw, cw)) \<and>
            (if us = [] then pw = prev else unat pw = fst (last us)))"
    (is "?A cur ys prev \<or> ?B cur ys prev")
  using assms
proof (induction ys arbitrary: cur prev)
  case Nil
  then have "?B cur [] prev" by (subst addNode_walk.simps) simp
  then show ?case ..
next
  case (Cons b ys)
  obtain c t where b: "b = (c, t)" by fastforce
  have hd: "cur \<noteq> 0" "unat cur = c" "unat (nsize m cur) = t" "seg m (nnext m cur) ys 0"
    and sep: "separated ys" "bend b < 2 ^ 64" "\<forall>d\<in>set ys. bend b < fst d"
    using Cons.prems b by auto
  have e: "cur + 16 + nsize m cur = nd \<longleftrightarrow> bend b = a"
    using unat_end(1) [of cur "nsize m cur"] hd sep(2) assms(3) b by (simp add: unat_eq_word bend_def)
  have le: "cur \<le> nd \<longleftrightarrow> c \<le> a" using hd(2) assms(3) by (simp add: word_le_nat_alt)
  consider "a < c" | "c \<le> a" "bend b = a" | "c \<le> a" "bend b \<noteq> a" by linarith
  then show ?case
  proof cases
    case 1
    then have "?B cur (b # ys) prev"
      using Cons.prems le b
      by (intro exI [of _ "[]"] exI [of _ "b # ys"] exI [of _ cur] exI [of _ prev])
        (simp add: addNode_walk.simps [of m nd cur])
    then show ?thesis ..
  next
    case 2
    then have "addNode_walk m nd cur prev = Some (Inl (coalesceInto cur nd m))"
      using e le hd(1) by (subst addNode_walk.simps) simp
    then have "?A cur (b # ys) prev"
      using 2 hd b by (intro exI [of _ "[]"] exI [of _ b] exI [of _ ys] exI [of _ cur]) simp
    then show ?thesis ..
  next
    case 3
    have unf: "addNode_walk m nd cur prev = addNode_walk m nd (nnext m cur) cur"
      using 3 e le hd(1) by (subst addNode_walk.simps) simp
    have cons: "seg m cur (b # us) cw" if "seg m (nnext m cur) us cw" for us cw
      using hd b that by simp
    have ps: "passed a (b # us)" if "passed a us" for us using that 3 b by simp
    from Cons.IH [OF hd(4) sep(1) assms(3), of cur] show ?thesis
    proof (rule disjE)
      assume "?A (nnext m cur) ys cur"
      then obtain us c' vs cw where w: "ys = us @ c' # vs" "passed a us" "bend c' = a"
        "seg m (nnext m cur) us cw" "unat cw = fst c'"
        "addNode_walk m nd (nnext m cur) cur = Some (Inl (coalesceInto cw nd m))" by blast
      then have "?A cur (b # ys) prev" using unf cons ps
        by (intro exI [of _ "b # us"] exI [of _ c'] exI [of _ vs] exI [of _ cw]) simp
      then show ?thesis ..
    next
      assume "?B (nnext m cur) ys cur"
      then obtain us vs cw pw where w: "ys = us @ vs" "passed a us" "vs = [] \<or> a < fst (List.hd vs)"
        "seg m (nnext m cur) us cw" "seg m cw vs 0"
        "addNode_walk m nd (nnext m cur) cur = Some (Inr (pw, cw))"
        "if us = [] then pw = cur else unat pw = fst (last us)" by blast
      have "unat pw = fst (last (b # us))" using w(7) hd(2) b by (simp split: if_splits)
      then have "?B cur (b # ys) prev" using w unf cons ps
        by (intro exI [of _ "b # us"] exI [of _ vs] exI [of _ cw] exI [of _ pw]) simp
      then show ?thesis ..
    qed
  qed
qed

lemma insert_block_passed:
  "passed (fst b) us \<Longrightarrow> separated (us @ vs) \<Longrightarrow> insert_block b (us @ vs) = us @ insert_block b vs"
  by (induction us) (auto simp: not_less)

lemma merge_next_separated:
  assumes "separated vs" "0 < fst b" "bend b < 2 ^ 64" "\<forall>c\<in>set vs. bend b \<le> fst c"
  shows "separated (merge_next b vs) \<and> (\<forall>c\<in>set (merge_next b vs). fst b \<le> fst c)"
proof (cases vs)
  case Nil
  then show ?thesis using assms by (cases b) simp
next
  case (Cons c ws)
  obtain a s d t where bc: "b = (a, s)" "c = (d, t)" by fastforce
  have c: "bend c < 2 ^ 64" "\<forall>e\<in>set ws. bend c < fst e" "separated ws" "bend b \<le> d"
    using assms Cons bc by auto
  have ws: "\<forall>e\<in>set ws. bend b < fst e \<and> a \<le> fst e"
    using c bc by (fastforce simp: bend_def)
  show ?thesis
  proof (cases "a + 16 + s = d")
    case True
    then have "bend (a, s + 16 + t) = bend c" using bc by (simp add: bend_def)
    then show ?thesis using True Cons bc c ws assms by auto
  next
    case False
    then have "bend b < d" using c(4) bc by (simp add: bend_def)
    then show ?thesis using False Cons bc c ws assms by (auto simp: bend_def)
  qed
qed

lemma headers_disjoint:
  assumes "separated bs" "unat p = a" "\<forall>c\<in>set bs. bend c \<le> a \<or> a + 16 + s \<le> fst c"
  shows "all_apart p bs"
  unfolding all_apart_def
proof
  fix b
  assume b: "b \<in> set bs"
  then have "bend b \<le> a \<or> a + 16 + s \<le> fst b" using assms(3) by blast
  then have "apart p (fst b)" using assms(2) by (auto simp: apart_def bend_def)
  then show "bend b < 2 ^ 64 \<and> apart p (fst b)" using separated_mem [OF assms(1) b] by simp
qed

lemma unat_add3:
  fixes v w :: u64
  assumes "unat v + 16 + unat w < 2 ^ 64"
  shows "unat (v + (16 + w)) = unat v + 16 + unat w"
  using assms by (simp add: unat_word_ariths add.assoc)

text \<open>One node grows over the free node that starts right behind it.\<close>

lemma absorb_next:
  assumes "seg m p us cw" "seg m cw ((a, s) # (d, u) # ws) 0" "a + 16 + s = d" "d + 16 + u < 2 ^ 64"
    "all_apart cw us" "all_apart cw ws"
  defines "m2 \<equiv> set_nsize cw (nsize m cw + (16 + nsize m (nnext m cw))) m"
  shows "seg (set_nnext cw (nnext m2 (nnext m cw)) m2) p (us @ (a, s + 16 + u) # ws) 0"
    and "nnext m2 (nnext m cw) = nnext m (nnext m cw)" "seg m (nnext m (nnext m cw)) ws 0"
    and "unat (nsize m2 cw) = s + 16 + u" "fits cw 16"
proof -
  let ?nx = "nnext m cw"
  have c: "cw \<noteq> 0" "unat cw = a" "unat (nsize m cw) = s" "unat ?nx = d" "unat (nsize m ?nx) = u"
    and ws: "seg m (nnext m ?nx) ws 0" using assms(2) by auto
  have f: "fits cw 16" "fits ?nx 16" using c assms(3,4) by (simp_all add: fits_def)
  have ap: "apart cw (unat ?nx)" using c assms(3) by (simp add: apart_def)
  have "unat (nsize m cw + (16 + nsize m ?nx)) = s + 16 + u"
    using unat_add3 [of "nsize m cw" "nsize m ?nx"] c assms(3,4) by simp
  then show sz: "unat (nsize m2 cw) = s + 16 + u" by (simp add: m2_def)
  show nx: "nnext m2 ?nx = nnext m ?nx" using node_apart [OF f ap] by (simp add: m2_def)
  show "seg m (nnext m ?nx) ws 0" "fits cw 16" by fact+
  have "seg m2 p us cw" "seg m2 (nnext m ?nx) ws 0"
    using seg_update(1) [OF f(1)] assms(1,5,6) ws by (simp_all add: m2_def)
  then show "seg (set_nnext cw (nnext m2 ?nx) m2) p (us @ (a, s + 16 + u) # ws) 0"
    using seg_update(2) [OF f(1)] assms(5,6) c f(1) sz nx by (auto simp: seg_append)
qed

lemma coalesceInto_spec:
  assumes seg: "seg m p (us @ (ca, t) # vs) 0" and sep: "separated (us @ (ca, t) # vs)"
    and nd: "ca + 16 + t = a" "unat cw = ca" "unat (nsize m nd) = s" "a + 16 + s < 2 ^ 64"
    and vs: "\<forall>d\<in>set vs. a + 16 + s \<le> fst d"
  shows "seg (coalesceInto cw nd m) p (us @ merge_next (ca, t + 16 + s) vs) 0"
proof -
  obtain y where y: "seg m p us y" "seg m y ((ca, t) # vs) 0" using seg by (auto simp: seg_append)
  then have "unat y = ca" by simp
  then have "y = cw" using nd(2) unat_eq_word by simp
  with y have c: "y = cw" "cw \<noteq> 0" "unat (nsize m cw) = t" "seg m (nnext m cw) vs 0" by auto
  have ap: "all_apart cw us" "all_apart cw vs" using separated_apart [OF sep, of cw] nd by auto
  have f: "fits cw 16" using nd by (simp add: fits_def)
  define m1 where "m1 = set_nsize cw (nsize m cw + (16 + nsize m nd)) m"
  have m1: "nnext m1 cw = nnext m cw" "unat (nsize m1 cw) = t + 16 + s" "seg m1 p us cw" "seg m1 (nnext m cw) vs 0"
    using f unat_add3 [of "nsize m cw" "nsize m nd"] c nd y seg_update(1) [OF f] ap
    by (simp_all add: m1_def)
  have e: "unat (cw + 16 + nsize m1 cw) = a + 16 + s"
    using unat_end(1) [of cw "nsize m1 cw"] m1(2) nd by simp
  have co: "coalesceInto cw nd m =
      (if nnext m cw = cw + 16 + nsize m1 cw
       then let m2 = set_nsize cw (nsize m1 cw + (16 + nsize m1 (nnext m1 cw))) m1
            in set_nnext cw (nnext m2 (nnext m1 cw)) m2 else m1)"
    using m1(1) by (simp add: coalesceInto_def Let_def m1_def)
  have m1c: "seg m1 cw ((ca, t + 16 + s) # vs) 0" using c m1 nd by simp
  show ?thesis
  proof (cases "nnext m cw = cw + 16 + nsize m1 cw")
    case True
    then have "unat (nnext m cw) = a + 16 + s" using e by simp
    then obtain u ws where vs': "vs = (a + 16 + s, u) # ws" using c(4) nd(4) by (cases vs) auto
    have "(a + 16 + s) + 16 + u < 2 ^ 64"
      using sep vs' by (simp add: separated_append bend_def)
    then show ?thesis
      using absorb_next(1) [OF m1(3) m1c [unfolded vs']] ap vs' True co nd by (simp add: Let_def)
  next
    case False
    then have "unat (nnext m cw) \<noteq> a + 16 + s" using e by (simp add: unat_eq_word)
    then have "merge_next (ca, t + 16 + s) vs = (ca, t + 16 + s) # vs" using c(4) nd by (cases vs) auto
    then show ?thesis using False co m1 m1c by (auto simp: seg_append)
  qed
qed

lemma coalesceInto_outside:
  assumes "fits cw 16" "unat x \<notin> {unat cw..<unat cw + 16}"
  shows "coalesceInto cw nd m x = m x"
  by (simp add: coalesceInto_def Let_def node_outside [OF assms])

text \<open>The first half of \<open>linkNode\<close>: the node is linked between its neighbours.\<close>

definition linked :: "u64 \<Rightarrow> u64 \<Rightarrow> u64 \<Rightarrow> FreeList \<Rightarrow> FreeList" where
  "linked newNode prev cur h =
     (let m1 = set_nnext newNode cur (hmem h)
      in if prev \<noteq> 0 then h\<lparr>hmem := set_nnext prev newNode m1\<rparr> else h\<lparr>hmem := m1, head := newNode\<rparr>)"

lemma linked_spec:
  assumes us: "seg (hmem h) (head h) us cw" and vs: "seg (hmem h) cw vs 0" and sep: "separated (us @ vs)"
    and ap: "all_apart nd (us @ vs)" and nd: "fits nd 16"
    and pw: "if us = [] then pw = 0 else unat pw = fst (last us)"
  defines "h2 \<equiv> linked nd pw cw h"
  shows "seg (hmem h2) (head h2) us nd" "seg (hmem h2) cw vs 0" "nnext (hmem h2) nd = cw"
    "nsize (hmem h2) nd = nsize (hmem h) nd"
proof -
  let ?m1 = "set_nnext nd cw (hmem h)"
  have m1: "seg ?m1 (head h) us cw" "seg ?m1 cw vs 0" using us vs seg_update(2) [OF nd] ap by simp_all
  have "seg (hmem h2) (head h2) us nd \<and> seg (hmem h2) cw vs 0 \<and> nnext (hmem h2) nd = cw \<and>
    nsize (hmem h2) nd = nsize (hmem h) nd"
  proof (cases us rule: rev_cases)
    case Nil
    then show ?thesis using m1 pw nd by (simp add: h2_def linked_def)
  next
    case (snoc us' b)
    have z: "unat pw = fst b" using pw snoc by simp
    have b: "0 < fst b" "bend b < 2 ^ 64" using sep snoc by (auto simp: separated_append)
    then have p0: "pw \<noteq> 0" using z by auto
    have f: "fits pw 16" using bend_fits [OF b(2) z] .
    have sep': "separated (us' @ [b])" using sep snoc by (simp add: separated_append)
    have "all_apart pw vs" using separated_apart(2) [of us' b vs] sep snoc z by simp
    moreover have "apart pw (unat nd)" using ap snoc z by (auto simp: apart_def)
    moreover have "seg (set_nnext pw nd ?m1) (head h) us nd"
      using seg_relink [OF _ sep' z] m1(1) snoc by simp
    ultimately show ?thesis
      using m1 p0 nd f seg_update(2) [OF f] node_apart [OF f nd] by (simp add: h2_def linked_def)
  qed
  then show "seg (hmem h2) (head h2) us nd" "seg (hmem h2) cw vs 0" "nnext (hmem h2) nd = cw"
    "nsize (hmem h2) nd = nsize (hmem h) nd" by auto
qed

lemma linkNode_spec:
  assumes us: "seg (hmem h) (head h) us cw" and vs: "seg (hmem h) cw vs 0" and sep: "separated (us @ vs)"
    and pw: "if us = [] then pw = 0 else unat pw = fst (last us)"
    and nd: "unat nd = a" "0 < a" "unat (nsize (hmem h) nd) = s" "a + 16 + s < 2 ^ 64"
    and dis: "\<forall>c\<in>set us. bend c \<le> a" "\<forall>d\<in>set vs. a + 16 + s \<le> fst d"
  defines "h' \<equiv> linkNode nd pw cw h"
  shows "seg (hmem h') (head h') (us @ merge_next (a, s) vs) 0"
proof -
  have f: "fits nd 16" using nd by (simp add: fits_def)
  have ap: "all_apart nd (us @ vs)" using headers_disjoint [OF sep nd(1), of s] dis by auto
  define h2 where "h2 = linked nd pw cw h"
  note l = linked_spec [OF us vs sep ap f pw, folded h2_def]
  have h': "h' = (if nd + 16 + nsize (hmem h2) nd = cw then
       let m3 = set_nsize nd (nsize (hmem h2) nd + (16 + nsize (hmem h2) cw)) (hmem h2);
           m4 = set_nnext nd (nnext m3 cw) m3;
           nxt = nnext m4 cw
       in if nd + 16 + nsize m4 nd = nxt then
            let m5 = set_nsize nd (nsize m4 nd + (16 + nsize m4 nxt)) m4
            in h2\<lparr>hmem := set_nnext nd (nnext m5 nxt) m5\<rparr>
          else h2\<lparr>hmem := m4\<rparr>
     else h2)"
    by (simp add: h'_def linkNode_def h2_def linked_def Let_def)
  have e: "unat (nd + 16 + nsize (hmem h2) nd) = a + 16 + s"
    using unat_end(1) [of nd "nsize (hmem h2) nd"] nd l(4) by simp
  have node: "seg (hmem h2) nd ((a, s) # vs) 0" using l nd by auto
  show ?thesis
  proof (cases "nd + 16 + nsize (hmem h2) nd = cw")
    case False
    then have "unat cw \<noteq> a + 16 + s" using e by (simp add: unat_eq_word)
    then have "merge_next (a, s) vs = (a, s) # vs" using vs nd by (cases vs) auto
    then show ?thesis using False h' l(1) node by (auto simp: seg_append)
  next
    case True
    then have cw: "unat cw = a + 16 + s" using e by simp
    then obtain u ws where vs': "vs = (a + 16 + s, u) # ws" using vs nd(4) by (cases vs) auto
    have b: "(a + 16 + s) + 16 + u < 2 ^ 64" "\<forall>e\<in>set ws. (a + 16 + s) + 16 + u < fst e"
      using sep vs' by (simp_all add: separated_append bend_def)
    define m3 where "m3 = set_nsize nd (nsize (hmem h2) nd + (16 + nsize (hmem h2) cw)) (hmem h2)"
    define m4 where "m4 = set_nnext nd (nnext m3 cw) m3"
    note abs = absorb_next [OF l(1) node [unfolded vs'] refl b(1)]
    have m4: "seg m4 (head h2) (us @ (a, s + 16 + u) # ws) 0" "unat (nsize m3 nd) = s + 16 + u"
      "nnext m3 cw = nnext (hmem h2) cw" "seg (hmem h2) (nnext (hmem h2) cw) ws 0"
      using abs ap vs' l(3) by (simp_all add: m3_def m4_def)
    have "apart nd (unat cw)" "fits cw 16" using nd(1) cw b by (simp_all add: apart_def fits_def)
    then have n4: "nnext m4 cw = nnext (hmem h2) cw" "nsize m4 nd = nsize m3 nd"
      using node_apart [OF f] m4(3) f by (simp_all add: m4_def)
    have "unat (nd + 16 + nsize m4 nd) = (a + 16 + s) + 16 + u"
      using unat_end(1) [of nd "nsize m4 nd"] n4(2) m4(2) nd b by simp
    moreover have "unat (nnext (hmem h2) cw) \<noteq> (a + 16 + s) + 16 + u" using m4(4) b by (cases ws) auto
    ultimately have "nd + 16 + nsize m4 nd \<noteq> nnext m4 cw" using n4(1) by (metis)
    then have "h' = h2\<lparr>hmem := m4\<rparr>" using True h' by (simp add: m3_def m4_def Let_def)
    then show ?thesis using m4(1) vs' by simp
  qed
qed

lemma linkNode_outside:
  assumes "fits nd 16" "pw \<noteq> 0 \<Longrightarrow> fits pw 16" "unat x \<notin> {unat nd..<unat nd + 16}"
    "pw \<noteq> 0 \<Longrightarrow> unat x \<notin> {unat pw..<unat pw + 16}"
  shows "hmem (linkNode nd pw cw h) x = hmem h x"
  using node_outside [OF assms(1,3)] node_outside [OF assms(2) assms(4)]
  by (simp add: linkNode_def Let_def)

lemma fst_merge_next: "fst ` set (merge_next b bs) \<subseteq> fst ` set (b # bs)"
  by (cases "(b, bs)" rule: merge_next.cases) auto

lemma fst_insert_block: "fst ` set (insert_block b bs) \<subseteq> fst ` set (b # bs)"
proof (induction bs)
  case (Cons c bs)
  then show ?case
    using fst_merge_next [of b "c # bs"] fst_merge_next [of "(fst c, snd c + 16 + snd b)" bs] by auto
qed simp

definition clear_of :: "block \<Rightarrow> block list \<Rightarrow> bool" where
  "clear_of b bs \<longleftrightarrow> 0 < fst b \<and> bend b < 2 ^ 64 \<and> (\<forall>c\<in>set bs. bend c \<le> fst b \<or> bend b \<le> fst c)"

lemma bend_ge [simp]: "fst b < bend b" by (simp add: bend_def)

lemma separated_hd_le:
  assumes "separated (c # bs)" "d \<in> set (c # bs)"
  shows "fst c \<le> fst d"
proof (cases "d = c")
  case False
  then have "bend c < fst d" using assms by auto
  then show ?thesis using bend_ge [of c] by linarith
qed simp

lemma insert_block_separated:
  assumes "separated bs" "clear_of b bs"
  shows "separated (insert_block b bs)"
  using assms
proof (induction bs)
  case Nil
  then show ?case by (simp add: clear_of_def)
next
  case (Cons c bs)
  have cl: "clear_of b bs" "bend c \<le> fst b \<or> bend b \<le> fst c" "0 < fst b" "bend b < 2 ^ 64"
    using Cons.prems by (auto simp: clear_of_def)
  have c: "separated bs" "\<forall>d\<in>set bs. bend c < fst d" "0 < fst c" using Cons.prems by auto
  consider "fst b < fst c" | "\<not> fst b < fst c" "bend c = fst b" | "\<not> fst b < fst c" "bend c \<noteq> fst b" by blast
  then show ?case
  proof cases
    case 1
    then have le: "bend b \<le> fst c" using cl(2) bend_ge [of c] by linarith
    then have "bend b \<le> fst d" if "d \<in> set (c # bs)" for d
      using separated_hd_le [OF Cons.prems(1) that] by simp
    then show ?thesis using 1 merge_next_separated [of "c # bs" b] Cons.prems cl by simp
  next
    case 2
    define e where "e = (fst c, snd c + 16 + snd b)"
    have e: "bend e = bend b" "fst e = fst c" using 2 by (simp_all add: e_def bend_def)
    have "bend b \<le> fst d" if "d \<in> set bs" for d
    proof -
      have "bend d \<le> fst b \<or> bend b \<le> fst d" using cl(1) that by (simp add: clear_of_def)
      then show ?thesis using c(2) 2 that bend_ge [of d] by fastforce
    qed
    then show ?thesis using 2 merge_next_separated [of bs e] e c cl by (simp add: e_def)
  next
    case 3
    then have "bend c < fst b" using cl(2) bend_ge [of b] by linarith
    then have "bend c < fst d" if "d \<in> set (insert_block b bs)" for d
      using fst_insert_block [of b bs] that c(2) by (auto simp: image_iff subset_iff) (metis fst_conv)
    then show ?thesis using 3 Cons.IH [OF c(1) cl(1)] Cons.prems by auto
  qed
qed

lemma addNode_spec:
  assumes inv: "heap_inv h bs" and nd: "unat nd = a" "unat (nsize (hmem h) nd) = s" and cl: "clear_of (a, s) bs"
  shows "\<exists>h'. addNode nd h = Some h' \<and> heap_inv h' (insert_block (a, s) bs) \<and>
    (\<forall>x. (\<forall>b\<in>set ((a, s) # bs). unat x \<notin> {fst b..<fst b + 16}) \<longrightarrow> hmem h' x = hmem h x)"
proof -
  have sg: "seg (hmem h) (head h) bs 0" and sep: "separated bs" using inv by (simp_all add: heap_inv_def)
  have sep': "separated (insert_block (a, s) bs)" using insert_block_separated [OF sep cl] .
  have b: "0 < a" "a + 16 + s < 2 ^ 64" and dis: "\<forall>c\<in>set bs. bend c \<le> a \<or> a + 16 + s \<le> fst c"
    using cl by (simp_all add: clear_of_def bend_def)
  have f: "fits nd 16" using b nd by (simp add: fits_def)
  have after: "a + 16 + s \<le> fst d" if "d \<in> set bs" "a < fst d" for d
    using dis that bend_ge [of d] by fastforce
  from addNode_walk_spec [OF sg sep nd(1), of 0] show ?thesis
  proof (rule disjE, goal_cases)
    case 1
    then obtain us c vs cw where w: "bs = us @ c # vs" "passed a us" "bend c = a" "unat cw = fst c"
      "addNode_walk (hmem h) nd (head h) 0 = Some (Inl (coalesceInto cw nd (hmem h)))" by blast
    have vs: "\<forall>d\<in>set vs. a + 16 + s \<le> fst d"
      using after sep w(1,3) by (auto simp: separated_append)
    have ins: "insert_block (a, s) bs = us @ merge_next (fst c, snd c + 16 + s) vs"
      using insert_block_passed [of "(a, s)" us "c # vs"] w sep bend_ge [of c] by simp
    have "seg (coalesceInto cw nd (hmem h)) (head h) (insert_block (a, s) bs) 0"
      unfolding ins using sg sep w b nd vs by (intro coalesceInto_spec) (auto simp: bend_def)
    moreover have "fits cw 16" using sep w separated_mem [of bs c] by (intro bend_fits [of c]) auto
    ultimately show ?thesis using w sep' coalesceInto_outside [of cw _ nd "hmem h"]
      by (auto simp: addNode_def heap_inv_def)
  next
    case 2
    then obtain us vs cw pw where w: "bs = us @ vs" "passed a us" "vs = [] \<or> a < fst (hd vs)"
      "seg (hmem h) (head h) us cw" "seg (hmem h) cw vs 0"
      "addNode_walk (hmem h) nd (head h) 0 = Some (Inr (pw, cw))"
      "if us = [] then pw = 0 else unat pw = fst (last us)" by blast
    have vs: "\<forall>d\<in>set vs. a + 16 + s \<le> fst d"
    proof
      fix d
      assume d: "d \<in> set vs"
      then have "fst (hd vs) \<le> fst d"
        using separated_hd_le [of "hd vs" "tl vs" d] sep w(1) by (cases vs) (simp_all add: separated_append)
      then show "a + 16 + s \<le> fst d" using after [of d] w(1,3) d by auto
    qed
    have us: "\<forall>c\<in>set us. bend c \<le> a" using dis w(1,2) by (fastforce simp: passed_def)
    have ins: "insert_block (a, s) bs = us @ merge_next (a, s) vs"
      using insert_block_passed [of "(a, s)" us vs] w sep by (cases vs) auto
    have "seg (hmem (linkNode nd pw cw h)) (head (linkNode nd pw cw h)) (insert_block (a, s) bs) 0"
      unfolding ins using sep w(1) by (intro linkNode_spec [OF w(4,5) _ w(7) nd(1) b(1) nd(2) b(2) us vs]) simp
    moreover have pw: "fits pw 16 \<and> (\<exists>c\<in>set bs. unat pw = fst c)" if "pw \<noteq> 0"
    proof -
      have l: "last us \<in> set bs" "unat pw = fst (last us)" using w(1,7) that by (cases us; auto)+
      then show ?thesis using bend_fits [of "last us" pw] separated_mem [OF sep l(1)] by auto
    qed
    moreover have "hmem (linkNode nd pw cw h) x = hmem h x"
      if x: "\<forall>b\<in>set ((a, s) # bs). unat x \<notin> {fst b..<fst b + 16}" for x
    proof (rule linkNode_outside [OF f])
      show "unat x \<notin> {unat nd..<unat nd + 16}" using x nd(1) by simp
      show "fits pw 16" if "pw \<noteq> 0" using pw [OF that] by simp
      show "unat x \<notin> {unat pw..<unat pw + 16}" if p0: "pw \<noteq> 0"
      proof -
        obtain c where "c \<in> set bs" "unat pw = fst c" using pw [OF p0] by blast
        then show ?thesis using x by simp
      qed
    qed
    ultimately show ?thesis using w(6) sep' by (simp add: addNode_def heap_inv_def)
  qed
qed

section \<open>Best-fit search\<close>

text \<open>The variables of the scan after the blocks \<open>us\<close>: the best block so far and its predecessor.\<close>

definition prev_of :: "block list \<Rightarrow> u64 \<Rightarrow> bool" where
  "prev_of us p \<longleftrightarrow> (if us = [] then p = 0 else unat p = fst (last us))"

fun scan_state :: "block list \<Rightarrow> block option \<Rightarrow> u64 \<Rightarrow> u64 \<Rightarrow> u64 \<Rightarrow> bool" where
  "scan_state us None target prev used \<longleftrightarrow> target = 0 \<and> prev = 0 \<and> used = - 1"
| "scan_state us (Some b) target prev used \<longleftrightarrow>
     (\<exists>xs ys. us = xs @ b # ys \<and> unat target = fst b \<and> unat used = snd b \<and> prev_of xs prev)"

lemma scan_state_snoc: "scan_state us best t p u \<Longrightarrow> scan_state (us @ [c]) best t p u"
proof (cases best)
  case (Some b)
  assume "scan_state us best t p u"
  then obtain xs ys where "us = xs @ b # ys" "unat t = fst b" "unat u = snd b" "prev_of xs p"
    using Some by auto
  then show ?thesis using Some by (simp, intro exI [of _ xs] exI [of _ "ys @ [c]"], simp)
qed simp

lemma alloc_scan_spec:
  assumes "seg m cur vs 0" "separated vs" "prev_of us pn" "scan_state us best t p u"
  shows "\<exists>t' p' u'. alloc_scan m sz cur t p pn u = Some (t', p') \<and>
    scan_state (us @ vs) (best_fit (unat sz) best vs) t' p' u'"
  using assms
proof (induction vs arbitrary: cur us best t p pn u)
  case Nil
  then show ?case by (subst alloc_scan.simps) auto
next
  case (Cons b vs)
  obtain a s where b: "b = (a, s)" by fastforce
  have c: "cur \<noteq> 0" "unat cur = a" "unat (nsize m cur) = s" "seg m (nnext m cur) vs 0"
    and sep: "separated vs" "bend b < 2 ^ 64" using Cons.prems b by auto
  have pv: "prev_of (us @ [b]) cur" using c b by (simp add: prev_of_def)
  have small: "s < 2 ^ 64 - 1" using sep(2) b by (simp add: bend_def)
  have top: "unat (- 1 :: u64) = 2 ^ 64 - 1" by (simp add: unsigned_minus_1_eq_mask mask_eq_exp_minus_1)
  have better: "nsize m cur \<ge> sz \<and> nsize m cur < u \<longleftrightarrow>
      unat sz \<le> snd b \<and> (case best of None \<Rightarrow> True | Some c \<Rightarrow> snd b < snd c)"
    using Cons.prems(4) c b small by (cases best) (auto simp: word_le_nat_alt word_less_nat_alt top)
  show ?case
  proof (cases "nsize m cur \<ge> sz \<and> nsize m cur < u")
    case True
    have "scan_state (us @ [b]) (Some b) cur pn (nsize m cur)"
      using c b Cons.prems(3) by (simp, intro exI [of _ us] exI [of _ "[]"], simp)
    from Cons.IH [OF c(4) sep(1) pv this] show ?thesis
      using True better c(1) by (subst alloc_scan.simps) simp
  next
    case False
    have bf: "best_fit (unat sz) best (b # vs) = best_fit (unat sz) best vs"
      using False by (simp only: best_fit.simps better [symmetric] if_False)
    from Cons.IH [OF c(4) sep(1) pv scan_state_snoc [OF Cons.prems(4)]] show ?thesis
      using False bf c(1) by (subst alloc_scan.simps) auto
  qed
qed

lemma best_fit_sound:
  "best_fit n best bs = Some b \<Longrightarrow> best = Some b \<or> b \<in> set bs \<and> n \<le> snd b"
  by (induction bs arbitrary: best) (fastforce split: if_splits)+

lemma best_fit_minimal:
  "best_fit n best bs = Some b \<Longrightarrow> c \<in> set bs \<Longrightarrow> n \<le> snd c \<Longrightarrow> snd b \<le> snd c"
proof -
  have mono: "best_fit n (Some d) bs = Some b \<Longrightarrow> snd b \<le> snd d" for d bs
    by (induction bs arbitrary: d) (fastforce split: if_splits)+
  show "best_fit n best bs = Some b \<Longrightarrow> c \<in> set bs \<Longrightarrow> n \<le> snd c \<Longrightarrow> snd b \<le> snd c"
  proof (induction bs arbitrary: best)
    case (Cons e bs)
    show ?case
    proof (cases "c = e")
      case True
      then show ?thesis using Cons.prems mono [of e bs] mono [of "the best" bs]
        by (cases best) (auto split: if_splits)
    next
      case False
      then show ?thesis using Cons by (auto split: if_splits)
    qed
  qed simp
qed

lemma best_fit_none: "best_fit n None bs = None \<longleftrightarrow> (\<forall>b\<in>set bs. snd b < n)"
proof -
  have some: "best_fit n (Some d) bs \<noteq> None" for d bs by (induction bs arbitrary: d) auto
  show ?thesis by (induction bs) (use some in auto)
qed

section \<open>Taking a block off the list\<close>

definition relink :: "u64 \<Rightarrow> u64 \<Rightarrow> FreeList \<Rightarrow> FreeList" where
  "relink prev q h = (if prev \<noteq> 0 then h\<lparr>hmem := set_nnext prev q (hmem h)\<rparr> else h\<lparr>head := q\<rparr>)"

lemma relink_spec:
  fixes q :: u64
  assumes sg: "seg (hmem h) (head h) xs r" and sep: "separated xs" and pv: "prev_of xs pw"
  defines "h' \<equiv> relink pw q h"
  shows "seg (hmem h') (head h') xs q"
    and "\<And>nd. fits nd 16 \<Longrightarrow> \<forall>c\<in>set xs. bend c \<le> unat nd \<Longrightarrow>
      nsize (hmem h') nd = nsize (hmem h) nd \<and> nnext (hmem h') nd = nnext (hmem h) nd"
    and "\<And>x. \<forall>c\<in>set xs. unat x \<notin> {fst c..<fst c + 16} \<Longrightarrow> hmem h' x = hmem h x"
proof -
  consider "xs = []" "pw = 0" | ys b where "xs = ys @ [b]" "unat pw = fst b" "pw \<noteq> 0" "fits pw 16"
  proof (cases xs rule: rev_cases)
    case Nil
    then show ?thesis using that pv by (simp add: prev_of_def)
  next
    case (snoc ys b)
    then have b: "unat pw = fst b" "0 < fst b" "bend b < 2 ^ 64"
      using pv sep by (auto simp: prev_of_def separated_append)
    moreover have "pw \<noteq> 0" using b(1,2) by auto
    ultimately show ?thesis using that(2) [OF snoc b(1)] bend_fits [OF b(3,1)] by simp
  qed
  note cs = this
  show "seg (hmem h') (head h') xs q"
    using cs sg sep seg_relink by cases (auto simp: h'_def relink_def)
  show "nsize (hmem h') nd = nsize (hmem h) nd \<and> nnext (hmem h') nd = nnext (hmem h) nd"
    if "fits nd 16" "\<forall>c\<in>set xs. bend c \<le> unat nd" for nd
    using cs
  proof cases
    case (2 ys b)
    then have "apart pw (unat nd)" using that(2) by (simp add: apart_def bend_def)
    then show ?thesis using 2 node_apart [OF _ that(1)] by (simp add: h'_def relink_def)
  qed (simp add: h'_def relink_def)
  show "hmem h' x = hmem h x" if "\<forall>c\<in>set xs. unat x \<notin> {fst c..<fst c + 16}" for x
    using cs
  proof cases
    case (2 ys b)
    then show ?thesis using that node_outside [of pw x] by (simp add: h'_def relink_def)
  qed (simp add: h'_def relink_def)
qed

lemma relink_tail:
  assumes "seg (hmem h) (head h) xs r" "separated (xs @ ys)" "prev_of xs pw"
  shows "seg (hmem (relink pw q h)) p ys e \<longleftrightarrow> seg (hmem h) p ys e"
proof (rule seg_frame)
  fix d and p :: u64
  assume d: "d \<in> set ys" "unat p = fst d"
  then have "\<forall>c\<in>set xs. bend c \<le> unat p" "bend d < 2 ^ 64" "separated xs"
    using assms(2) separated_mem [OF assms(2), of d] by (auto simp: separated_append less_imp_le)
  then show "nsize (hmem (relink pw q h)) p = nsize (hmem h) p \<and> nnext (hmem (relink pw q h)) p = nnext (hmem h) p"
    using relink_spec(2) [OF assms(1) _ assms(3)] bend_fits [of d p] d(2) by simp
qed

lemma split_arith:
  fixes target sz v :: u64
  assumes "unat target = a" "unat v = s" "0 < a" "a + 16 + s < 2 ^ 64" "unat sz \<le> s"
  shows "v < sz + 16 + 1 \<longleftrightarrow> s < unat sz + 17"
    "unat sz + 17 \<le> s \<Longrightarrow> unat (v - sz - 16) = s - unat sz - 16"
    "unat (target + 16 + sz) = a + 16 + unat sz"
proof -
  have e: "sz + 16 + 1 = sz + of_nat 17" by simp
  have "unat (sz + 16 + 1) = unat sz + 17" unfolding e by (rule unat_plus) (use assms in simp)
  then show "v < sz + 16 + 1 \<longleftrightarrow> s < unat sz + 17" using assms by (simp add: word_less_nat_alt)
  show "unat (target + 16 + sz) = a + 16 + unat sz" using unat_end(1) [of target sz] assms by simp
  show "unat (v - sz - 16) = s - unat sz - 16" if "unat sz + 17 \<le> s"
  proof -
    have d: "unat (v - sz) = s - unat sz" using assms by (simp add: unat_sub word_le_nat_alt)
    then show ?thesis using that by (subst unat_sub) (simp_all add: word_le_nat_alt)
  qed
qed

lemma takeTarget_relink:
  "takeTarget sz target prev h =
    (let (part, m1) = split_node target sz (hmem h)
     in if part \<noteq> 0 then
          let h2 = relink prev part (h\<lparr>hmem := m1\<rparr>)
          in (target + 16, h2\<lparr>hmem := set_nsize target sz (set_nnext part (nnext (hmem h2) target) (hmem h2))\<rparr>)
        else (target + 16, relink prev (nnext m1 target) (h\<lparr>hmem := m1\<rparr>)))"
  by (simp add: takeTarget_def relink_def split_node_def Let_def)

text \<open>The unsplit case: the block leaves the list whole.\<close>

lemma take_whole_spec:
  assumes sg: "seg (hmem h) (head h) (xs @ b # ys) 0" and sep: "separated (xs @ b # ys)"
    and t: "unat t = fst b" and pv: "prev_of xs pw"
  defines "h' \<equiv> relink pw (nnext (hmem h) t) h"
  shows "seg (hmem h') (head h') (xs @ ys) 0" "nsize (hmem h') t = nsize (hmem h) t"
proof -
  obtain a s where b: "b = (a, s)" by fastforce
  obtain y where y: "seg (hmem h) (head h) xs y" "seg (hmem h) y (b # ys) 0"
    using sg by (auto simp: seg_append)
  then have "y = t" using t b by (simp add: unat_eq_word)
  then have ys: "seg (hmem h) (nnext (hmem h) t) ys 0" using y b by simp
  have sep': "separated xs" "separated (xs @ ys)" "\<forall>c\<in>set xs. bend c \<le> unat t" "bend b < 2 ^ 64"
    using sep t by (auto simp: separated_append less_imp_le)
  note r = relink_spec [OF y(1) _ pv, where q = "nnext (hmem h) t", folded h'_def]
  have "seg (hmem h') (nnext (hmem h) t) ys 0"
    using ys relink_tail [OF y(1) sep'(2) pv] by (simp add: h'_def)
  then show "seg (hmem h') (head h') (xs @ ys) 0" using r(1) [OF sep'(1)] by (auto simp: seg_append)
  show "nsize (hmem h') t = nsize (hmem h) t"
    using r(2) [OF sep'(1) _ sep'(3)] bend_fits [OF sep'(4) t] by simp
qed

lemma part_apart:
  assumes "separated (xs @ b # ys)" "unat part = fst b + 16 + n" "n + 17 \<le> snd b"
  shows "all_apart part (xs @ ys)"
proof (rule headers_disjoint [of _ part _ 0])
  show "\<forall>c\<in>set (xs @ ys). bend c \<le> unat part \<or> unat part + 16 + 0 \<le> fst c"
    using assms by (fastforce simp: separated_append bend_def)
  show "separated (xs @ ys)" using assms(1) by (simp add: separated_append)
qed simp

text \<open>The split case: the tail of the block takes its place in the list.\<close>

lemma take_split_spec:
  assumes sg: "seg (hmem h) (head h) (xs @ b # ys) 0" and sep: "separated (xs @ b # ys)"
    and t: "unat t = fst b" and pv: "prev_of xs pw" and n: "unat sz + 17 \<le> snd b"
  defines "part \<equiv> t + 16 + sz"
  defines "m1 \<equiv> set_nnext part 0 (set_nsize part (nsize (hmem h) t - sz - 16) (hmem h))"
  defines "h2 \<equiv> relink pw part (h\<lparr>hmem := m1\<rparr>)"
  defines "m4 \<equiv> set_nsize t sz (set_nnext part (nnext (hmem h2) t) (hmem h2))"
  shows "seg m4 (head h2) (xs @ rest_of (unat sz) b @ ys) 0"
proof -
  obtain a s where b: "b = (a, s)" by fastforce
  obtain y where y: "seg (hmem h) (head h) xs y" "seg (hmem h) y (b # ys) 0"
    using sg by (auto simp: seg_append)
  then have "y = t" using t b by (simp add: unat_eq_word)
  then have ts: "unat (nsize (hmem h) t) = s" "seg (hmem h) (nnext (hmem h) t) ys 0" using y b by auto
  have bd: "0 < a" "a + 16 + s < 2 ^ 64" "unat t = a" "unat sz + 17 \<le> s"
    using sep b t n by (auto simp: separated_append bend_def)
  have pu: "unat part = a + 16 + unat sz" and pz: "unat (nsize (hmem h) t - sz - 16) = s - unat sz - 16"
    using split_arith [OF bd(3) ts(1) bd(1,2), of sz] bd by (simp_all add: part_def)
  have f: "fits part 16" "fits t 16" using pu bd by (simp_all add: fits_def)
  have ap: "all_apart t xs" "all_apart t ys" "apart part (unat t)" "apart t (unat part)"
    using separated_apart [OF sep t] pu bd by (simp_all add: apart_def)
  have pp: "all_apart part (xs @ ys)" using part_apart [OF sep, of part "unat sz"] pu bd b by simp
  have m1: "seg m1 (head h) xs t" "seg m1 (nnext (hmem h) t) ys 0" "nnext m1 t = nnext (hmem h) t"
    "nsize m1 part = nsize (hmem h) t - sz - 16"
    using y ts \<open>y = t\<close> pp seg_update [OF f(1)] node_apart [OF f ap(3)] f by (simp_all add: m1_def)
  have xb: "\<forall>c\<in>set xs. bend c \<le> unat part \<and> bend c \<le> unat t"
    using sep b pu bd by (fastforce simp: separated_append)
  have r: "seg (hmem h2) (head h2) xs part"
    "\<And>nd. fits nd 16 \<Longrightarrow> \<forall>c\<in>set xs. bend c \<le> unat nd \<Longrightarrow>
      nsize (hmem h2) nd = nsize m1 nd \<and> nnext (hmem h2) nd = nnext m1 nd"
    using relink_spec [where h = "h\<lparr>hmem := m1\<rparr>" and xs = xs and r = t and pw = pw and q = part] m1 sep pv by (simp_all add: h2_def separated_append)
  have "separated (xs @ ys)" using sep by (simp add: separated_append)
  then have "seg (hmem h2) (nnext (hmem h) t) ys 0"
    using relink_tail [of "h\<lparr>hmem := m1\<rparr>" xs t ys pw] m1(1,2) pv by (simp add: h2_def)
  then have "seg m4 (nnext (hmem h) t) ys 0" "seg m4 (head h2) xs part" "nnext m4 part = nnext (hmem h) t"
    "nsize m4 part = nsize (hmem h) t - sz - 16"
    using m1(2) r xb f m1(3,4) pp ap seg_update [OF f(1)] seg_update [OF f(2)] node_apart [OF f(2,1) ap(4)]
    by (simp_all add: m4_def)
  then show ?thesis using pu pz b bd by (auto simp: seg_append rest_of_def)
qed

definition headers :: "block list \<Rightarrow> nat set" where
  "headers bs = (\<Union>b\<in>set bs. {fst b..<fst b + 16})"

lemma headers_simps [simp]:
  "headers [] = {}" "headers (b # bs) = {fst b..<fst b + 16} \<union> headers bs"
  "headers (xs @ ys) = headers xs \<union> headers ys"
  by (auto simp: headers_def)

lemma not_in_headers: "x \<notin> headers bs \<longleftrightarrow> (\<forall>b\<in>set bs. x \<notin> {fst b..<fst b + 16})"
  by (auto simp: headers_def)

lemma rest_of_separated:
  assumes "separated (xs @ b # ys)"
  shows "separated (xs @ rest_of n b @ ys)"
proof (cases "snd b < n + 17")
  case True
  then show ?thesis using assms by (simp add: rest_of_def separated_append)
next
  case False
  define r where "r = (fst b + 16 + n, snd b - n - 16)"
  have r: "bend r = bend b" "fst b \<le> fst r" using False by (simp_all add: r_def bend_def)
  have "bend c < fst r" if "bend c < fst b" for c using that r(2) by linarith
  then have "separated (xs @ r # ys)" using assms r by (auto simp: separated_append)
  then show ?thesis using False by (simp add: rest_of_def r_def)
qed

lemma split_node_cases:
  assumes "unat t = a" "unat (nsize m t) = s" "0 < a" "a + 16 + s < 2 ^ 64" "unat sz \<le> s"
  shows "split_node t sz m = (if s < unat sz + 17 then (0, m)
    else (t + 16 + sz, set_nnext (t + 16 + sz) 0 (set_nsize (t + 16 + sz) (nsize m t - sz - 16) m)))"
    and "t + 16 + sz \<noteq> 0"
proof -
  show "split_node t sz m = (if s < unat sz + 17 then (0, m)
    else (t + 16 + sz, set_nnext (t + 16 + sz) 0 (set_nsize (t + 16 + sz) (nsize m t - sz - 16) m)))"
    using split_arith(1) [OF assms] by (simp add: split_node_def Let_def)
  have "unat (t + 16 + sz) \<noteq> 0" using split_arith(3) [OF assms] assms by simp
  then show "t + 16 + sz \<noteq> 0" by (metis unat_0)
qed

lemma take_split_outside:
  assumes sg: "seg (hmem h) (head h) (xs @ b # ys) 0" and sep: "separated (xs @ b # ys)"
    and t: "unat t = fst b" and pv: "prev_of xs pw" and n: "unat sz + 17 \<le> snd b"
    and x: "unat x \<notin> headers (xs @ b # rest_of (unat sz) b)"
  defines "part \<equiv> t + 16 + sz"
  defines "m1 \<equiv> set_nnext part 0 (set_nsize part (nsize (hmem h) t - sz - 16) (hmem h))"
  defines "h2 \<equiv> relink pw part (h\<lparr>hmem := m1\<rparr>)"
  defines "m4 \<equiv> set_nsize t sz (set_nnext part (nnext (hmem h2) t) (hmem h2))"
  shows "hmem (h2\<lparr>hmem := m4\<rparr>) x = hmem h x"
proof -
  have bd: "bend b < 2 ^ 64" "separated xs" using sep by (simp_all add: separated_append)
  obtain r where r: "seg (hmem h) (head h) xs r" using sg by (auto simp: seg_append)
  have pu: "unat part = fst b + 16 + unat sz"
    using unat_end(1) [of t sz] t n bd by (simp add: part_def bend_def)
  have f: "fits part 16" "fits t 16" using pu t bd n by (simp_all add: fits_def bend_def)
  have x': "unat x \<notin> {unat part..<unat part + 16}" "unat x \<notin> {unat t..<unat t + 16}" "unat x \<notin> headers xs"
    using x pu t n by (auto simp: rest_of_def)
  have "all_apart part xs" using part_apart [OF sep pu n] by simp
  then have "seg m1 (head h) xs r" using seg_update [OF f(1)] r by (simp add: m1_def)
  then have "hmem h2 x = m1 x"
    using relink_spec(3) [of "h\<lparr>hmem := m1\<rparr>" xs r pw] bd(2) pv x'(3) by (simp add: h2_def not_in_headers)
  moreover have "m1 x = hmem h x" using node_outside [OF f(1) x'(1)] by (simp add: m1_def)
  ultimately show ?thesis
    using node_outside [OF f(1) x'(1)] node_outside [OF f(2) x'(2)] by (simp add: m4_def)
qed

lemma takeTarget_spec:
  assumes inv: "heap_inv h (xs @ b # ys)" and t: "unat t = fst b" and pv: "prev_of xs pw"
    and n: "unat sz \<le> snd b"
  obtains h' where "takeTarget sz t pw h = (t + 16, h')" "heap_inv h' (xs @ rest_of (unat sz) b @ ys)"
    "unat (nsize (hmem h') t) = snd (taken_of (unat sz) b)"
    "\<And>x. unat x \<notin> headers (xs @ b # rest_of (unat sz) b) \<Longrightarrow> hmem h' x = hmem h x"
proof -
  have sg: "seg (hmem h) (head h) (xs @ b # ys) 0" and sep: "separated (xs @ b # ys)"
    using inv by (simp_all add: heap_inv_def)
  obtain a s where b: "b = (a, s)" by fastforce
  obtain y where y: "seg (hmem h) (head h) xs y" "seg (hmem h) y (b # ys) 0"
    using sg by (auto simp: seg_append)
  then have "y = t" using t b by (simp add: unat_eq_word)
  then have ts: "unat (nsize (hmem h) t) = s" using y b by simp
  have bd: "unat t = a" "0 < a" "a + 16 + s < 2 ^ 64" "unat sz \<le> s" "separated xs"
    using sep b t n by (auto simp: separated_append bend_def)
  note sp = split_node_cases [OF bd(1) ts bd(2-4)]
  show ?thesis
  proof (cases "s < unat sz + 17")
    case True
    define h' where "h' = relink pw (nnext (hmem h) t) h"
    have "takeTarget sz t pw h = (t + 16, h')" using True sp(1) by (simp add: takeTarget_relink h'_def)
    moreover have "heap_inv h' (xs @ rest_of (unat sz) b @ ys)"
      using take_whole_spec(1) [OF sg sep t pv] rest_of_separated [OF sep, of "unat sz"] True b
      by (simp add: heap_inv_def h'_def rest_of_def)
    moreover have "unat (nsize (hmem h') t) = snd (taken_of (unat sz) b)"
      using take_whole_spec(2) [OF sg sep t pv] ts True b by (simp add: h'_def taken_of_def)
    moreover have "hmem h' x = hmem h x" if "unat x \<notin> headers (xs @ b # rest_of (unat sz) b)" for x
      using relink_spec(3) [OF y(1) bd(5) pv] that by (simp add: h'_def not_in_headers)
    ultimately show ?thesis by (rule that)
  next
    case False
    define part where "part = t + 16 + sz"
    define m1 where "m1 = set_nnext part 0 (set_nsize part (nsize (hmem h) t - sz - 16) (hmem h))"
    define h2 where "h2 = relink pw part (h\<lparr>hmem := m1\<rparr>)"
    define m4 where "m4 = set_nsize t sz (set_nnext part (nnext (hmem h2) t) (hmem h2))"
    have "takeTarget sz t pw h = (t + 16, h2\<lparr>hmem := m4\<rparr>)"
      using False sp by (simp add: takeTarget_relink Let_def h2_def m4_def m1_def part_def)
    moreover have "heap_inv (h2\<lparr>hmem := m4\<rparr>) (xs @ rest_of (unat sz) b @ ys)"
      using take_split_spec [OF sg sep t pv, of sz] rest_of_separated [OF sep, of "unat sz"] False b
      by (simp add: heap_inv_def h2_def m4_def m1_def part_def)
    moreover have "unat (nsize (hmem (h2\<lparr>hmem := m4\<rparr>)) t) = snd (taken_of (unat sz) b)"
      using False b by (simp add: m4_def taken_of_def)
    moreover have "hmem (h2\<lparr>hmem := m4\<rparr>) x = hmem h x"
      if x: "unat x \<notin> headers (xs @ b # rest_of (unat sz) b)" for x
      unfolding h2_def m4_def m1_def part_def
      using take_split_outside [OF sg sep t pv, of sz x] False b x by simp
    ultimately show ?thesis by (rule that)
  qed
qed

section \<open>Bytes of the blocks\<close>

abbreviation span :: "block \<Rightarrow> nat set" where "span b \<equiv> {fst b..<bend b}"

lemma bytes_of_simps [simp]:
  "bytes_of [] = {}" "bytes_of (b # bs) = span b \<union> bytes_of bs" "bytes_of (xs @ ys) = bytes_of xs \<union> bytes_of ys"
  by (auto simp: bytes_of_def)

lemma headers_bytes: "headers bs \<subseteq> bytes_of bs"
  by (induction bs) (auto simp: bend_def)

lemma clear_of_iff: "clear_of b bs \<longleftrightarrow> 0 < fst b \<and> bend b < 2 ^ 64 \<and> span b \<inter> bytes_of bs = {}"
proof -
  have "(bend c \<le> fst b \<or> bend b \<le> fst c) \<longleftrightarrow> span b \<inter> span c = {}" for c
    by (auto simp: bend_def max_def)
  then have "(\<forall>c\<in>set bs. bend c \<le> fst b \<or> bend b \<le> fst c) \<longleftrightarrow> span b \<inter> bytes_of bs = {}"
    by (simp add: bytes_of_def Int_UN_distrib)
  then show ?thesis by (simp add: clear_of_def)
qed

lemma bytes_merge_next:
  "bytes_of (merge_next b bs) = span b \<union> bytes_of bs"
proof (cases "(b, bs)" rule: merge_next.cases)
  case (2 a s c t bs')
  then show ?thesis by (auto simp: bend_def)
qed auto

lemma bytes_insert_block: "bytes_of (insert_block b bs) = span b \<union> bytes_of bs"
proof (induction bs)
  case (Cons c bs)
  have "span (fst c, snd c + 16 + snd b) = span c \<union> span b" if "bend c = fst b"
    using that by (auto simp: bend_def)
  then show ?case using Cons by (auto simp: bytes_merge_next)
qed simp

lemma bytes_rest_taken:
  assumes "n \<le> snd b"
  shows "bytes_of (rest_of n b) \<union> span (taken_of n b) = span b" "bytes_of (rest_of n b) \<inter> span (taken_of n b) = {}"
  using assms by (auto simp: rest_of_def taken_of_def bend_def)

lemma replace_block_eq:
  assumes "separated (xs @ b # ys)"
  shows "replace_block b rs (xs @ b # ys) = xs @ rs @ ys"
proof -
  have "b \<notin> set xs" using assms by (auto simp: separated_append bend_def)
  then have "takeWhile (\<lambda>c. c \<noteq> b) (xs @ b # ys) = xs" "dropWhile (\<lambda>c. c \<noteq> b) (xs @ b # ys) = b # ys"
    by (induction xs) auto
  then show ?thesis by (simp add: replace_block_def)
qed

section \<open>Heap with live blocks\<close>

text \<open>
  \<open>heap_ok h bs ls\<close>: the free list of \<open>h\<close> is \<open>bs\<close>, and the blocks \<open>ls\<close> are handed out: their headers
  are intact and they overlap neither a free block nor each other.
\<close>

definition live :: "mem \<Rightarrow> block \<Rightarrow> bool" where
  "live m b \<longleftrightarrow> 0 < fst b \<and> bend b < 2 ^ 64 \<and> unat (nsize m (of_nat (fst b))) = snd b"

definition heap_ok :: "FreeList \<Rightarrow> block list \<Rightarrow> block list \<Rightarrow> bool" where
  "heap_ok h bs ls \<longleftrightarrow> heap_inv h bs \<and> (\<forall>b\<in>set ls. live (hmem h) b \<and> span b \<inter> bytes_of bs = {}) \<and>
     sorted_wrt (\<lambda>b c. span b \<inter> span c = {}) ls"

text \<open>The two heaps agree on the contents of the blocks \<open>ls\<close>, headers included.\<close>

definition same_contents :: "block list \<Rightarrow> FreeList \<Rightarrow> FreeList \<Rightarrow> bool" where
  "same_contents ls h h' \<longleftrightarrow> (\<forall>x. unat x \<in> bytes_of ls \<longrightarrow> hmem h' x = hmem h x)"

lemma unat_of_addr: "n < 2 ^ 64 \<Longrightarrow> unat (of_nat n :: u64) = n"
  by (simp add: unat_of_nat)

lemma live_frame:
  assumes "live m b" "\<And>x. unat x \<in> span b \<Longrightarrow> m' x = m x"
  shows "live m' b"
proof -
  have p: "unat (of_nat (fst b) :: u64) = fst b"
    using assms(1) by (intro unat_of_addr) (simp add: live_def bend_def)
  have "m' (of_nat (fst b) + of_nat i) = m (of_nat (fst b) + of_nat i)" if "i < 8" for i
  proof (rule assms(2))
    have "unat (of_nat (fst b) + of_nat i :: u64) = fst b + i"
      using assms(1) that by (simp add: unat_of_addr live_def bend_def flip: of_nat_add)
    then show "unat (of_nat (fst b) + of_nat i :: u64) \<in> span b" using that by (simp add: bend_def)
  qed
  then have "nsize m' (of_nat (fst b)) = nsize m (of_nat (fst b))"
    by (simp add: nsize_def read64_cong [of m' "of_nat (fst b)" m])
  then show ?thesis using assms(1) by (simp add: live_def)
qed

lemma heap_ok_update:
  assumes ok: "heap_ok h bs ls" and inv: "heap_inv h' bs'" and sub: "bytes_of bs' \<subseteq> bytes_of bs \<union> X"
    and fr: "\<And>x. unat x \<notin> bytes_of bs \<union> X \<Longrightarrow> hmem h' x = hmem h x" and X: "X \<inter> bytes_of ls = {}"
  shows "heap_ok h' bs' ls \<and> same_contents ls h h'"
proof -
  have dis: "bytes_of ls \<inter> (bytes_of bs \<union> X) = {}"
  proof -
    have "\<forall>b\<in>set ls. span b \<inter> bytes_of bs = {}" using ok by (simp add: heap_ok_def)
    then have "bytes_of ls \<inter> bytes_of bs = {}" unfolding bytes_of_def [of ls] by blast
    then show ?thesis using X by blast
  qed
  have same: "\<forall>x. unat x \<in> bytes_of ls \<longrightarrow> hmem h' x = hmem h x"
  proof (intro allI impI)
    fix x :: u64
    assume "unat x \<in> bytes_of ls"
    then have "unat x \<notin> bytes_of bs \<union> X" using dis by blast
    then show "hmem h' x = hmem h x" by (rule fr)
  qed
  have "live (hmem h') b \<and> span b \<inter> bytes_of bs' = {}" if b: "b \<in> set ls" for b
  proof
    have sp: "span b \<subseteq> bytes_of ls" using b by (auto simp: bytes_of_def)
    show "live (hmem h') b"
    proof (rule live_frame)
      show "live (hmem h) b" using ok b by (simp add: heap_ok_def)
      show "hmem h' x = hmem h x" if "unat x \<in> span b" for x using same subsetD [OF sp that] by blast
    qed
    show "span b \<inter> bytes_of bs' = {}" using dis sp sub by blast
  qed
  then show ?thesis using ok inv same by (simp add: heap_ok_def same_contents_def)
qed

lemma taken_of_simps [simp]: "fst (taken_of n b) = fst b" "n \<le> snd b \<Longrightarrow> bend (taken_of n b) \<le> bend b"
  by (simp_all add: taken_of_def bend_def)

lemma heap_ok_cons:
  "heap_ok h bs ls \<Longrightarrow> live (hmem h) b \<Longrightarrow> span b \<inter> bytes_of bs = {} \<Longrightarrow> \<forall>c\<in>set ls. span b \<inter> span c = {} \<Longrightarrow>
    heap_ok h bs (b # ls)"
  by (simp add: heap_ok_def)

lemma separated_span: "separated (xs @ b # ys) \<Longrightarrow> span b \<inter> bytes_of (xs @ ys) = {}"
  by (fastforce simp: separated_append bytes_of_def bend_def)

lemma taken_span:
  assumes "heap_ok h bs ls" "b \<in> set bs" "n \<le> snd b" "c \<in> set ls"
  shows "span (taken_of n b) \<inter> span c = {}"
proof -
  have "span (taken_of n b) \<subseteq> span b" using bytes_rest_taken [OF assms(3)] by blast
  also have "\<dots> \<subseteq> bytes_of bs" using assms(2) by (auto simp: bytes_of_def)
  finally show ?thesis using assms(1,4) unfolding heap_ok_def by blast
qed

lemma heap_alloc_fit:
  assumes ok: "heap_ok h bs ls" and fit: "best_fit (unat sz) None bs = Some b"
  shows "\<exists>p h'. heap_alloc allocNPages sz v h = Some (p, v, h') \<and> unat p = fst b + 16 \<and>
    heap_ok h' (replace_block b (rest_of (unat sz) b) bs) (taken_of (unat sz) b # ls) \<and> same_contents ls h h'"
proof -
  let ?n = "unat sz"
  have inv: "heap_inv h bs" and sg: "seg (hmem h) (head h) bs 0" and sep: "separated bs"
    using ok by (simp_all add: heap_ok_def heap_inv_def)
  have b: "b \<in> set bs" "?n \<le> snd b" using best_fit_sound [OF fit] by auto
  obtain t pw u where sc: "alloc_scan (hmem h) sz (head h) 0 0 0 (- 1) = Some (t, pw)"
    and st: "scan_state bs (Some b) t pw u"
  proof -
    have "prev_of [] 0" "scan_state [] None 0 0 (- 1)" by (simp_all add: prev_of_def)
    from alloc_scan_spec [OF sg sep this, of sz] show ?thesis
      unfolding fit append_Nil using that by blast
  qed
  then obtain xs ys where bs: "bs = xs @ b # ys" and t: "unat t = fst b" and pw: "prev_of xs pw" by auto
  have b0: "0 < fst b" "bend b < 2 ^ 64" using separated_mem [OF sep b(1)] by auto
  have t': "t \<noteq> 0" "of_nat (fst b) = t" "unat (t + 16) = fst b + 16"
    using t b0 unat_plus [of t 16] by (auto simp: bend_def simp flip: t)
  obtain h' where tk: "takeTarget sz t pw h = (t + 16, h')" and inv': "heap_inv h' (xs @ rest_of ?n b @ ys)"
    and nz: "unat (nsize (hmem h') t) = snd (taken_of ?n b)"
    and fr: "\<And>x. unat x \<notin> headers (xs @ b # rest_of ?n b) \<Longrightarrow> hmem h' x = hmem h x"
    using takeTarget_spec [OF inv [unfolded bs] t pw b(2)] by blast
  have hs: "headers (xs @ b # rest_of ?n b) \<subseteq> bytes_of bs"
    using headers_bytes [of "xs @ b # rest_of ?n b"] bytes_rest_taken(1) [OF b(2)] by (auto simp: bs)
  have ok': "heap_ok h' (xs @ rest_of ?n b @ ys) ls \<and> same_contents ls h h'"
  proof (rule heap_ok_update [OF ok inv', of "{}"])
    show "bytes_of (xs @ rest_of ?n b @ ys) \<subseteq> bytes_of bs \<union> {}"
      using bytes_rest_taken(1) [OF b(2)] by (auto simp: bs)
    show "hmem h' x = hmem h x" if "unat x \<notin> bytes_of bs \<union> {}" for x using fr subsetD [OF hs] that by blast
  qed simp
  have "heap_ok h' (xs @ rest_of ?n b @ ys) (taken_of ?n b # ls)"
  proof (rule heap_ok_cons)
    show "heap_ok h' (xs @ rest_of ?n b @ ys) ls" using ok' ..
    show "live (hmem h') (taken_of ?n b)"
      using t' b0 nz taken_of_simps(2) [OF b(2)] by (simp add: live_def)
    show "span (taken_of ?n b) \<inter> bytes_of (xs @ rest_of ?n b @ ys) = {}"
      using separated_span [OF sep [unfolded bs]] bytes_rest_taken [OF b(2)] by auto
    show "\<forall>c\<in>set ls. span (taken_of ?n b) \<inter> span c = {}" using taken_span [OF ok b] by blast
  qed
  then show ?thesis
    using sc t' tk ok' replace_block_eq [of xs b ys] sep
    by (subst heap_alloc.simps) (simp add: bs)
qed

lemma heap_free_spec:
  assumes ok: "heap_ok h bs (b # ls)" and p: "unat p = fst b + 16"
  shows "\<exists>h'. heap_free p h = Some h' \<and> heap_ok h' (insert_block b bs) ls \<and> same_contents ls h h'"
proof -
  have inv: "heap_inv h bs" and lv: "live (hmem h) b" and dis: "span b \<inter> bytes_of bs = {}"
    and ls: "heap_ok h bs ls" "\<forall>c\<in>set ls. span b \<inter> span c = {}"
    using ok by (auto simp: heap_ok_def)
  have nd: "unat (p - 16) = fst b" "p - 16 = of_nat (fst b)"
  proof -
    have "p = of_nat (fst b + 16)" by (simp flip: p)
    then show e: "p - 16 = of_nat (fst b)" by simp
    show "unat (p - 16) = fst b" unfolding e using lv by (intro unat_of_addr) (simp add: live_def bend_def)
  qed
  have sz: "unat (nsize (hmem h) (p - 16)) = snd b" using lv nd by (simp add: live_def)
  have cl: "clear_of b bs" using lv dis by (simp add: clear_of_iff live_def)
  obtain h' where h': "addNode (p - 16) h = Some h'" "heap_inv h' (insert_block b bs)"
    and fr: "\<And>x. unat x \<notin> headers (b # bs) \<Longrightarrow> hmem h' x = hmem h x"
    using addNode_spec [OF inv nd(1) sz] cl by (auto simp: not_in_headers)
  have "heap_ok h' (insert_block b bs) ls \<and> same_contents ls h h'"
  proof (rule heap_ok_update [OF ls(1) h'(2), of "span b"])
    show "bytes_of (insert_block b bs) \<subseteq> bytes_of bs \<union> span b" by (simp add: bytes_insert_block)
    show "hmem h' x = hmem h x" if "unat x \<notin> bytes_of bs \<union> span b" for x
      using fr subsetD [OF headers_bytes [of "b # bs"]] that by fastforce
    show "span b \<inter> bytes_of ls = {}" using ls(2) unfolding bytes_of_def by blast
  qed
  then show ?thesis using h'(1) by (simp add: heap_free_def)
qed

text \<open>Allocation followed by release of the same block gives back the same free list.\<close>

lemma insert_taken:
  assumes "separated bs" "b \<in> set bs" "n \<le> snd b"
  shows "insert_block (taken_of n b) (replace_block b (rest_of n b) bs) = bs"
proof -
  obtain xs ys where bs: "bs = xs @ b # ys" using split_list [OF assms(2)] by blast
  obtain a s where b: "b = (a, s)" by fastforce
  have sep: "separated (xs @ rest_of n b @ ys)" using rest_of_separated assms(1) bs by blast
  have "passed a xs" using assms(1) by (auto simp: bs b passed_def separated_append bend_def)
  then have "insert_block (taken_of n b) (xs @ rest_of n b @ ys) = xs @ insert_block (taken_of n b) (rest_of n b @ ys)"
    using insert_block_passed [of "taken_of n b" xs "rest_of n b @ ys"] sep b by (simp add: taken_of_def)
  moreover have "insert_block (taken_of n b) (rest_of n b @ ys) = b # ys"
  proof (cases ys)
    case Nil
    then show ?thesis using assms(3) b by (simp add: rest_of_def taken_of_def)
  next
    case (Cons c zs)
    then have "a + 16 + s < fst c" using assms(1) bs b by (simp add: separated_append bend_def)
    then show ?thesis using assms(3) b Cons by (cases c) (simp add: rest_of_def taken_of_def)
  qed
  ultimately show ?thesis using replace_block_eq assms(1) bs by simp
qed

section \<open>Growing the heap\<close>

lemma write_header_ok:
  assumes ok: "heap_ok h bs ls" and a: "unat addr = fst b" "unat v = snd b" and b: "0 < fst b" "bend b < 2 ^ 64"
    and dis: "span b \<inter> bytes_of (bs @ ls) = {}"
  defines "h0 \<equiv> h\<lparr>hmem := set_nnext addr 0 (set_nsize addr v (hmem h))\<rparr>"
  shows "heap_ok h0 bs (b # ls)" "same_contents ls h h0"
proof -
  have inv: "heap_inv h bs" "separated bs" using ok by (simp_all add: heap_ok_def heap_inv_def)
  have f: "fits addr 16" using a b by (simp add: fits_def bend_def)
  have "clear_of b bs" using b dis by (simp add: clear_of_iff Int_Un_distrib)
  then have ap: "all_apart addr bs"
    using headers_disjoint [OF inv(2) a(1), of "snd b"] by (simp add: clear_of_def bend_def)
  have inv0: "heap_inv h0 bs" using inv(1) seg_update [OF f ap] by (simp add: heap_inv_def h0_def)
  have ok0: "heap_ok h0 bs ls \<and> same_contents ls h h0"
  proof (rule heap_ok_update [OF ok inv0, of "span b"])
    show "hmem h0 x = hmem h x" if "unat x \<notin> bytes_of bs \<union> span b" for x
      using node_outside [OF f, of x] that a by (auto simp: h0_def bend_def)
    show "span b \<inter> bytes_of ls = {}" using dis by auto
  qed auto
  then show "same_contents ls h h0" ..
  have "of_nat (fst b) = addr" by (simp flip: a)
  then have lv: "live (hmem h0) b" using a b f by (simp add: live_def h0_def)
  have "\<forall>c\<in>set ls. span b \<inter> span c = {}" using dis by (fastforce simp: bytes_of_def)
  then show "heap_ok h0 bs (b # ls)" using ok0 lv dis by (intro heap_ok_cons) auto
qed

lemma same_contents_trans: "same_contents ls h h1 \<Longrightarrow> same_contents ls h1 h2 \<Longrightarrow> same_contents ls h h2"
  by (simp add: same_contents_def)

lemma addMemory_spec:
  assumes ok: "heap_ok h bs ls" and a: "0 < unat addr" "16 \<le> unat sz" "unat addr + unat sz < 2 ^ 64"
    and dis: "{unat addr..<unat addr + unat sz} \<inter> bytes_of (bs @ ls) = {}"
  shows "\<exists>h'. addMemory addr sz h = Some h' \<and>
    heap_ok h' (insert_block (unat addr, unat sz - 16) bs) ls \<and> same_contents ls h h'"
proof -
  let ?b = "(unat addr, unat sz - 16)"
  define h0 where "h0 = h\<lparr>hmem := set_nnext addr 0 (set_nsize addr (sz - 16) (hmem h))\<rparr>"
  have b: "bend ?b = unat addr + unat sz" using a(2) by (simp add: bend_def)
  have v: "unat (sz - 16) = unat sz - 16" using a(2) by (simp add: unat_sub word_le_nat_alt)
  have p: "unat (addr + 16) = unat addr + 16" using unat_plus [of addr 16] a by simp
  have h0: "heap_ok h0 bs (?b # ls)" "same_contents ls h h0"
    using write_header_ok [OF ok, of addr ?b "sz - 16"] a b v dis by (simp_all add: h0_def)
  obtain h' where h': "heap_free (addr + 16) h0 = Some h'" "heap_ok h' (insert_block ?b bs) ls" "same_contents ls h0 h'"
    using heap_free_spec [OF h0(1), of "addr + 16"] p by auto
  have "addMemory addr sz h = heap_free (addr + 16) h0" by (simp add: addMemory_def heap_free_def h0_def)
  then show ?thesis using h' same_contents_trans [OF h0(2)] by auto
qed

lemma insert_block_fits: "n \<le> snd b \<Longrightarrow> \<exists>c\<in>set (insert_block b bs). n \<le> snd c"
proof (induction bs)
  case (Cons c bs)
  have m: "\<exists>e\<in>set (merge_next d xs). n \<le> snd e" if "n \<le> snd d" for d xs
    using that by (cases "(d, xs)" rule: merge_next.cases) auto
  show ?case using Cons m [of b "c # bs"] m [of "(fst c, snd c + 16 + snd b)" bs] by auto
qed simp

lemma sint_small:
  assumes "k < 2 ^ 31"
  shows "sint (of_nat k :: u32) = int k"
proof -
  have "sint (of_nat k :: u32) = signed_take_bit 31 (int k)" by (simp add: signed_of_nat)
  also have "\<dots> = int k" using assms by (intro signed_take_bit_int_eq_self) simp_all
  finally show ?thesis .
qed

lemma reqPages_eq:
  assumes "unat sz + 4111 < 2 ^ 43"
  shows "reqPages sz = int ((unat sz + 4111) div 4096)"
    "unat (word_of_int (reqPages sz * 4096) :: u64) = (unat sz + 4111) div 4096 * 4096"
proof -
  have e: "sz + 16 + 4096 - 1 = sz + of_nat 4111" by simp
  have "unat (sz + 16 + 4096 - 1) = unat sz + 4111" unfolding e using assms by (intro unat_plus) simp
  then have d: "unat ((sz + 16 + 4096 - 1) div 4096) = (unat sz + 4111) div 4096" by (simp add: unat_div)
  have l: "(unat sz + 4111) div 4096 < 2 ^ 31" using assms by simp
  have "(ucast ((sz + 16 + 4096 - 1) div 4096) :: u32) = of_nat ((unat sz + 4111) div 4096)"
    unfolding d [symmetric] by (simp add: unsigned_ucast_eq)
  then show r: "reqPages sz = int ((unat sz + 4111) div 4096)"
    using sint_small [OF l] unfolding reqPages_def by simp
  show "unat (word_of_int (reqPages sz * 4096) :: u64) = (unat sz + 4111) div 4096 * 4096"
  proof -
    let ?k = "(unat sz + 4111) div 4096"
    have "(word_of_int (int ?k * 4096) :: u64) = of_nat (?k * 4096)" by simp
    moreover have "?k * 4096 < 2 ^ 64"
      using assms div_times_less_eq_dividend [of "unat sz + 4111" 4096] by simp
    ultimately show ?thesis unfolding r using unat_of_addr by metis
  qed
qed

lemma heap_alloc_grow:
  assumes ok: "heap_ok h bs ls" and none: "best_fit (unat sz) None bs = None" and n: "unat sz + 4111 < 2 ^ 43"
    and vm: "allocNPages (reqPages sz) v = Some (addr, v')"
    and a: "0 < unat addr" "unat addr + nat (reqPages sz) * 4096 < 2 ^ 64"
    and dis: "{unat addr..<unat addr + nat (reqPages sz) * 4096} \<inter> bytes_of (bs @ ls) = {}"
  defines "bs' \<equiv> insert_block (unat addr, nat (reqPages sz) * 4096 - 16) bs"
  shows "separated bs' \<and> (\<exists>b p h'. best_fit (unat sz) None bs' = Some b \<and> heap_alloc allocNPages sz v h = Some (p, v', h') \<and>
    unat p = fst b + 16 \<and> heap_ok h' (replace_block b (rest_of (unat sz) b) bs') (taken_of (unat sz) b # ls) \<and>
    same_contents ls h h')"
proof -
  let ?k = "(unat sz + 4111) div 4096"
  let ?bytes = "word_of_int (reqPages sz * 4096) :: u64"
  have k: "nat (reqPages sz) = ?k" "unat ?bytes = ?k * 4096" "unat sz + 16 \<le> ?k * 4096"
    using reqPages_eq [OF n] by simp_all
  obtain h1 where h1: "addMemory addr ?bytes h = Some h1" "heap_ok h1 bs' ls" "same_contents ls h h1"
    using addMemory_spec [OF ok a(1), of ?bytes] a(2) dis k by (auto simp: bs'_def)
  have "\<exists>c\<in>set bs'. unat sz \<le> snd c" unfolding bs'_def using k by (intro insert_block_fits) simp
  then obtain b where b: "best_fit (unat sz) None bs' = Some b"
    using best_fit_none [of "unat sz" bs'] by (cases "best_fit (unat sz) None bs'") auto
  obtain p h' where h': "heap_alloc allocNPages sz v' h1 = Some (p, v', h')" "unat p = fst b + 16"
    "heap_ok h' (replace_block b (rest_of (unat sz) b) bs') (taken_of (unat sz) b # ls)" "same_contents ls h1 h'"
    using heap_alloc_fit [OF h1(2) b, of allocNPages v'] by blast
  have "alloc_scan (hmem h) sz (head h) 0 0 0 (- 1) = Some (0, 0)"
  proof -
    have "prev_of [] 0" "scan_state [] None 0 0 (- 1)" by (simp_all add: prev_of_def)
    moreover have "seg (hmem h) (head h) bs 0" "separated bs" using ok by (simp_all add: heap_ok_def heap_inv_def)
    ultimately show ?thesis using alloc_scan_spec [of "hmem h" "head h" bs "[]" 0 None 0 0 "- 1" sz] none by auto
  qed
  then have "heap_alloc allocNPages sz v h = heap_alloc allocNPages sz v' h1"
    using vm h1(1) by (subst heap_alloc.simps) simp
  moreover have "separated bs'" using h1(2) by (simp add: heap_ok_def heap_inv_def)
  ultimately show ?thesis using b h' same_contents_trans [OF h1(3)] by auto
qed

lemma bytes_replace:
  assumes "separated bs" "b \<in> set bs" "n \<le> snd b"
  shows "bytes_of (taken_of n b # replace_block b (rest_of n b) bs) = bytes_of bs"
proof -
  obtain xs ys where bs: "bs = xs @ b # ys" using split_list [OF assms(2)] by blast
  then show ?thesis using replace_block_eq [of xs b ys] assms(1) bytes_rest_taken(1) [OF assms(3)] by auto
qed

section \<open>Contract of the kernel heap\<close>

text \<open>A one-page heap, the state right after \<open>MallocHeap::init\<close>, on which the witnesses run.\<close>

definition page_heap :: FreeList where
  "page_heap = \<lparr>hmem = set_nnext 4096 0 (set_nsize 4096 4080 (\<lambda>_. 0)), head = 4096\<rparr>"

lemma page_heap_ok: "heap_ok page_heap [(4096, 4080)] []"
  by (simp add: heap_ok_def heap_inv_def page_heap_def fits_def bend_def)

lemma kmalloc_grow_spec:
  assumes "heap_ok h bs ls" "\<forall>c\<in>set bs. snd c < unat sz" "unat sz + 4111 < 2 ^ 43"
    and "allocNPages (reqPages sz) v = Some (addr, v')"
    and "0 < unat addr" "unat addr + nat (reqPages sz) * 4096 < 2 ^ 64"
    and "{unat addr..<unat addr + nat (reqPages sz) * 4096} \<inter> bytes_of (bs @ ls) = {}"
  shows "\<exists>b p h' bs'. kmalloc allocNPages sz v h = Some (p, v', h') \<and> unat p = fst b + 16 \<and>
    unat sz \<le> snd b \<and> heap_ok h' bs' (b # ls) \<and> same_contents ls h h' \<and>
    bytes_of (b # bs') = bytes_of bs \<union> {unat addr..<unat addr + nat (reqPages sz) * 4096}"
proof -
  define bs' where "bs' = insert_block (unat addr, nat (reqPages sz) * 4096 - 16) bs"
  have none: "best_fit (unat sz) None bs = None" using assms(2) by (simp add: best_fit_none)
  obtain b p h' where b: "best_fit (unat sz) None bs' = Some b" "heap_alloc allocNPages sz v h = Some (p, v', h')"
    "unat p = fst b + 16" "heap_ok h' (replace_block b (rest_of (unat sz) b) bs') (taken_of (unat sz) b # ls)"
    "same_contents ls h h'" "separated bs'"
    using heap_alloc_grow [where allocNPages = allocNPages, OF assms(1) none assms(3-7)] unfolding bs'_def by blast
  have n: "b \<in> set bs'" "unat sz \<le> snd b" using best_fit_sound [OF b(1)] by auto
  have "nat (reqPages sz) * 4096 \<ge> 16" using reqPages_eq [OF assms(3)] by simp
  then have "bytes_of bs' = bytes_of bs \<union> {unat addr..<unat addr + nat (reqPages sz) * 4096}"
    by (auto simp: bs'_def bytes_insert_block bend_def)
  moreover have "bytes_of (taken_of (unat sz) b # replace_block b (rest_of (unat sz) b) bs') = bytes_of bs'"
    by (rule bytes_replace [OF b(6) n])
  ultimately show ?thesis using b n by (intro exI [of _ "taken_of (unat sz) b"]) (auto simp: kmalloc_def taken_of_def)
qed

text \<open>C1: \<open>kmalloc\<close> with a free block that fits always returns: it takes a smallest such block, the
  pointer is the payload of that block, the rest of the block (if it can hold a header and a byte) stays
  free, the new free list is again ordered with gaps, the block handed out overlaps no live and no free
  block, and the contents of all live blocks are untouched.\<close>

theorem kmalloc_correct:
  assumes "heap_ok h bs ls" "\<exists>c\<in>set bs. unat sz \<le> snd c"
  shows "\<exists>b p h'. b \<in> set bs \<and> unat sz \<le> snd b \<and> (\<forall>c\<in>set bs. unat sz \<le> snd c \<longrightarrow> snd b \<le> snd c) \<and>
    kmalloc allocNPages sz v h = Some (p, v, h') \<and> unat p = fst b + 16 \<and>
    heap_ok h' (replace_block b (rest_of (unat sz) b) bs) (taken_of (unat sz) b # ls) \<and> same_contents ls h h'"
proof -
  obtain b where b: "best_fit (unat sz) None bs = Some b"
    using assms(2) best_fit_none [of "unat sz" bs] by (cases "best_fit (unat sz) None bs") auto
  have "b \<in> set bs" "unat sz \<le> snd b" "\<forall>c\<in>set bs. unat sz \<le> snd c \<longrightarrow> snd b \<le> snd c"
    using best_fit_sound [OF b] best_fit_minimal [OF b] by auto
  then show ?thesis
    using heap_alloc_fit [OF assms(1) b, of allocNPages v] unfolding kmalloc_def by blast
qed

theorem kmalloc_correct_witness:
  "heap_ok page_heap [(4096, 4080)] [] \<and> (\<exists>p h'. kmalloc (\<lambda>_ _. None) 100 () page_heap = Some (p, (), h') \<and>
     unat p = 4112 \<and> heap_ok h' [(4212, 3964)] [(4096, 100)])"
  using kmalloc_correct [OF page_heap_ok, of 100 "\<lambda>_ _. None" "()"]
  by (auto simp: page_heap_ok replace_block_def rest_of_def taken_of_def)

text \<open>C4: when no free block fits, \<open>kmalloc\<close> adds the region it gets from the virtual memory manager to
  the free list and its retry succeeds: provided the manager returns a region of the requested number of
  pages that overlaps nothing the heap owns and the size is below 8 TiB, the call returns a fresh block, and
  live blocks are untouched.\<close>

theorem kmalloc_grows:
  assumes "heap_ok h bs ls" "\<forall>c\<in>set bs. snd c < unat sz" "unat sz + 4111 < 2 ^ 43"
    and "allocNPages (reqPages sz) v = Some (addr, v')"
    and "0 < unat addr" "unat addr + nat (reqPages sz) * 4096 < 2 ^ 64"
    and "{unat addr..<unat addr + nat (reqPages sz) * 4096} \<inter> bytes_of (bs @ ls) = {}"
  shows "\<exists>b p h' bs'. kmalloc allocNPages sz v h = Some (p, v', h') \<and> unat p = fst b + 16 \<and>
    unat sz \<le> snd b \<and> heap_ok h' bs' (b # ls) \<and> same_contents ls h h' \<and>
    bytes_of (b # bs') = bytes_of bs \<union> {unat addr..<unat addr + nat (reqPages sz) * 4096}"
  using kmalloc_grow_spec [where allocNPages = allocNPages, OF assms] .

theorem kmalloc_grows_witness:
  "reqPages 5000 = 2 \<and> (\<exists>b p h' bs'. kmalloc (\<lambda>n v. if n = 2 then Some (65536, v) else None) 5000 () page_heap = Some (p, (), h') \<and>
     unat p = fst b + 16 \<and> 5000 \<le> snd b \<and> heap_ok h' bs' [b])"
proof -
  have r: "reqPages 5000 = 2" using reqPages_eq(1) [of 5000] by simp
  show ?thesis
    using kmalloc_grows [OF page_heap_ok, of 5000 "\<lambda>n v. if n = 2 then Some (65536, v) else None" "()" 65536 "()"] r
    by (auto simp: bend_def)
qed

text \<open>C2: \<open>kfree\<close> of a live block always returns, puts exactly the bytes of the block back on the free
  list merged with both neighbours (the list stays ordered with a gap between any two free blocks, so no two
  adjacent free blocks remain), and leaves the contents of all other live blocks untouched.\<close>

theorem kfree_correct:
  assumes "heap_ok h bs (b # ls)" "unat p = fst b + 16"
  shows "\<exists>h'. kfree p h = Some h' \<and> heap_ok h' (insert_block b bs) ls \<and> same_contents ls h h' \<and>
    bytes_of (insert_block b bs) = {fst b..<bend b} \<union> bytes_of bs"
  using heap_free_spec [OF assms] by (simp add: kfree_def bytes_insert_block)

theorem kfree_correct_witness:
  "\<exists>h h'. heap_ok h [(4212, 3964)] [(4096, 100)] \<and> kfree 4112 h = Some h' \<and> heap_ok h' [(4096, 4080)] []"
proof -
  obtain h where h: "heap_ok h [(4212, 3964)] [(4096, 100)]"
    using heap_alloc_fit [OF page_heap_ok, of 100 _ "\<lambda>_ _. None" "()"]
    by (auto simp: replace_block_def rest_of_def taken_of_def)
  show ?thesis using kfree_correct [OF h, of 4112] h by (auto simp: bend_def)
qed

text \<open>Releasing a block that was just taken out of the free list \<open>bs\<close> gives \<open>bs\<close> again.\<close>

lemma taken_block_back:
  assumes "separated bs" "best_fit (unat sz) None bs = Some b" "unat p = fst b + 16" "same_contents ls h h'"
    and "heap_ok h' (replace_block b (rest_of (unat sz) b) bs) (taken_of (unat sz) b # ls)"
  shows "\<exists>h''. kfree p h' = Some h'' \<and> heap_ok h'' bs ls \<and> same_contents ls h h''"
proof -
  have "insert_block (taken_of (unat sz) b) (replace_block b (rest_of (unat sz) b) bs) = bs"
    using assms(1) best_fit_sound [OF assms(2)] by (intro insert_taken) auto
  then show ?thesis
    using heap_free_spec [OF assms(5), of p] assms(3) same_contents_trans [OF assms(4)] by (auto simp: kfree_def)
qed

text \<open>C3: releasing a block right after it was allocated. When a free block fits, \<open>kmalloc\<close> then
  \<open>kfree\<close> of its result restores the free list exactly, without fragmentation or lost bytes, whether or not the block was split. When
  none fits and the heap has to grow by pages at \<open>addr\<close> (of memory the heap does not own, for a size below 8 TiB), the free list afterwards is the old one with
  exactly that region added and merged with its neighbours.\<close>

theorem kmalloc_kfree_roundtrip:
  assumes "heap_ok h bs ls"
    and "(\<exists>c\<in>set bs. unat sz \<le> snd c) \<and> v' = v \<and> bs' = bs \<or>
      (\<forall>c\<in>set bs. snd c < unat sz) \<and> unat sz + 4111 < 2 ^ 43 \<and> allocNPages (reqPages sz) v = Some (addr, v') \<and>
      0 < unat addr \<and> unat addr + nat (reqPages sz) * 4096 < 2 ^ 64 \<and>
      {unat addr..<unat addr + nat (reqPages sz) * 4096} \<inter> bytes_of (bs @ ls) = {} \<and>
      bs' = insert_block (unat addr, nat (reqPages sz) * 4096 - 16) bs"
  shows "\<exists>p h' h''. kmalloc allocNPages sz v h = Some (p, v', h') \<and> kfree p h' = Some h'' \<and>
    heap_ok h'' bs' ls \<and> same_contents ls h h''"
  using assms(2)
proof (elim disjE conjE)
  assume fit: "\<exists>c\<in>set bs. unat sz \<le> snd c" "v' = v" "bs' = bs"
  obtain b where b: "best_fit (unat sz) None bs = Some b"
    using fit(1) best_fit_none [of "unat sz" bs] by (cases "best_fit (unat sz) None bs") auto
  have "separated bs" using assms(1) by (simp add: heap_ok_def heap_inv_def)
  then show ?thesis
    using heap_alloc_fit [OF assms(1) b, of allocNPages v] taken_block_back [OF _ b] unfolding kmalloc_def fit(2,3) by blast
next
  assume n: "\<forall>c\<in>set bs. snd c < unat sz" "unat sz + 4111 < 2 ^ 43" "allocNPages (reqPages sz) v = Some (addr, v')"
    "0 < unat addr" "unat addr + nat (reqPages sz) * 4096 < 2 ^ 64"
    "{unat addr..<unat addr + nat (reqPages sz) * 4096} \<inter> bytes_of (bs @ ls) = {}"
    and bs': "bs' = insert_block (unat addr, nat (reqPages sz) * 4096 - 16) bs"
  have "best_fit (unat sz) None bs = None" using n(1) by (simp add: best_fit_none)
  then show ?thesis
    using heap_alloc_grow [where allocNPages = allocNPages, OF assms(1) _ n(2-6)] taken_block_back [of bs' sz] unfolding kmalloc_def bs' by blast
qed

theorem kmalloc_kfree_roundtrip_witness:
  "heap_ok page_heap [(4096, 4080)] [] \<and> (\<exists>p h' h''. kmalloc (\<lambda>_ _. None) 4070 () page_heap = Some (p, (), h') \<and>
     kfree p h' = Some h'' \<and> heap_ok h'' [(4096, 4080)] [])"
  using kmalloc_kfree_roundtrip [OF page_heap_ok, of 4070 "()" "()" "[(4096, 4080)]" "\<lambda>_ _. None"] by (auto simp: page_heap_ok)

text \<open>Initialisation: \<open>MallocHeap::init\<close> turns the page it gets into a heap with the one free block
  that covers the page, for every page address other than 0 that does not reach the end of the address space.\<close>

theorem mallocHeap_init_correct:
  assumes "allocNPages 1 v = Some (addr, v')" "0 < unat addr" "unat addr + 4096 < 2 ^ 64"
  shows "\<exists>h. mallocHeap_init allocNPages v m = Some (v', h) \<and> heap_ok h [(unat addr, 4080)] []"
proof -
  have "heap_ok \<lparr>hmem = m, head = 0\<rparr> [] []" by (simp add: heap_ok_def heap_inv_def)
  then obtain h where "addMemory addr 4096 \<lparr>hmem = m, head = 0\<rparr> = Some h" "heap_ok h [(unat addr, 4080)] []"
    using addMemory_spec [of "\<lparr>hmem = m, head = 0\<rparr>" "[]" "[]" addr 4096] assms by auto
  then show ?thesis using assms(1) by (simp add: mallocHeap_init_def heap_new_def)
qed

theorem mallocHeap_init_correct_witness:
  "\<exists>h. mallocHeap_init (\<lambda>n v. Some (4096, v)) () (\<lambda>_. 0xff) = Some ((), h) \<and> heap_ok h [(4096, 4080)] []"
  using mallocHeap_init_correct [of "\<lambda>n v. Some (4096, v)" "()" 4096 "()" "\<lambda>_. 0xff"] by simp

end
