(* ===== verification/Heap_Pages.thy ===== *)
theory Heap_Pages
  imports Vmm_Alloc Free_List
begin

text \<open>
  The kernel heap on top of the virtual memory manager: what the heap needs of the pages it gets, as an
  interface that the manager implements, and growth of the heap inside mapped memory.
\<close>

section \<open>Bytes of mapped pages\<close>

definition page_bytes :: "IndexOffset \<Rightarrow> nat set" where
  "page_bytes io = {unat (getVirtualAddr io)..<unat (getVirtualAddr io) + 4096}"

definition mapped_bytes :: "VMM \<Rightarrow> nat set" where
  "mapped_bytes v = \<Union> (page_bytes ` {io. valid_idx io \<and> page_map v io \<noteq> None})"

abbreviation region :: "nat \<Rightarrow> nat \<Rightarrow> nat set" where
  "region a n \<equiv> {a..<a + n * 4096}"

lemma page_in_region:
  assumes "valid_idx io" "valid_idx p" "2 ^ 35 \<le> pageNo io" "x \<in> page_bytes p"
  shows "x \<in> region (unat (getVirtualAddr io)) n \<longleftrightarrow> pageNo io \<le> pageNo p \<and> pageNo p < pageNo io + n"
proof (cases "pageNo p < 2 ^ 35")
  case True
  then show ?thesis using assms unat_vaddr [OF assms(1)] unat_vaddr [OF assms(2)] by (auto simp: page_bytes_def)
next
  case False
  then show ?thesis using assms unat_vaddr [OF assms(1)] unat_vaddr [OF assms(2)] by (auto simp: page_bytes_def)
qed

lemma region_page:
  assumes "valid_idx io" "2 ^ 35 \<le> pageNo io" "vacant_run v (pageNo io) n" "x \<in> region (unat (getVirtualAddr io)) n"
  obtains p where "vacant_page v p" "x \<in> page_bytes p" "pageNo io \<le> pageNo p" "pageNo p < pageNo io + n"
proof -
  define j where "j = (x - unat (getVirtualAddr io)) div 4096"
  have j: "j < n" "unat (getVirtualAddr io) + j * 4096 \<le> x" "x < unat (getVirtualAddr io) + j * 4096 + 4096"
    using assms(4) by (auto simp: j_def less_mult_imp_div_less)
  obtain p where p: "vacant_page v p" "pageNo p = pageNo io + j" using assms(3) j(1) by (auto simp: vacant_run_def)
  have "unat (getVirtualAddr p) = unat (getVirtualAddr io) + j * 4096"
    using unat_vaddr [OF assms(1)] unat_vaddr [of p] p assms(2) by (simp add: vacant_page_def)
  then show thesis using that [OF p(1)] p(2) j by (simp add: page_bytes_def)
qed

lemma mapped_bytes_run:
  assumes io: "valid_idx io" "2 ^ 35 \<le> pageNo io" and run: "vacant_run v (pageNo io) (length frs)"
    and map: "mapped_run v v' (pageNo io) frs"
  shows "region (unat (getVirtualAddr io)) (length frs) \<inter> mapped_bytes v = {}"
    "mapped_bytes v' = mapped_bytes v \<union> region (unat (getVirtualAddr io)) (length frs)"
proof -
  let ?R = "region (unat (getVirtualAddr io)) (length frs)"
  show "?R \<inter> mapped_bytes v = {}"
  proof (rule equals0I)
    fix x assume "x \<in> ?R \<inter> mapped_bytes v"
    then obtain p where p: "valid_idx p" "page_map v p \<noteq> None" "x \<in> page_bytes p" "x \<in> ?R" by (auto simp: mapped_bytes_def)
    then have "pageNo io \<le> pageNo p" "pageNo p < pageNo io + length frs" using page_in_region [OF io(1) p(1) io(2) p(3)] by auto
    then obtain p' where "vacant_page v p'" "pageNo p' = pageNo p" using vacant_runD [OF run] by blast
    then show False using pageNo_inj [of p' p] p(1,2) vacant_not_mapped [of v p'] by (auto simp: vacant_page_def)
  qed
  have pm: "page_map v' p \<noteq> None \<longleftrightarrow> page_map v p \<noteq> None \<or> pageNo io \<le> pageNo p \<and> pageNo p < pageNo io + length frs"
    if "valid_idx p" for p using map that by (auto simp: mapped_run_def)
  show "mapped_bytes v' = mapped_bytes v \<union> ?R"
  proof (intro set_eqI iffI)
    fix x assume "x \<in> mapped_bytes v'"
    then obtain p where p: "valid_idx p" "page_map v' p \<noteq> None" "x \<in> page_bytes p" by (auto simp: mapped_bytes_def)
    then show "x \<in> mapped_bytes v \<union> ?R" using pm [OF p(1)] page_in_region [OF io(1) p(1) io(2) p(3)] by (auto simp: mapped_bytes_def)
  next
    fix x assume "x \<in> mapped_bytes v \<union> ?R"
    then show "x \<in> mapped_bytes v'"
    proof
      assume "x \<in> mapped_bytes v"
      then obtain p where "valid_idx p" "page_map v p \<noteq> None" "x \<in> page_bytes p" by (auto simp: mapped_bytes_def)
      then show ?thesis using pm [of p] unfolding mapped_bytes_def by blast
    next
      assume "x \<in> ?R"
      then obtain p where p: "vacant_page v p" "x \<in> page_bytes p" "pageNo io \<le> pageNo p" "pageNo p < pageNo io + length frs"
        using region_page [OF io run] by blast
      then show ?thesis using pm [of p] unfolding mapped_bytes_def vacant_page_def by blast
    qed
  qed
qed

section \<open>The interface\<close>

text \<open>\<open>pages n\<close> hands out \<open>n\<close> pages of memory that was not mapped before, whenever the source is ready for that.\<close>

locale page_source =
  fixes pages :: "int \<Rightarrow> 's \<Rightarrow> (u64 \<times> 's) option" and mapped :: "'s \<Rightarrow> nat set"
    and inv :: "'s \<Rightarrow> bool" and ready :: "nat \<Rightarrow> 's \<Rightarrow> bool"
  assumes pages_fresh: "inv s \<Longrightarrow> ready n s \<Longrightarrow> 0 < n \<Longrightarrow> \<exists>addr s'. pages (int n) s = Some (addr, s') \<and> inv s' \<and>
      0 < unat addr \<and> unat addr + n * 4096 < 2 ^ 64 \<and> region (unat addr) n \<inter> mapped s = {} \<and>
      mapped s' = mapped s \<union> region (unat addr) n"
begin

lemma kmalloc_from_pages:
  assumes "heap_ok h bs ls" "\<forall>c\<in>set bs. snd c < unat sz" "unat sz + 4111 < 2 ^ 43"
    and "bytes_of (bs @ ls) \<subseteq> mapped s" "inv s" "ready (nat (reqPages sz)) s"
  shows "\<exists>b p s' h' bs'. kmalloc pages sz s h = Some (p, s', h') \<and> unat p = fst b + 16 \<and> unat sz \<le> snd b \<and>
    heap_ok h' bs' (b # ls) \<and> same_contents ls h h' \<and> inv s' \<and> bytes_of (b # bs' @ ls) \<subseteq> mapped s'"
proof -
  let ?n = "nat (reqPages sz)"
  have r: "reqPages sz = int ?n" "0 < ?n" using reqPages_eq [OF assms(3)] by simp_all
  obtain addr s' where s': "pages (int ?n) s = Some (addr, s')" "inv s'" "0 < unat addr" "unat addr + ?n * 4096 < 2 ^ 64"
    "region (unat addr) ?n \<inter> mapped s = {}" "mapped s' = mapped s \<union> region (unat addr) ?n"
    using pages_fresh [OF assms(5,6) r(2)] by blast
  have dis: "region (unat addr) ?n \<inter> bytes_of (bs @ ls) = {}" using s'(5) assms(4) by blast
  obtain b p h' bs' where h: "kmalloc pages sz s h = Some (p, s', h')" "unat p = fst b + 16" "unat sz \<le> snd b"
    "heap_ok h' bs' (b # ls)" "same_contents ls h h'" "bytes_of (b # bs') = bytes_of bs \<union> region (unat addr) ?n"
    using kmalloc_grow_spec [where allocNPages = pages, OF assms(1-3) s'(1) [folded r(1)] s'(3,4) dis] by blast
  have "bytes_of (b # bs' @ ls) = bytes_of (b # bs') \<union> bytes_of ls" "bytes_of (bs @ ls) = bytes_of bs \<union> bytes_of ls"
    by (auto simp: bytes_of_def)
  then have "bytes_of (b # bs' @ ls) \<subseteq> mapped s'" using h(6) assms(4) s'(6) by auto
  then show ?thesis using h s'(2) by blast
qed

end

definition vmm_inv :: "VMM \<Rightarrow> bool" where
  "vmm_inv v \<longleftrightarrow> vmm_ok v \<and> pmm_inv (phys v) \<and> frameCnt (phys v) \<le> 2 ^ 40"

text \<open>Enough entries in existing tables, enough frames, and a run of vacant pages below the last page.\<close>

definition vmm_ready :: "nat \<Rightarrow> VMM \<Rightarrow> bool" where
  "vmm_ready n v \<longleftrightarrow> int n + 11 \<le> availablePagesHH v \<and> availablePagesHH v < 2 ^ 31 \<and> n \<le> card (avail_addrs (phys v)) \<and>
     (\<exists>q. 2 ^ 35 \<le> q \<and> q + n < 2 ^ 36 \<and> vacant_run v q n)"

interpretation vm: page_source "allocNPages True" mapped_bytes vmm_inv vmm_ready
proof
  fix v :: VMM and n :: nat
  assume inv: "vmm_inv v" and rdy: "vmm_ready n v" and n: "0 < n"
  obtain q where q: "2 ^ 35 \<le> q" "q + n < 2 ^ 36" "vacant_run v q n" using rdy by (auto simp: vmm_ready_def)
  have i: "vmm_ok v" "pmm_inv (phys v)" "frameCnt (phys v) \<le> 2 ^ 40" using inv by (auto simp: vmm_inv_def)
  have av: "int n + 11 \<le> getAvailablePages True v" "getAvailablePages True v < 2 ^ 31" "\<not> card (avail_addrs (phys v)) < n"
    using rdy by (auto simp: vmm_ready_def getAvailablePages_def)
  have q0: "pageNo (first_page True) \<le> q" using q(1) first_page_no(2) [of True] by simp
  obtain io v' where io: "allocPages True True (int n) v = Some (getVirtualAddr io, v')" "least_run v (2 ^ 35) n io" "vmm_inv v'"
    "pages_taken v v' io n"
    using allocPages_spec [OF i n av(1,2) q0 q(3)] av(3) i(3) first_page_no(2) [of True] by (auto simp: vmm_inv_def)
  have p: "valid_idx io" "2 ^ 35 \<le> pageNo io" "vacant_run v (pageNo io) n" "pageNo io \<le> q"
    using io(2) q(1,3) by (auto simp: least_run_def vacant_page_def)
  obtain frs where frs: "length frs = n" "mapped_run v v' (pageNo io) frs" using io(4) by (auto simp: pages_taken_def)
  have "unat (getVirtualAddr io) = pageNo io * 4096 + (2 ^ 64 - 2 ^ 48)" using unat_vaddr [OF p(1)] p(2) by simp
  then have "0 < unat (getVirtualAddr io)" "unat (getVirtualAddr io) + n * 4096 < 2 ^ 64" using p(4) q(2) by simp_all
  then show "\<exists>addr s'. allocNPages True (int n) v = Some (addr, s') \<and> vmm_inv s' \<and> 0 < unat addr \<and> unat addr + n * 4096 < 2 ^ 64 \<and>
      region (unat addr) n \<inter> mapped_bytes v = {} \<and> mapped_bytes s' = mapped_bytes v \<union> region (unat addr) n"
    using io(1,3) mapped_bytes_run [OF p(1,2) _ frs(2)] p(3) frs(1) unfolding allocNPages_def by auto
qed

section \<open>Properties\<close>

text \<open>C20: \<open>kmalloc\<close> over the actual virtual memory manager: when no free block fits and the manager has a run
  of vacant pages, frames and page table entries, the call succeeds with a fresh block of the size asked for,
  the contents of live blocks are untouched, the page tables stay well-formed, and every block of the heap
  still lies in mapped pages.\<close>

theorem kmalloc_grows_into_mapped_pages:
  assumes "heap_ok h bs ls" "\<forall>c\<in>set bs. snd c < unat sz" "unat sz + 4111 < 2 ^ 43"
    and "bytes_of (bs @ ls) \<subseteq> mapped_bytes v" "vmm_inv v" "vmm_ready (nat (reqPages sz)) v"
  shows "\<exists>b p v' h' bs'. kmalloc (allocNPages True) sz v h = Some (p, v', h') \<and> unat p = fst b + 16 \<and> unat sz \<le> snd b \<and>
    heap_ok h' bs' (b # ls) \<and> same_contents ls h h' \<and> vmm_inv v' \<and> bytes_of (b # bs' @ ls) \<subseteq> mapped_bytes v'"
  using vm.kmalloc_from_pages [OF assms] .

theorem kmalloc_grows_into_mapped_pages_witness:
  "\<exists>b p v' h' bs'. kmalloc (allocNPages True) 5000 demo_vmm \<lparr>hmem = (\<lambda>_. 0), head = 0\<rparr> = Some (p, v', h') \<and>
    5000 \<le> snd b \<and> heap_ok h' bs' [b] \<and> vmm_inv v' \<and> bytes_of (b # bs') \<subseteq> mapped_bytes v'"
proof -
  have r: "nat (reqPages 5000) = 2" using reqPages_eq(1) [of 5000] by simp
  have "heap_ok \<lparr>hmem = (\<lambda>_. 0), head = 0\<rparr> [] []" by (simp add: heap_ok_def heap_inv_def)
  moreover have "vmm_inv demo_vmm" using demo_vmm_ok demo_phys by (simp add: vmm_inv_def)
  moreover have "availablePagesHH demo_vmm = 511" by (simp add: demo_vmm_def)
  then have "vmm_ready 2 demo_vmm"
    unfolding vmm_ready_def using demo_phys(3) demo_run [of 2 2] by (intro conjI exI [of _ "2 ^ 35 + 2"]) simp_all
  ultimately obtain b p v' h' bs' where "kmalloc (allocNPages True) 5000 demo_vmm \<lparr>hmem = (\<lambda>_. 0), head = 0\<rparr> = Some (p, v', h')"
    "5000 \<le> snd b" "heap_ok h' bs' [b]" "vmm_inv v'" "bytes_of (b # bs' @ []) \<subseteq> mapped_bytes v'"
    using kmalloc_grows_into_mapped_pages [of "\<lparr>hmem = (\<lambda>_. 0), head = 0\<rparr>" "[]" "[]" 5000 demo_vmm] r
    by (auto simp: bytes_of_def simp del: append_Nil2)
  then show ?thesis by (simp only: append_Nil2) blast
qed

end
