(* ===== verification/Boot.thy ===== *)
theory Boot
  imports Terminal Heap_Pages
begin

text \<open>
  Start-up (\<open>kernel_main\<close> of \<open>kernel/kernel/kernel.cpp\<close>): the boot loader's memory map becomes the kernel's, from which the memory
  managers and the heap are started, then the file systems, the first thread and the terminal. The entries of the map
  (\<open>struct limine_memmap_entry\<close> of \<open>limine.h\<close>) are what the boot loader hands over.
\<close>

section \<open>The memory map\<close>

record MemEntry =
  e_base :: u64
  e_length :: u64
  e_type :: u64

abbreviation (input) LIMINE_MEMMAP_USABLE :: u64 where "LIMINE_MEMMAP_USABLE \<equiv> 0"
abbreviation (input) LIMINE_MEMMAP_KERNEL_AND_MODULES :: u64 where "LIMINE_MEMMAP_KERNEL_AND_MODULES \<equiv> 6"

definition limineMemTypeMap :: "string list" where
  "limineMemTypeMap = [''USABLE'', ''RESERVED'', ''ACPI_RECLAIMABLE'', ''ACPI_NVS'', ''BAD_MEMORY'', ''BOOTLOADER_RECLAIMABLE'',
     ''KERNEL_AND_MODULES'', ''FRAMEBUFFER'']"

text \<open>The first loop prints every entry and counts the usable ones; the second fills the array and finds the kernel.\<close>

fun count_entries :: "nat \<Rightarrow> MemEntry list \<Rightarrow> 'b Machine \<times> PhysicalMemMap \<Rightarrow> ('b Machine \<times> PhysicalMemMap) option" where
  "count_entries i [] st = Some st"
| "count_entries i (e # es) st =
    (if unat (e_type e) < length limineMemTypeMap then
       let (m, mm) = st;
           m = printf_call (''Memory entry %d: base: %x length: %x type: %s'' @ nl)
             [IntArg (of_nat i), IntArg (e_base e), IntArg (e_length e), StrArg (limineMemTypeMap ! unat (e_type e))] m;
           mm = (if e_type e = LIMINE_MEMMAP_USABLE then mm\<lparr>availMemArrCnt := availMemArrCnt mm + 1\<rparr> else mm)
       in count_entries (Suc i) es (m, mm)
     else None)"

fun fill_entries :: "MemEntry list \<Rightarrow> PhysicalMemMap \<Rightarrow> PhysicalMemMap" where
  "fill_entries [] mm = mm"
| "fill_entries (e # es) mm = fill_entries es
    (if e_type e = LIMINE_MEMMAP_USABLE
     then mm\<lparr>availableMemArr := availableMemArr mm @ [\<lparr>mr_start = e_base e, mr_size = e_length e\<rparr>]\<rparr>
     else if e_type e = LIMINE_MEMMAP_KERNEL_AND_MODULES then mm\<lparr>kernelStart := e_base e, kernelSize := e_length e\<rparr>
     else mm)"

text \<open>The size of the memory is the end of the last entry but one.\<close>

definition parse_memmap :: "MemEntry list \<Rightarrow> 'b Machine \<Rightarrow> ('b Machine \<times> PhysicalMemMap) option" where
  "parse_memmap es m = (if length es < 2 then None else do {
     let e = es ! (length es - 2);
     let mm = \<lparr>totalSize = e_base e + e_length e, availableMemArr = [], availMemArrCnt = 0, kernelStart = 0, kernelSize = 0\<rparr>;
     let m = printf_call (''Physcial Memory Map: (Total: %x) ------------------------------------'' @ nl) [IntArg (totalSize mm)] m;
     (m, mm) \<leftarrow> count_entries 0 es (m, mm);
     Some (m, fill_entries es mm) })"

section \<open>Start-up\<close>

text \<open>\<open>kernel_early\<close>: the constructors of global objects run in order; without a terminal the kernel panics. \<open>terminals\<close> is the number of terminals
  of the boot loader's response, if there is one.\<close>

definition kernel_early :: "('b Machine \<Rightarrow> 'b Machine) list \<Rightarrow> nat option \<Rightarrow> 'b Machine \<Rightarrow> 'b Machine + 'b Machine" where
  "kernel_early ctors terminals m =
    (let m = fold (\<lambda>ctor. ctor) ctors m
     in case terminals of None \<Rightarrow> panic ''No terminal found'' m
        | Some n \<Rightarrow> if n < 1 then panic ''No terminal found'' m else Inr m)"

text \<open>\<open>raw\<close>: what the memory of the frame bitmap holds, \<open>bytes\<close>: what the memory of the heap holds, \<open>faultHandler\<close>: the address of the
  page fault handler.\<close>

definition start_memory :: "(u64 \<Rightarrow> int \<Rightarrow> u64) \<Rightarrow> mem \<Rightarrow> u64 \<Rightarrow> u64 \<Rightarrow> u64 \<times> u64 \<Rightarrow> MemEntry list \<Rightarrow> 'b Machine \<times> VMM \<Rightarrow>
    ('b Machine \<times> VMM \<times> FreeList) option" where
  "start_memory raw bytes faultHandler hhdm kernelAddr es = (\<lambda>(m, v). do {
     (m, mm) \<leftarrow> parse_memmap es m;
     let m = printf_call (''Kernel Addr-> Physical: %x Virtual: %x'' @ nl) [IntArg (fst kernelAddr), IntArg (snd kernelAddr)] m;
     let m = printf_call (''HHDM offset: %x'' @ nl) [IntArg hhdm] m;
     let m = printf_call (''------------------------------------------------------------------------'' @ nl) [] m;
     (case pmm_init raw hhdm mm emptyPMM of Inl _ \<Rightarrow> None
      | Inr (pmmMemRange, p) \<Rightarrow> do {
          (m, v) \<leftarrow> vmm_init faultHandler mm [pmmMemRange] (m, v\<lparr>phys := p, HHDMOffset := hhdm\<rparr>);
          (v, h) \<leftarrow> mallocHeap_init (allocNPages True) v bytes;
          Some (printf_call (''Memory Management System Activated!'' @ nl) [] m, v, h) }) })"

text \<open>The file systems: the RAM disk is device 1 and the frame buffer device 2; the constructor of the frame buffer touches nothing
  else, so its place in the order does not matter.\<close>

definition start_files :: "(u64 \<times> u64 \<times> u64 \<times> u8 list) list \<Rightarrow> u8 list \<Rightarrow> Devices VFS option" where
  "start_files fbs junk = do {
     rdfs \<leftarrow> createRamdisk 1 50 50;
     framebuffer \<leftarrow> new_FramebuferDevice 2 fbs;
     s \<leftarrow> new_VFS devs (Some 1) 0 [] \<lparr>disk = rdfs, fbdev = framebuffer\<rparr>;
     (_, s) \<leftarrow> vfs_mkdir devs junk ''/proc'' s;
     (_, s) \<leftarrow> vfs_mkdir devs junk ''/dev'' s;
     (_, s) \<leftarrow> vfs_mnt devs ''/dev/fb'' (Some 2) 0 s;
     Some s }"

text \<open>The finished thread that stands for the running code, and the terminal; \<open>stack\<close> is the address of the thread's stack.\<close>

definition kernel_main :: "'b Ports \<Rightarrow> (u64 \<Rightarrow> int \<Rightarrow> u64) \<Rightarrow> mem \<Rightarrow> u64 \<Rightarrow> u64 \<Rightarrow> u64 \<Rightarrow> u64 \<Rightarrow> u64 \<Rightarrow> u64 \<times> u64 \<Rightarrow> MemEntry list \<Rightarrow>
    (u64 \<times> u64 \<times> u64 \<times> u8 list) list \<Rightarrow> u8 list \<Rightarrow> 'b Machine \<times> VMM \<times> KState \<Rightarrow>
    ('b Machine \<times> VMM \<times> FreeList \<times> KState \<times> Devices Proc) option" where
  "kernel_main P raw bytes faultHandler keyHandler wrapper stack hhdm kernelAddr es fbs junk = (\<lambda>(m, v, k). do {
     (m, v, h) \<leftarrow> start_memory raw bytes faultHandler hhdm kernelAddr es (m, v);
     s \<leftarrow> start_files fbs junk;
     let m = keyboard_install P keyHandler m;
     pr \<leftarrow> open_std devs junk (unat (currId k)) s;
     let k = updThread 0 (\<lambda>t. t\<lparr>tstate := COMPLETED\<rparr>) (spawn wrapper 0 stack k);
     pr \<leftarrow> new_Terminal devs junk pr;
     Some (m, v, h, k, pr) })"

section \<open>The memory map is well formed\<close>

abbreviation usable :: "MemEntry \<Rightarrow> bool" where "usable e \<equiv> e_type e = LIMINE_MEMMAP_USABLE"

definition range_of :: "MemEntry \<Rightarrow> MemRange" where
  "range_of e = \<lparr>mr_start = e_base e, mr_size = e_length e\<rparr>"

abbreviation e_end :: "MemEntry \<Rightarrow> int" where "e_end e \<equiv> uint (e_base e) + uint (e_length e)"

text \<open>What the boot protocol promises of a memory map: entries have one of the eight types and do not wrap around; usable entries are made of
  whole pages and overlap no other entry.\<close>

definition limine_map :: "MemEntry list \<Rightarrow> bool" where
  "limine_map es \<longleftrightarrow> (\<forall>e\<in>set es. unat (e_type e) < 8 \<and> e_end e < 2 ^ 62) \<and>
     (\<forall>e\<in>set es. usable e \<longrightarrow> 4096 dvd uint (e_base e) \<and> 4096 dvd uint (e_length e)) \<and>
     (\<forall>i<length es. \<forall>j<length es. i \<noteq> j \<and> usable (es ! i) \<longrightarrow> e_end (es ! i) \<le> uint (e_base (es ! j)) \<or> e_end (es ! j) \<le> uint (e_base (es ! i)))"

lemma fill_entries_spec:
  "availableMemArr (fill_entries es mm) = availableMemArr mm @ map range_of (filter usable es)"
  "totalSize (fill_entries es mm) = totalSize mm" "availMemArrCnt (fill_entries es mm) = availMemArrCnt mm"
  by (induction es arbitrary: mm) (simp_all add: range_of_def)

lemma count_entries_spec:
  assumes "\<forall>e\<in>set es. unat (e_type e) < 8"
  shows "\<exists>m'. count_entries i es (m, mm) = Some (m', mm\<lparr>availMemArrCnt := availMemArrCnt mm + of_nat (length (filter usable es))\<rparr>)"
  using assms
proof (induction es arbitrary: i m mm)
  case (Cons e es)
  let ?mm = "if usable e then mm\<lparr>availMemArrCnt := availMemArrCnt mm + 1\<rparr> else mm"
  have "unat (e_type e) < length limineMemTypeMap" using Cons.prems by (simp add: limineMemTypeMap_def)
  then obtain m1 where step: "count_entries i (e # es) (m, mm) = count_entries (Suc i) es (m1, ?mm)" by auto
  have "\<forall>e\<in>set es. unat (e_type e) < 8" using Cons.prems by simp
  from Cons.IH [OF this, of "Suc i" m1 ?mm] show ?case unfolding step by (cases "usable e") (simp_all add: add.assoc)
qed simp

lemma parse_memmap_spec:
  assumes "limine_map es" "2 \<le> length es" "length es < 2 ^ 31"
  obtains m' mm where "parse_memmap es m = Some (m', mm)" "aligned_map mm" "availableMemArr mm = map range_of (filter usable es)"
    "uint (totalSize mm) = e_end (es ! (length es - 2))"
proof -
  let ?t = "es ! (length es - 2)" and ?us = "filter usable es"
  have "?t \<in> set es" using assms(2) by simp
  then have te: "e_end ?t < 2 ^ 62" using assms(1) by (auto simp: limine_map_def)
  define mm0 where "mm0 = \<lparr>totalSize = e_base ?t + e_length ?t, availableMemArr = [], availMemArrCnt = 0, kernelStart = 0, kernelSize = 0\<rparr>"
  have "\<forall>e\<in>set es. unat (e_type e) < 8" using assms(1) by (simp add: limine_map_def)
  from count_entries_spec [OF this] obtain m' where
    c: "count_entries 0 es (printf_call (''Physcial Memory Map: (Total: %x) ------------------------------------'' @ nl) [IntArg (totalSize mm0)] m, mm0) =
      Some (m', mm0\<lparr>availMemArrCnt := availMemArrCnt mm0 + of_nat (length ?us)\<rparr>)" by blast
  define mm where "mm = fill_entries es (mm0\<lparr>availMemArrCnt := availMemArrCnt mm0 + of_nat (length ?us)\<rparr>)"
  have p: "parse_memmap es m = Some (m', mm)" using c assms(2) by (simp add: parse_memmap_def mm_def mm0_def Let_def)
  have tot: "uint (totalSize mm) = e_end ?t" using te by (simp add: mm_def mm0_def fill_entries_spec uint_word_ariths)
  have arr: "availableMemArr mm = map range_of ?us" by (simp add: mm_def mm0_def fill_entries_spec)
  have "length ?us < 2 ^ 64" using le_less_trans [OF length_filter_le assms(3), of usable] by simp
  then have cnt: "unat (availMemArrCnt mm) = length ?us" by (simp add: mm_def mm0_def fill_entries_spec unat_of_nat)
  have "aligned_map mm" using te tot arr cnt assms(1) by (auto simp: aligned_map_def range_of_def limine_map_def)
  then show thesis using that p arr tot by blast
qed

text \<open>A frame of a usable entry touches no entry that is not usable.\<close>

lemma usable_frame:
  assumes "limine_map es" "u \<in> set es" "usable u" "e \<in> set es" "\<not> usable e" "f \<in> range_frames (range_of u)"
  shows "f * 4096 + 4096 \<le> uint (e_base e) \<or> e_end e \<le> f * 4096"
proof -
  obtain i j where ij: "i < length es" "es ! i = u" "j < length es" "es ! j = e" using assms(2,4) by (auto simp: in_set_conv_nth)
  then have "i \<noteq> j" using assms(3,5) by auto
  then have sep: "e_end u \<le> uint (e_base e) \<or> e_end e \<le> uint (e_base u)" using assms(1,3) ij by (auto simp: limine_map_def)
  have "4096 dvd uint (e_base u)" "4096 dvd uint (e_length u)" using assms(1-3) by (auto simp: limine_map_def)
  then obtain a b where "uint (e_base u) = 4096 * a" "uint (e_length u) = 4096 * b" by (auto elim!: dvdE)
  moreover from this have "a \<le> f" "f < a + b" using assms(6) by (auto simp: range_frames_def range_of_def)
  ultimately have "uint (e_base u) \<le> f * 4096" "f * 4096 + 4096 \<le> e_end u" by linarith+
  then show ?thesis using sep by linarith
qed

text \<open>When the last entry but one ends the memory, the map has the form that \<open>pmm.h\<close> asks for.\<close>

lemma limine_wf_memmap:
  assumes "limine_map es" "aligned_map mm" "availableMemArr mm = map range_of (filter usable es)" "uint (totalSize mm) = t"
    and "0 < t" "4096 dvd t" "\<forall>e\<in>set es. usable e \<longrightarrow> e_end e \<le> t"
  shows "wf_memmap mm"
  using assms by (auto simp: wf_memmap_def wf_range_def aligned_map_def list_all_iff range_of_def limine_map_def)

text \<open>
  C5: memory at start-up: for every memory map that the boot protocol allows (known types, no wrap-around, usable entries of whole pages that overlap no
  other entry), whose first or second usable entry has room for the bitmap and whose entries do not have the null pointer as their address in the higher half,
  \<open>kernel_main\<close> gets a memory map of exactly the usable entries, and the physical memory manager starts and puts its bitmap at the beginning of a usable entry. Free are
  exactly the frames of usable entries below the end of the last entry but one, without the frames of the bitmap and without frame 0; no frame that touches the
  kernel, the frame buffer or any other entry is free. That the last entry but one ends the memory is not promised by the protocol: the count of used
  frames is right if it does, at the end of a page; usable frames above it are lost, and their bits are cleared all the same, behind the bits of the manager.
\<close>

theorem boot_memory:
  assumes "limine_map es" "2 \<le> length es" "length es < 2 ^ 31"
    and "i < 2" "i < length (filter usable es)"
      "(e_end (es ! (length es - 2)) div 4096 + 63) div 64 * 8 \<le> uint (e_length (filter usable es ! i))"
    and "\<forall>e\<in>set es. e_base e + hhdm \<noteq> 0"
  shows "\<exists>m' mm r p. parse_memmap es m = Some (m', mm) \<and> availableMemArr mm = map range_of (filter usable es) \<and>
    pmm_init raw hhdm mm emptyPMM = Inr (r, p) \<and>
    (\<exists>e\<in>set es. usable e \<and> mr_start r = e_base e \<and> uint (mr_size r) \<le> uint (e_length e)) \<and> bitmap p = mr_start r + hhdm \<and>
    uint (mr_size r) = (frameCnt p + 63) div 64 * 8 \<and> frameCnt p = e_end (es ! (length es - 2)) div 4096 \<and>
    free_frames p = (\<Union>e\<in>set (filter usable es). range_frames (range_of e)) \<inter> {0..<frameCnt p} - range_frames r - {0} \<and>
    (\<forall>e\<in>set es. \<forall>f\<in>free_frames p. \<not> usable e \<longrightarrow> f * 4096 + 4096 \<le> uint (e_base e) \<or> e_end e \<le> f * 4096) \<and>
    (\<forall>e\<in>set es. \<forall>f\<in>range_frames (range_of e) - range_frames r - {0}. usable e \<and> frameCnt p \<le> f \<longrightarrow> \<not> bitmapIsSet p f) \<and>
    (let t = e_end (es ! (length es - 2)) in 0 < t \<and> 4096 dvd t \<and> (\<forall>e\<in>set es. usable e \<longrightarrow> e_end e \<le> t) \<longrightarrow> pmm_inv p)"
proof -
  let ?us = "filter usable es"
  define t where "t = e_end (es ! (length es - 2))"
  obtain m' mm where mm: "parse_memmap es m = Some (m', mm)" "aligned_map mm" "availableMemArr mm = map range_of ?us" "uint (totalSize mm) = t"
    unfolding t_def by (rule parse_memmap_spec [OF assms(1-3)])
  have len: "i < length (availableMemArr mm)" using assms(5) by (simp add: mm(3))
  have room: "bitmapBytes mm \<le> uint (mr_size (availableMemArr mm ! i))"
    using assms(5,6) by (simp add: bitmapBytes_def mm(3,4) range_of_def t_def)
  have high: "\<forall>a\<in>set (availableMemArr mm). mr_start a + hhdm \<noteq> 0" using assms(7) by (auto simp: mm(3) range_of_def)
  obtain r p a where p: "pmm_init raw hhdm mm emptyPMM = Inr (r, p)" "a \<in> set (availableMemArr mm)" "mr_start r = mr_start a"
      "uint (mr_size r) = bitmapBytes mm" "bitmapBytes mm \<le> uint (mr_size a)" "bitmap p = mr_start r + hhdm" "frameCnt p = t div 4096"
      "free_frames p = (\<Union>a\<in>set (availableMemArr mm). range_frames a) \<inter> {0..<frameCnt p} - range_frames r - {0}"
      "\<forall>f\<in>(\<Union>a\<in>set (availableMemArr mm). range_frames a) - range_frames r - {0}. \<not> bitmapIsSet p f"
    using pmm_init_bits [OF mm(2) assms(4) len room high, of raw] unfolding mm(4) by blast
  have "\<exists>e\<in>set es. usable e \<and> mr_start r = e_base e \<and> uint (mr_size r) \<le> uint (e_length e)"
    using p(2-5) by (auto simp: mm(3) range_of_def)
  moreover have "uint (mr_size r) = (frameCnt p + 63) div 64 * 8" using p(4,7) by (simp add: bitmapBytes_def mm(4))
  moreover have free: "free_frames p = (\<Union>e\<in>set ?us. range_frames (range_of e)) \<inter> {0..<frameCnt p} - range_frames r - {0}" using p(8) by (simp add: mm(3))
  moreover have "\<forall>e\<in>set es. \<forall>f\<in>free_frames p. \<not> usable e \<longrightarrow> f * 4096 + 4096 \<le> uint (e_base e) \<or> e_end e \<le> f * 4096"
    using usable_frame [OF assms(1)] by (auto simp: free)
  moreover have "\<forall>e\<in>set es. \<forall>f\<in>range_frames (range_of e) - range_frames r - {0}. usable e \<and> frameCnt p \<le> f \<longrightarrow> \<not> bitmapIsSet p f"
    using p(9) by (auto simp: mm(3))
  moreover have "pmm_inv p" if "0 < t" "4096 dvd t" "\<forall>e\<in>set es. usable e \<longrightarrow> e_end e \<le> t"
    using pmm_init_correct [OF limine_wf_memmap [OF assms(1) mm(2-4) that] assms(4) len room high, of raw] p(1) by auto
  ultimately show ?thesis unfolding t_def [symmetric] Let_def
    using mm(1,3) p(1,6,7) by (intro exI [of _ m'] exI [of _ mm] exI [of _ r] exI [of _ p]) blast
qed

text \<open>A memory map of half a megabyte with the kernel between two usable entries.\<close>

definition demo_memmap :: "MemEntry list" where
  "demo_memmap = [\<lparr>e_base = 0x1000, e_length = 0x1f000, e_type = 0\<rparr>, \<lparr>e_base = 0x20000, e_length = 0x10000, e_type = 6\<rparr>,
     \<lparr>e_base = 0x40000, e_length = 0x40000, e_type = 0\<rparr>, \<lparr>e_base = 0xfd000000, e_length = 0x3e8000, e_type = 7\<rparr>]"

theorem boot_memory_witness:
  "\<exists>m' mm r p. parse_memmap demo_memmap \<lparr>bus = (), interrupt_handlers = [], console = []\<rparr> = Some (m', mm) \<and>
    pmm_init (\<lambda>_ _. 0) 0xffff800000000000 mm emptyPMM = Inr (r, p) \<and> pmm_inv p \<and> 0x20 \<notin> free_frames p"
proof -
  let ?m = "\<lparr>bus = (), interrupt_handlers = [], console = []\<rparr>"
  have us: "filter usable demo_memmap = [\<lparr>e_base = 0x1000, e_length = 0x1f000, e_type = 0\<rparr>, \<lparr>e_base = 0x40000, e_length = 0x40000, e_type = 0\<rparr>]"
    by (simp add: demo_memmap_def)
  have l: "limine_map demo_memmap" by (simp add: limine_map_def demo_memmap_def less_Suc_eq all_conj_distrib)
  have n: "2 \<le> length demo_memmap" "length demo_memmap < 2 ^ 31" "0 < length (filter usable demo_memmap)"
    unfolding us by (simp_all add: demo_memmap_def)
  have b: "(e_end (demo_memmap ! (length demo_memmap - 2)) div 4096 + 63) div 64 * 8 \<le> uint (e_length (filter usable demo_memmap ! 0))"
    unfolding us by (simp add: demo_memmap_def)
  have h: "\<forall>e\<in>set demo_memmap. e_base e + 0xffff800000000000 \<noteq> 0" by (simp add: demo_memmap_def)
  have t: "let t = e_end (demo_memmap ! (length demo_memmap - 2)) in 0 < t \<and> 4096 dvd t \<and> (\<forall>e\<in>set demo_memmap. usable e \<longrightarrow> e_end e \<le> t)"
    by (simp add: demo_memmap_def)
  have k: "\<lparr>e_base = 0x20000, e_length = 0x10000, e_type = 6\<rparr> \<in> set demo_memmap" by (simp add: demo_memmap_def)
  obtain m' mm r p where p: "parse_memmap demo_memmap ?m = Some (m', mm)"
      "pmm_init (\<lambda>_ _. 0) 0xffff800000000000 mm emptyPMM = Inr (r, p)" "pmm_inv p"
      "\<forall>e\<in>set demo_memmap. \<forall>f\<in>free_frames p. \<not> usable e \<longrightarrow> f * 4096 + 4096 \<le> uint (e_base e) \<or> e_end e \<le> f * 4096"
    using boot_memory [OF l n(1,2) zero_less_numeral n(3) b h, of ?m "\<lambda>_ _. 0"] t unfolding Let_def by (elim exE conjE) blast
  have "0x20 \<notin> free_frames p"
  proof
    assume "0x20 \<in> free_frames p"
    from bspec [OF bspec [OF p(4) k] this] show False by simp
  qed
  then show ?thesis using p by blast
qed

end
