(* ===== verification/Smart_Ptr.thy ===== *)
theory Smart_Ptr
  imports Heap_Pages
begin

text \<open>
  The allocators and the owning pointer of \<open>cpp/allocator.hpp\<close> and \<open>cpp/unique-ptr.hpp\<close>. The concept \<open>Allocator\<close> is a record of
  three operations on a state, and a locale with what its clients rely on; \<open>Mallocator\<close> implements it over the kernel heap and the virtual
  memory manager. A scope with variables of type \<open>UniquePtr\<close> owns every block exactly once.
\<close>

section \<open>Allocators\<close>

record Blk =
  ptr :: u64
  bsize :: u64

definition null_blk :: Blk where
  "null_blk = \<lparr>ptr = 0, bsize = 0\<rparr>"

text \<open>Allocator objects have no members of their own beyond other allocators: all copies of one act on the same state \<open>'s\<close>.\<close>

record 's Allocator =
  allocate :: "u64 \<Rightarrow> 's \<Rightarrow> (Blk \<times> 's) option"
  deallocate :: "Blk \<Rightarrow> 's \<Rightarrow> 's option"
  owns :: "Blk \<Rightarrow> 's \<Rightarrow> bool"

definition MockAllocator :: "'s Allocator" where
  "MockAllocator = \<lparr>allocate = \<lambda>n s. Some (null_blk, s), deallocate = \<lambda>b s. Some s, owns = \<lambda>b s. False\<rparr>"

definition fallback_allocate :: "'s Allocator \<Rightarrow> 's Allocator \<Rightarrow> u64 \<Rightarrow> 's \<Rightarrow> (Blk \<times> 's) option" where
  "fallback_allocate primaryAlloc fallbackAlloc n s = do {
     (blk, s) \<leftarrow> allocate primaryAlloc n s;
     if ptr blk = 0 then allocate fallbackAlloc n s else Some (blk, s) }"

definition fallback_deallocate :: "'s Allocator \<Rightarrow> 's Allocator \<Rightarrow> Blk \<Rightarrow> 's \<Rightarrow> 's option" where
  "fallback_deallocate primaryAlloc fallbackAlloc blk s =
    (if owns primaryAlloc blk s then deallocate primaryAlloc blk s else deallocate fallbackAlloc blk s)"

definition FallbackAllocator :: "'s Allocator \<Rightarrow> 's Allocator \<Rightarrow> 's Allocator" where
  "FallbackAllocator primaryAlloc fallbackAlloc =
    \<lparr>allocate = fallback_allocate primaryAlloc fallbackAlloc, deallocate = fallback_deallocate primaryAlloc fallbackAlloc,
     owns = \<lambda>blk s. owns primaryAlloc blk s \<or> owns fallbackAlloc blk s\<rparr>"

definition mallocator_allocate :: "(int \<Rightarrow> 'v \<Rightarrow> (u64 \<times> 'v) option) \<Rightarrow> u64 \<Rightarrow> 'v \<times> FreeList \<Rightarrow> (Blk \<times> 'v \<times> FreeList) option" where
  "mallocator_allocate pages n s =
    (if n = 0 then Some (\<lparr>ptr = 0, bsize = 0\<rparr>, s)
     else do {
       (p, s) \<leftarrow> kmalloc pages n (fst s) (snd s);
       Some (\<lparr>ptr = p, bsize = n\<rparr>, s) })"

definition mallocator_deallocate :: "Blk \<Rightarrow> 'v \<times> FreeList \<Rightarrow> ('v \<times> FreeList) option" where
  "mallocator_deallocate blk s = (if ptr blk \<noteq> 0 then map_option (Pair (fst s)) (kfree (ptr blk) (snd s)) else Some s)"

definition Mallocator :: "(int \<Rightarrow> 'v \<Rightarrow> (u64 \<times> 'v) option) \<Rightarrow> ('v \<times> FreeList) Allocator" where
  "Mallocator pages = \<lparr>allocate = mallocator_allocate pages, deallocate = mallocator_deallocate, owns = \<lambda>blk s. ptr blk \<noteq> 0\<rparr>"

section \<open>Owning pointers\<close>

text \<open>The template argument: its size and what its constructor and destructor do, given the address of the object.\<close>

record 's Elem =
  sizeofT :: u64
  ctor :: "u64 \<Rightarrow> 's \<Rightarrow> 's option"
  dtor :: "u64 \<Rightarrow> 's \<Rightarrow> 's option"

record UniquePtr =
  data :: Blk

definition up_new :: UniquePtr where
  "up_new = \<lparr>data = null_blk\<rparr>"

definition up_of :: "'s Elem \<Rightarrow> u64 \<Rightarrow> UniquePtr" where
  "up_of T p = \<lparr>data = \<lparr>ptr = p, bsize = sizeofT T\<rparr>\<rparr>"

definition up_release :: "UniquePtr \<Rightarrow> u64 \<times> UniquePtr" where
  "up_release u = (ptr (data u), u\<lparr>data := (data u)\<lparr>ptr := 0\<rparr>\<rparr>)"

definition up_reset :: "'s Allocator \<Rightarrow> 's Elem \<Rightarrow> u64 \<Rightarrow> UniquePtr \<Rightarrow> 's \<Rightarrow> (UniquePtr \<times> 's) option" where
  "up_reset A T newPtr u s =
    (let oldPtr = ptr (data u); u = u\<lparr>data := (data u)\<lparr>ptr := newPtr\<rparr>\<rparr> in
     if oldPtr \<noteq> 0 then do {
       s \<leftarrow> dtor T oldPtr s;
       s \<leftarrow> deallocate A \<lparr>ptr = oldPtr, bsize = sizeofT T\<rparr> s;
       Some (u, s) }
     else Some (u, s))"

text \<open>Moving out of \<open>rhs\<close>: the new pointer and what is left of \<open>rhs\<close>. The new object's size stays 0.\<close>

definition up_move :: "UniquePtr \<Rightarrow> UniquePtr \<times> UniquePtr" where
  "up_move rhs = (let (p, rhs) = up_release rhs in (\<lparr>data = \<lparr>ptr = p, bsize = 0\<rparr>\<rparr>, rhs))"

definition up_get :: "UniquePtr \<Rightarrow> u64" where
  "up_get u = ptr (data u)"

definition up_deref :: "UniquePtr \<Rightarrow> u64 option" where
  "up_deref u = (if ptr (data u) \<noteq> 0 then Some (up_get u) else None)"

definition makeUnique :: "'s Allocator \<Rightarrow> 's Elem \<Rightarrow> 's \<Rightarrow> (UniquePtr \<times> 's) option" where
  "makeUnique A T s = do {
     (blk, s) \<leftarrow> allocate A (sizeofT T) s;
     if ptr blk = 0 then None else do {
       s \<leftarrow> ctor T (ptr blk) s;
       Some (up_of T (ptr blk), s) } }"

text \<open>The specialisation for arrays. Its \<open>reset\<close> calls the destructor of the first element once for every element.\<close>

fun repeat_dtor :: "'s Elem \<Rightarrow> nat \<Rightarrow> u64 \<Rightarrow> 's \<Rightarrow> 's option" where
  "repeat_dtor T 0 p s = Some s"
| "repeat_dtor T (Suc n) p s = do { s \<leftarrow> dtor T p s; repeat_dtor T n p s }"

definition array_len :: "'s Elem \<Rightarrow> Blk \<Rightarrow> int" where
  "array_len T blk = sint (ucast (bsize blk div sizeofT T) :: u32)"

definition ua_release :: "UniquePtr \<Rightarrow> Blk \<times> UniquePtr" where
  "ua_release u = (data u, u\<lparr>data := null_blk\<rparr>)"

definition ua_reset :: "'s Allocator \<Rightarrow> 's Elem \<Rightarrow> Blk \<Rightarrow> UniquePtr \<Rightarrow> 's \<Rightarrow> (UniquePtr \<times> 's) option" where
  "ua_reset A T newData u s =
    (let oldData = data u; u = u\<lparr>data := newData\<rparr> in
     if ptr oldData \<noteq> 0 then do {
       s \<leftarrow> repeat_dtor T (nat (array_len T oldData)) (ptr oldData) s;
       s \<leftarrow> deallocate A oldData s;
       Some (u, s) }
     else Some (u, s))"

definition ua_move :: "UniquePtr \<Rightarrow> UniquePtr \<times> UniquePtr" where
  "ua_move rhs = (let (blk, rhs) = ua_release rhs in (\<lparr>data = blk\<rparr>, rhs))"

definition ua_index :: "'s Elem \<Rightarrow> UniquePtr \<Rightarrow> u64 \<Rightarrow> u64" where
  "ua_index T u i = ptr (data u) + i * sizeofT T"

fun construct :: "'s Elem \<Rightarrow> u64 \<Rightarrow> nat \<Rightarrow> nat \<Rightarrow> 's \<Rightarrow> 's option" where
  "construct T p i 0 s = Some s"
| "construct T p i (Suc n) s = do { s \<leftarrow> ctor T (p + of_nat i * sizeofT T) s; construct T p (Suc i) n s }"

definition makeUniqueArray :: "'s Allocator \<Rightarrow> 's Elem \<Rightarrow> u64 \<Rightarrow> 's \<Rightarrow> (UniquePtr \<times> 's) option" where
  "makeUniqueArray A T cnt s = do {
     (blk, s) \<leftarrow> allocate A (sizeofT T * cnt) s;
     if ptr blk = 0 \<and> cnt \<noteq> 0 then None else do {
       s \<leftarrow> construct T (ptr blk) 0 (unat cnt) s;
       Some (\<lparr>data = blk\<rparr>, s) } }"

section \<open>The contract of an allocator\<close>

definition blk_bytes :: "Blk \<Rightarrow> nat set" where
  "blk_bytes b = {unat (ptr b)..<unat (ptr b) + unat (bsize b)}"

definition inside :: "'s Elem \<Rightarrow> u64 \<Rightarrow> Blk \<Rightarrow> bool" where
  "inside T p b \<longleftrightarrow> unat (ptr b) \<le> unat p \<and> unat p + unat (sizeofT T) \<le> unat (ptr b) + unat (bsize b)"

text \<open>What a pointer relies on of its elements: constructor and destructor end and leave the ownership of blocks alone when the object is
  inside an owned block. The destructor may run more than once, as it does for arrays.\<close>

definition elem_ok :: "('s \<Rightarrow> Blk multiset \<Rightarrow> bool) \<Rightarrow> 's Elem \<Rightarrow> bool" where
  "elem_ok holds T \<longleftrightarrow> 0 < sizeofT T \<and> (\<forall>s b L p. holds s (add_mset b L) \<longrightarrow> inside T p b \<longrightarrow>
     (\<exists>s'. ctor T p s = Some s' \<and> holds s' (add_mset b L)) \<and> (\<exists>s'. dtor T p s = Some s' \<and> holds s' (add_mset b L)))"

text \<open>\<open>holds s L\<close>: the blocks \<open>L\<close> are the ones handed out and not yet given back.\<close>

locale block_allocator =
  fixes A :: "'s Allocator" and holds :: "'s \<Rightarrow> Blk multiset \<Rightarrow> bool" and can :: "u64 \<Rightarrow> 's \<Rightarrow> bool"
  assumes allocate_zero: "allocate A 0 s = Some (null_blk, s)"
    and allocate_fresh: "holds s L \<Longrightarrow> can n s \<Longrightarrow> 0 < n \<Longrightarrow>
      \<exists>b s'. allocate A n s = Some (b, s') \<and> ptr b \<noteq> 0 \<and> bsize b = n \<and> holds s' (add_mset b L)"
    and deallocate_block: "holds s (add_mset b L) \<Longrightarrow> \<exists>s'. deallocate A b s = Some s' \<and> holds s' L"
    and owns_block: "holds s (add_mset b L) \<Longrightarrow> owns A b s"
    and holds_range: "holds s (add_mset b L) \<Longrightarrow> unat (ptr b) + unat (bsize b) < 2 ^ 64"
    and holds_disjoint: "holds s (add_mset b (add_mset c L)) \<Longrightarrow> blk_bytes b \<inter> blk_bytes c = {}"

section \<open>Variables in a scope\<close>

datatype Var = Single UniquePtr | Many UniquePtr

fun same_kind :: "Var \<Rightarrow> Var \<Rightarrow> bool" where
  "same_kind (Single u) (Single w) = True"
| "same_kind (Many u) (Many w) = True"
| "same_kind _ _ = False"

fun var_ptr :: "Var \<Rightarrow> UniquePtr" where
  "var_ptr (Single u) = u"
| "var_ptr (Many u) = u"

text \<open>The block a variable is responsible for: a single object has the size of its type, whatever the member \<open>size\<close> says.\<close>

fun var_blk :: "'s Elem \<Rightarrow> Var \<Rightarrow> Blk" where
  "var_blk T (Single u) = \<lparr>ptr = ptr (data u), bsize = sizeofT T\<rparr>"
| "var_blk T (Many u) = data u"

definition owned_blk :: "Blk \<Rightarrow> Blk multiset" where
  "owned_blk b = (if ptr b = 0 then {#} else {#b#})"

definition owned_vars :: "'s Elem \<Rightarrow> Var list \<Rightarrow> Blk multiset" where
  "owned_vars T vs = (\<Sum>v\<leftarrow>vs. owned_blk (var_blk T v))"

fun var_release :: "'s Elem \<Rightarrow> Var \<Rightarrow> Blk \<times> Var" where
  "var_release T (Single u) = (let (p, u) = up_release u in (\<lparr>ptr = p, bsize = sizeofT T\<rparr>, Single u))"
| "var_release T (Many u) = (let (b, u) = ua_release u in (b, Many u))"

fun var_reset :: "'s Allocator \<Rightarrow> 's Elem \<Rightarrow> Blk \<Rightarrow> Var \<Rightarrow> 's \<Rightarrow> (Var \<times> 's) option" where
  "var_reset A T b (Single u) s = map_option (apfst Single) (up_reset A T (ptr b) u s)"
| "var_reset A T b (Many u) s = map_option (apfst Many) (ua_reset A T b u s)"

fun var_move :: "Var \<Rightarrow> Var \<times> Var" where
  "var_move (Single u) = map_prod Single Single (up_move u)"
| "var_move (Many u) = map_prod Many Many (ua_move u)"

text \<open>\<open>vs[i] = move(vs[j])\<close>, also for \<open>i = j\<close>, and the destructor of a variable.\<close>

definition move_assign :: "'s Allocator \<Rightarrow> 's Elem \<Rightarrow> nat \<Rightarrow> nat \<Rightarrow> Var list \<Rightarrow> 's \<Rightarrow> (Var list \<times> 's) option" where
  "move_assign A T i j vs s =
    (let (b, w) = var_release T (vs ! j); vs = vs[j := w] in do {
       (v, s) \<leftarrow> var_reset A T b (vs ! i) s;
       Some (vs[i := v], s) })"

definition destroy :: "'s Allocator \<Rightarrow> 's Elem \<Rightarrow> Var \<Rightarrow> 's \<Rightarrow> 's option" where
  "destroy A T v s = map_option snd (var_reset A T null_blk v s)"

text \<open>The end of the scope destroys the variables, the last one first.\<close>

fun destroy_all :: "'s Allocator \<Rightarrow> 's Elem \<Rightarrow> Var list \<Rightarrow> 's \<Rightarrow> 's option" where
  "destroy_all A T [] s = Some s"
| "destroy_all A T (v # vs) s = do { s \<leftarrow> destroy_all A T vs s; destroy A T v s }"

record 's Scope =
  vars :: "Var list"
  raws :: "Blk multiset"
  world :: 's

text \<open>
  The statements of a scope. \<open>raws\<close> are the blocks that \<open>release\<close> has given to plain pointers, of which \<open>reset\<close> may take one back.
  Allocations happen only when the allocator can serve them (\<open>can\<close>).
\<close>

inductive scope_step :: "'s Allocator \<Rightarrow> 's Elem \<Rightarrow> (u64 \<Rightarrow> 's \<Rightarrow> bool) \<Rightarrow> 's Scope \<Rightarrow> 's Scope \<Rightarrow> bool"
  for A :: "'s Allocator" and T :: "'s Elem" and can :: "u64 \<Rightarrow> 's \<Rightarrow> bool" where
  decl: "v = Single up_new \<or> v = Many up_new \<Longrightarrow> scope_step A T can sc (sc\<lparr>vars := vars sc @ [v]\<rparr>)"
| make: "can (sizeofT T) (world sc) \<Longrightarrow> makeUnique A T (world sc) = Some (u, s) \<Longrightarrow>
    scope_step A T can sc (sc\<lparr>vars := vars sc @ [Single u], world := s\<rparr>)"
| make_array: "can (sizeofT T * cnt) (world sc) \<Longrightarrow> unat (sizeofT T) * unat cnt < 2 ^ 64 \<Longrightarrow>
    makeUniqueArray A T cnt (world sc) = Some (u, s) \<Longrightarrow> scope_step A T can sc (sc\<lparr>vars := vars sc @ [Many u], world := s\<rparr>)"
| move_new: "i < length (vars sc) \<Longrightarrow> var_move (vars sc ! i) = (v, w) \<Longrightarrow>
    scope_step A T can sc (sc\<lparr>vars := (vars sc)[i := w] @ [v]\<rparr>)"
| assign: "i < length (vars sc) \<Longrightarrow> j < length (vars sc) \<Longrightarrow> same_kind (vars sc ! i) (vars sc ! j) \<Longrightarrow>
    move_assign A T i j (vars sc) (world sc) = Some (vs, s) \<Longrightarrow> scope_step A T can sc (sc\<lparr>vars := vs, world := s\<rparr>)"
| release: "i < length (vars sc) \<Longrightarrow> var_release T (vars sc ! i) = (b, w) \<Longrightarrow>
    scope_step A T can sc (sc\<lparr>vars := (vars sc)[i := w], raws := raws sc + owned_blk b\<rparr>)"
| reset: "i < length (vars sc) \<Longrightarrow> ptr b = 0 \<or> b \<in># raws sc \<Longrightarrow> bsize b = sizeofT T \<or> (\<exists>u. vars sc ! i = Many u) \<Longrightarrow>
    var_reset A T b (vars sc ! i) (world sc) = Some (v, s) \<Longrightarrow>
    scope_step A T can sc (sc\<lparr>vars := (vars sc)[i := v], raws := raws sc - owned_blk b, world := s\<rparr>)"
| leave: "vars sc = vs @ [v] \<Longrightarrow> destroy A T v (world sc) = Some s \<Longrightarrow> scope_step A T can sc (sc\<lparr>vars := vs, world := s\<rparr>)"

lemma owned_simps [simp]:
  "owned_vars T [] = {#}" "owned_vars T (v # vs) = owned_blk (var_blk T v) + owned_vars T vs" "owned_vars T (vs @ ws) = owned_vars T vs + owned_vars T ws"
  by (simp_all add: owned_vars_def)

lemma owned_split:
  assumes "i < length vs"
  obtains R where "owned_vars T vs = owned_blk (var_blk T (vs ! i)) + R" "\<And>v. owned_vars T (vs[i := v]) = owned_blk (var_blk T v) + R"
proof
  show "owned_vars T vs = owned_blk (var_blk T (vs ! i)) + (owned_vars T (take i vs) + owned_vars T (drop (Suc i) vs))"
    using id_take_nth_drop [OF assms] by (metis owned_simps(2,3) add.left_commute)
  show "owned_vars T (vs[i := v]) = owned_blk (var_blk T v) + (owned_vars T (take i vs) + owned_vars T (drop (Suc i) vs))" for v
    using assms by (simp add: upd_conv_take_nth_drop)
qed

lemma owned_null [simp]: "ptr b = 0 \<Longrightarrow> owned_blk b = {#}"
  by (simp add: owned_blk_def)

lemma var_release_spec:
  "var_release T v = (b, w) \<Longrightarrow> b = var_blk T v \<and> owned_blk (var_blk T w) = {#} \<and> same_kind v w \<and> (bsize b = sizeofT T \<or> (\<exists>u. v = Many u))"
  by (cases v) (auto simp: up_release_def ua_release_def null_blk_def)

lemma var_move_spec:
  "var_move v = (w, v') \<Longrightarrow> var_blk T w = var_blk T v \<and> owned_blk (var_blk T v') = {#}"
  by (cases v) (auto simp: up_move_def ua_move_def up_release_def ua_release_def null_blk_def)

section \<open>Every block has one owner\<close>

lemma same_kind_trans: "same_kind u v \<Longrightarrow> same_kind v w \<Longrightarrow> same_kind u w"
  by (cases u; cases v; cases w) auto

lemma same_kind_refl [simp]: "same_kind v v"
  by (cases v) auto

lemma array_first_inside:
  assumes "0 < array_len T b" "0 < sizeofT T"
  shows "inside T (ptr b) b"
proof -
  have "bsize b div sizeofT T \<noteq> 0" using assms(1) by (auto simp: array_len_def)
  then have "unat (sizeofT T) \<le> unat (bsize b)"
    by (metis div_less leI unat_0 unat_div word_unat_eq_iff)
  then show ?thesis by (simp add: inside_def)
qed

context block_allocator
begin

lemma repeat_dtor_ok:
  assumes "elem_ok holds T" "n = 0 \<or> inside T p b" "holds s (add_mset b L)"
  shows "\<exists>s'. repeat_dtor T n p s = Some s' \<and> holds s' (add_mset b L)"
  using assms(2,3)
proof (induction n arbitrary: s)
  case (Suc n)
  then obtain s1 where s1: "dtor T p s = Some s1" "holds s1 (add_mset b L)" using assms(1) unfolding elem_ok_def by blast
  then show ?case using Suc.IH [OF _ s1(2)] Suc.prems(1) by auto
qed simp

lemma construct_ok:
  assumes "elem_ok holds T" "holds s (add_mset b L)" "bsize b = sizeofT T * of_nat m" "unat (sizeofT T) * m < 2 ^ 64" "i + n \<le> m"
  shows "\<exists>s'. construct T (ptr b) i n s = Some s' \<and> holds s' (add_mset b L)"
  using assms(2,5)
proof (induction n arbitrary: i s)
  case (Suc n)
  have scaled: "unat (sizeofT T * of_nat k) = unat (sizeofT T) * k" if "unat (sizeofT T) * k < 2 ^ 64" for k
    using that by (simp add: unat_word_ariths unat_of_nat mod_mult_right_eq)
  have size: "unat (bsize b) = unat (sizeofT T) * m" using scaled [OF assms(4)] by (simp add: assms(3))
  have le: "unat (sizeofT T) * Suc i \<le> unat (sizeofT T) * m" using Suc.prems(2) by (intro mult_le_mono2) simp
  have a: "unat (ptr b) + unat (sizeofT T) * m < 2 ^ 64" using holds_range [OF Suc.prems(1)] size by simp
  have "unat (of_nat i * sizeofT T) = unat (sizeofT T) * i"
    using scaled [of i] le a by (simp add: mult.commute)
  moreover from this have "unat (ptr b + of_nat i * sizeofT T) = unat (ptr b) + unat (sizeofT T) * i"
    using le a by (simp add: unat_word_ariths)
  ultimately have "inside T (ptr b + of_nat i * sizeofT T) b" using le by (simp add: inside_def size)
  then obtain s1 where "ctor T (ptr b + of_nat i * sizeofT T) s = Some s1" "holds s1 (add_mset b L)"
    using assms(1) Suc.prems(1) unfolding elem_ok_def by blast
  then show ?case using Suc.IH [of s1 "Suc i"] Suc.prems(2) by simp
qed simp

lemma var_reset_ok:
  assumes "elem_ok holds T" "holds s (owned_blk (var_blk T v) + L)" "bsize b = sizeofT T \<or> (\<exists>u. v = Many u)"
  shows "\<exists>v' s'. var_reset A T b v s = Some (v', s') \<and> owned_blk (var_blk T v') = owned_blk b \<and> holds s' L"
proof (cases v)
  case (Single u)
  show ?thesis
  proof (cases "ptr (data u) = 0")
    case True
    then show ?thesis using assms(2,3) Single by (auto simp: up_reset_def owned_blk_def)
  next
    case False
    let ?b = "\<lparr>ptr = ptr (data u), bsize = sizeofT T\<rparr>"
    have h: "holds s (add_mset ?b L)" "inside T (ptr (data u)) ?b" using assms(2) Single False by (simp_all add: owned_blk_def inside_def)
    obtain s1 where s1: "dtor T (ptr (data u)) s = Some s1" "holds s1 (add_mset ?b L)" using assms(1) h unfolding elem_ok_def by blast
    obtain s2 where "deallocate A ?b s1 = Some s2" "holds s2 L" using deallocate_block [OF s1(2)] by blast
    then show ?thesis using assms(3) Single False s1(1) by (auto simp: up_reset_def owned_blk_def)
  qed
next
  case (Many u)
  show ?thesis
  proof (cases "ptr (data u) = 0")
    case True
    then show ?thesis using assms(2) Many by (simp add: ua_reset_def)
  next
    case False
    let ?n = "nat (array_len T (data u))"
    have h: "holds s (add_mset (data u) L)" using assms(2) Many False by (simp add: owned_blk_def)
    have "?n = 0 \<or> inside T (ptr (data u)) (data u)" using array_first_inside [of T "data u"] assms(1)
      by (cases "0 < array_len T (data u)") (simp_all add: elem_ok_def)
    then obtain s1 where s1: "repeat_dtor T ?n (ptr (data u)) s = Some s1" "holds s1 (add_mset (data u) L)"
      using repeat_dtor_ok [OF assms(1) _ h] by blast
    obtain s2 where "deallocate A (data u) s1 = Some s2" "holds s2 L" using deallocate_block [OF s1(2)] by blast
    then show ?thesis using Many False s1(1) by (simp add: ua_reset_def)
  qed
qed

lemma makeUnique_ok:
  assumes "elem_ok holds T" "holds s L" "can (sizeofT T) s"
  shows "\<exists>u s'. makeUnique A T s = Some (u, s') \<and> holds s' (owned_blk (var_blk T (Single u)) + L) \<and> ptr (data u) \<noteq> 0"
proof -
  obtain b s1 where b: "allocate A (sizeofT T) s = Some (b, s1)" "ptr b \<noteq> 0" "bsize b = sizeofT T" "holds s1 (add_mset b L)"
    using allocate_fresh [OF assms(2,3)] assms(1) by (auto simp: elem_ok_def)
  have "inside T (ptr b) b" using b(3) by (simp add: inside_def)
  then obtain s2 where "ctor T (ptr b) s1 = Some s2" "holds s2 (add_mset b L)" using assms(1) b(4) unfolding elem_ok_def by blast
  moreover have "\<lparr>ptr = ptr b, bsize = sizeofT T\<rparr> = b" using b(3) by simp
  ultimately show ?thesis using b(1,2) by (simp add: makeUnique_def up_of_def owned_blk_def del: Blk.ext_inject)
qed

lemma makeUniqueArray_ok:
  assumes "elem_ok holds T" "holds s L" "can (sizeofT T * cnt) s" "unat (sizeofT T) * unat cnt < 2 ^ 64"
  shows "\<exists>u s'. makeUniqueArray A T cnt s = Some (u, s') \<and> holds s' (owned_blk (var_blk T (Many u)) + L)"
proof (cases "cnt = 0")
  case True
  then show ?thesis using assms(2) by (simp add: makeUniqueArray_def allocate_zero null_blk_def)
next
  case False
  have "unat (sizeofT T * cnt) = unat (sizeofT T) * unat cnt" using assms(4) by (simp add: unat_word_ariths)
  then have "0 < sizeofT T * cnt" using assms(1) False by (simp add: elem_ok_def word_less_nat_alt unat_gt_0)
  then obtain b s1 where b: "allocate A (sizeofT T * cnt) s = Some (b, s1)" "ptr b \<noteq> 0" "bsize b = sizeofT T * cnt" "holds s1 (add_mset b L)"
    using allocate_fresh [OF assms(2,3)] by blast
  obtain s2 where "construct T (ptr b) 0 (unat cnt) s1 = Some s2" "holds s2 (add_mset b L)"
    using construct_ok [OF assms(1) b(4), of "unat cnt" 0 "unat cnt"] b(3) assms(4) by auto
  then show ?thesis using b by (simp add: makeUniqueArray_def owned_blk_def)
qed

lemma move_assign_ok:
  assumes "elem_ok holds T" "holds s (owned_vars T vs + L)" "i < length vs" "j < length vs" "same_kind (vs ! i) (vs ! j)"
  shows "\<exists>vs' s'. move_assign A T i j vs s = Some (vs', s') \<and> holds s' (owned_vars T vs' + L)"
proof -
  obtain b w where r: "var_release T (vs ! j) = (b, w)" by fastforce
  note rs = var_release_spec [OF r]
  obtain R where R: "owned_vars T vs = owned_blk b + R" "owned_vars T (vs[j := w]) = R"
    using owned_split [OF assms(4), of T] rs by (metis add_0)
  have len: "i < length (vs[j := w])" using assms(3) by simp
  obtain Q where Q: "owned_vars T (vs[j := w]) = owned_blk (var_blk T (vs[j := w] ! i)) + Q"
      "\<And>v. owned_vars T (vs[j := w, i := v]) = owned_blk (var_blk T v) + Q" using owned_split [OF len] by metis
  have "same_kind (vs[j := w] ! i) (vs ! j)" using assms(3-5) rs by (cases "i = j"; cases "vs ! j"; cases w) auto
  then have k: "bsize b = sizeofT T \<or> (\<exists>u. vs[j := w] ! i = Many u)" using rs by (cases "vs[j := w] ! i"; cases "vs ! j") auto
  have "holds s (owned_blk (var_blk T (vs[j := w] ! i)) + (Q + owned_blk b + L))"
    using assms(2) R Q(1) by (metis add.assoc add.commute)
  from var_reset_ok [OF assms(1) this k] obtain v' s' where v: "var_reset A T b (vs[j := w] ! i) s = Some (v', s')"
    "owned_blk (var_blk T v') = owned_blk b" "holds s' (Q + owned_blk b + L)" by blast
  have "owned_vars T (vs[j := w, i := v']) + L = Q + owned_blk b + L" by (simp only: Q(2) v(2) add.commute [of Q])
  then have "holds s' (owned_vars T (vs[j := w, i := v']) + L)" using v(3) by (simp only:)
  moreover have "move_assign A T i j vs s = Some (vs[j := w, i := v'], s')" using v(1) by (simp add: move_assign_def r)
  ultimately show ?thesis by blast
qed

end

definition scope_ok :: "('s \<Rightarrow> Blk multiset \<Rightarrow> bool) \<Rightarrow> 's Elem \<Rightarrow> 's Scope \<Rightarrow> bool" where
  "scope_ok holds T sc \<longleftrightarrow> holds (world sc) (owned_vars T (vars sc) + raws sc)"

lemma owned_blk_raw: "ptr b = 0 \<or> b \<in># R \<Longrightarrow> owned_blk b + (R - owned_blk b) = R"
  by (auto simp: owned_blk_def)

context block_allocator
begin

lemma destroy_ok:
  assumes "elem_ok holds T" "holds s (owned_blk (var_blk T v) + L)"
  shows "\<exists>s'. destroy A T v s = Some s' \<and> holds s' L"
proof (cases v)
  case (Single u)
  then have "destroy A T v s = map_option snd (var_reset A T \<lparr>ptr = 0, bsize = sizeofT T\<rparr> v s)" by (simp add: destroy_def null_blk_def)
  then show ?thesis using var_reset_ok [OF assms, of "\<lparr>ptr = 0, bsize = sizeofT T\<rparr>"] by auto
next
  case (Many u)
  then show ?thesis using var_reset_ok [OF assms, of null_blk] by (auto simp: destroy_def)
qed

lemma destroy_all_ok:
  assumes "elem_ok holds T" "holds s (owned_vars T vs + L)"
  shows "\<exists>s'. destroy_all A T vs s = Some s' \<and> holds s' L"
  using assms(2)
proof (induction vs arbitrary: L)
  case (Cons v vs)
  have "holds s (owned_vars T vs + (owned_blk (var_blk T v) + L))" using Cons.prems by (simp add: ac_simps)
  from Cons.IH [OF this] obtain s1 where "destroy_all A T vs s = Some s1" "holds s1 (owned_blk (var_blk T v) + L)" by blast
  then show ?case using destroy_ok [OF assms(1)] by auto
qed simp

lemma scope_step_ok:
  assumes "elem_ok holds T" "scope_step A T can sc sc'" "scope_ok holds T sc"
  shows "scope_ok holds T sc'"
  using assms(2,3)
proof (cases rule: scope_step.cases)
  case (decl v)
  then show ?thesis using assms(3) by (auto simp: scope_ok_def up_new_def null_blk_def)
next
  case (make u s)
  then show ?thesis using makeUnique_ok [OF assms(1) _ make(2)] assms(3) by (fastforce simp: scope_ok_def ac_simps)
next
  case (make_array cnt u s)
  then show ?thesis using makeUniqueArray_ok [OF assms(1) _ make_array(2,3)] assms(3) by (fastforce simp: scope_ok_def ac_simps)
next
  case (move_new i v w)
  obtain R where "owned_vars T (vars sc) = owned_blk (var_blk T (vars sc ! i)) + R" "\<And>v. owned_vars T ((vars sc)[i := v]) = owned_blk (var_blk T v) + R"
    using owned_split [OF move_new(2)] by metis
  then show ?thesis using assms(3) var_move_spec [OF move_new(3), of T] by (simp add: move_new(1) scope_ok_def ac_simps)
next
  case (assign i j vs s)
  then show ?thesis using move_assign_ok [OF assms(1) _ assign(2-4)] assms(3) by (fastforce simp: scope_ok_def)
next
  case (release i b w)
  obtain R where "owned_vars T (vars sc) = owned_blk (var_blk T (vars sc ! i)) + R" "\<And>v. owned_vars T ((vars sc)[i := v]) = owned_blk (var_blk T v) + R"
    using owned_split [OF release(2)] by metis
  then show ?thesis using assms(3) var_release_spec [OF release(3)] by (simp add: release(1) scope_ok_def ac_simps)
next
  case (reset i b v s)
  obtain R where R: "owned_vars T (vars sc) = owned_blk (var_blk T (vars sc ! i)) + R" "\<And>v. owned_vars T ((vars sc)[i := v]) = owned_blk (var_blk T v) + R"
    using owned_split [OF reset(2)] by metis
  have "holds (world sc) (owned_blk (var_blk T (vars sc ! i)) + (R + raws sc))" using assms(3) R(1) by (simp add: scope_ok_def ac_simps)
  from var_reset_ok [OF assms(1) this reset(4)] have ob: "owned_blk (var_blk T v) = owned_blk b" "holds s (R + raws sc)" using reset(5) by auto
  have "owned_blk b + R + (raws sc - owned_blk b) = R + raws sc" using owned_blk_raw [OF reset(3)] by (metis add.assoc add.commute)
  then have "holds s (owned_blk b + R + (raws sc - owned_blk b))" using ob(2) by (simp only:)
  then show ?thesis by (simp add: reset(1) scope_ok_def R(2) ob(1))
next
  case (leave vs v s)
  have "holds (world sc) (owned_blk (var_blk T v) + (owned_vars T vs + raws sc))" using assms(3) leave(2) by (simp add: scope_ok_def ac_simps)
  from destroy_ok [OF assms(1) this] show ?thesis using leave by (auto simp: scope_ok_def)
qed

lemma scope_run_ok:
  assumes "(scope_step A T can)\<^sup>*\<^sup>* sc sc'" "elem_ok holds T" "scope_ok holds T sc"
  shows "scope_ok holds T sc'"
  using assms(1,3) by (induction rule: rtranclp_induct) (auto intro: scope_step_ok [OF assms(2)])

lemma scope_disjoint:
  assumes "scope_ok holds T sc" "i < j" "j < length (vars sc)" "b \<in># owned_blk (var_blk T (vars sc ! i))" "c \<in># owned_blk (var_blk T (vars sc ! j))"
  shows "blk_bytes b \<inter> blk_bytes c = {}"
proof -
  have s: "vars sc = take i (vars sc) @ vars sc ! i # drop (Suc i) (vars sc)" using assms(2,3) by (intro id_take_nth_drop) simp
  have j: "c \<in># owned_vars T (drop (Suc i) (vars sc))"
  proof -
    have "vars sc ! j \<in> set (drop (Suc i) (vars sc))"
      using assms(2,3) nth_mem [of "j - Suc i" "drop (Suc i) (vars sc)"] by simp
    then obtain xs ys where "drop (Suc i) (vars sc) = xs @ vars sc ! j # ys" by (meson split_list)
    then show ?thesis using assms(5) by simp
  qed
  have "owned_blk (var_blk T (vars sc ! i)) = {#b#}" using assms(4) by (auto simp: owned_blk_def split: if_splits)
  then have "owned_vars T (vars sc) = add_mset b (owned_vars T (take i (vars sc)) + owned_vars T (drop (Suc i) (vars sc)))"
    by (subst s) simp
  moreover obtain R where "owned_vars T (drop (Suc i) (vars sc)) = add_mset c R" using j by (meson multi_member_split)
  ultimately have "holds (world sc) (add_mset b (add_mset c (owned_vars T (take i (vars sc)) + R + raws sc)))"
    using assms(1) by (simp add: scope_ok_def)
  then show ?thesis by (rule holds_disjoint)
qed

end

section \<open>The kernel's allocator\<close>

text \<open>The blocks of the allocator lie in the live blocks of the heap, which lie in mapped pages.\<close>

definition lies_in :: "Blk \<Rightarrow> block \<Rightarrow> bool" where
  "lies_in b c \<longleftrightarrow> unat (ptr b) = fst c + 16 \<and> unat (bsize b) \<le> snd c"

definition heap_holds :: "('v \<Rightarrow> nat set) \<Rightarrow> ('v \<Rightarrow> bool) \<Rightarrow> 'v \<times> FreeList \<Rightarrow> Blk multiset \<Rightarrow> bool" where
  "heap_holds mapped iv s L \<longleftrightarrow> iv (fst s) \<and> (\<exists>bs Ls ls. mset Ls = L \<and> list_all2 lies_in Ls ls \<and> heap_ok (snd s) bs ls \<and>
     bytes_of (bs @ ls) \<subseteq> mapped (fst s))"

definition heap_can :: "(nat \<Rightarrow> 'v \<Rightarrow> bool) \<Rightarrow> u64 \<Rightarrow> 'v \<times> FreeList \<Rightarrow> bool" where
  "heap_can ready n s \<longleftrightarrow> unat n + 4111 < 2 ^ 43 \<and> ready (nat (reqPages n)) (fst s)"

lemma heap_ok_rotate: "heap_ok h bs (xs @ c # ys) \<Longrightarrow> heap_ok h bs (c # xs @ ys)"
  unfolding heap_ok_def by (auto simp: sorted_wrt_append)

lemma heap_holds_split:
  assumes "heap_holds mapped iv s (add_mset b L)"
  obtains bs c Ls ls where "iv (fst s)" "mset Ls = L" "lies_in b c" "list_all2 lies_in Ls ls" "heap_ok (snd s) bs (c # ls)"
    "bytes_of (bs @ c # ls) \<subseteq> mapped (fst s)"
proof -
  obtain bs Ls ls where h: "mset Ls = add_mset b L" "list_all2 lies_in Ls ls" "heap_ok (snd s) bs ls" "bytes_of (bs @ ls) \<subseteq> mapped (fst s)"
    using assms by (auto simp: heap_holds_def)
  have "b \<in> set Ls" using h(1) by (metis set_mset_mset union_single_eq_member)
  then obtain As Bs where e: "Ls = As @ b # Bs" by (meson split_list)
  then obtain as c bs' where l: "ls = as @ c # bs'" "list_all2 lies_in As as" "lies_in b c" "list_all2 lies_in Bs bs'"
    using h(2) by (auto simp: list_all2_append1 list_all2_Cons1)
  show thesis
  proof
    show "mset (As @ Bs) = L" using h(1) e by simp
    show "list_all2 lies_in (As @ Bs) (as @ bs')" using l by (simp add: list_all2_appendI)
    show "heap_ok (snd s) bs (c # as @ bs')" using heap_ok_rotate h(3) l(1) by simp
    show "bytes_of (bs @ c # as @ bs') \<subseteq> mapped (fst s)" using h(4) l(1) by (auto simp: bytes_of_def)
  qed (use assms l in \<open>simp_all add: heap_holds_def\<close>)
qed

context page_source
begin

lemma kmalloc_ready:
  assumes ok: "heap_ok h bs ls" and n: "unat sz + 4111 < 2 ^ 43"
    and m: "bytes_of (bs @ ls) \<subseteq> mapped s" and i: "inv s" "ready (nat (reqPages sz)) s"
  shows "\<exists>b p s' h' bs'. kmalloc pages sz s h = Some (p, s', h') \<and> unat p = fst b + 16 \<and> unat sz \<le> snd b \<and>
    heap_ok h' bs' (b # ls) \<and> inv s' \<and> bytes_of (bs' @ b # ls) \<subseteq> mapped s'"
proof (cases "best_fit (unat sz) None bs")
  case None
  then have "\<forall>c\<in>set bs. snd c < unat sz" by (simp add: best_fit_none)
  moreover have "bytes_of (bs' @ b # ls) = bytes_of (b # bs' @ ls)" for bs' b by (auto simp: bytes_of_def)
  ultimately show ?thesis using kmalloc_from_pages [OF ok _ n m i] by (simp only:) blast
next
  case (Some b)
  obtain p h' where h: "heap_alloc pages sz s h = Some (p, s, h')" "unat p = fst b + 16"
    "heap_ok h' (replace_block b (rest_of (unat sz) b) bs) (taken_of (unat sz) b # ls)"
    using heap_alloc_fit [OF ok Some, of pages s] by blast
  have b: "b \<in> set bs" "unat sz \<le> snd b" using best_fit_sound [OF Some] by auto
  let ?bs = "replace_block b (rest_of (unat sz) b) bs" and ?b = "taken_of (unat sz) b"
  have "separated bs" using ok by (simp add: heap_ok_def heap_inv_def)
  from bytes_replace [OF this b] have "bytes_of (?bs @ ?b # ls) = bytes_of (bs @ ls)" by (auto simp: bytes_of_def)
  then show ?thesis using h b(2) m i(1)
    by (intro exI [of _ ?b] exI [of _ p] exI [of _ s] exI [of _ h'] exI [of _ ?bs]) (auto simp: kmalloc_def taken_of_def)
qed

lemma mallocator_fresh:
  assumes "heap_holds mapped inv s L" "heap_can ready n s" "0 < n"
  shows "\<exists>b s'. mallocator_allocate pages n s = Some (b, s') \<and> ptr b \<noteq> 0 \<and> bsize b = n \<and> heap_holds mapped inv s' (add_mset b L)"
proof -
  obtain bs Ls ls where h: "inv (fst s)" "mset Ls = L" "list_all2 lies_in Ls ls" "heap_ok (snd s) bs ls" "bytes_of (bs @ ls) \<subseteq> mapped (fst s)"
    using assms(1) by (auto simp: heap_holds_def)
  have r: "unat n + 4111 < 2 ^ 43" "ready (nat (reqPages n)) (fst s)" using assms(2) by (simp_all add: heap_can_def)
  obtain b p v' h' bs' where k: "kmalloc pages n (fst s) (snd s) = Some (p, v', h')" "unat p = fst b + 16" "unat n \<le> snd b"
    "heap_ok h' bs' (b # ls)" "inv v'" "bytes_of (bs' @ b # ls) \<subseteq> mapped v'"
    using kmalloc_ready [OF h(4) r(1) h(5,1) r(2)] by blast
  let ?b = "\<lparr>ptr = p, bsize = n\<rparr>"
  have "mset (?b # Ls) = add_mset ?b L" "list_all2 lies_in (?b # Ls) (b # ls)" using h(2,3) k(2,3) by (simp_all add: lies_in_def)
  then have "heap_holds mapped inv (v', h') (add_mset ?b L)"
    unfolding heap_holds_def fst_conv snd_conv using k(4-6) by blast
  moreover have "p \<noteq> 0" using k(2) by auto
  ultimately show ?thesis using k(1) assms(3) by (auto simp: mallocator_allocate_def)
qed

lemma mallocator_back:
  assumes "heap_holds mapped inv s (add_mset b L)"
  shows "\<exists>s'. mallocator_deallocate b s = Some s' \<and> heap_holds mapped inv s' L"
proof -
  obtain bs c Ls ls where h: "inv (fst s)" "mset Ls = L" "lies_in b c" "list_all2 lies_in Ls ls" "heap_ok (snd s) bs (c # ls)"
    "bytes_of (bs @ c # ls) \<subseteq> mapped (fst s)" using heap_holds_split [OF assms] by metis
  have p: "unat (ptr b) = fst c + 16" "ptr b \<noteq> 0" using h(3) by (auto simp: lies_in_def)
  obtain h' where k: "kfree (ptr b) (snd s) = Some h'" "heap_ok h' (insert_block c bs) ls"
    using heap_free_spec [OF h(5) p(1)] by (auto simp: kfree_def)
  have "bytes_of (insert_block c bs @ ls) = bytes_of (bs @ c # ls)"
    using bytes_insert_block [of c bs] by (auto simp: bytes_of_def)
  then have "bytes_of (insert_block c bs @ ls) \<subseteq> mapped (fst s)" using h(6) by simp
  then have "heap_holds mapped inv (fst s, h') L" unfolding heap_holds_def fst_conv snd_conv using h(1,2,4) k(2) by blast
  then show ?thesis using k(1) p(2) by (simp add: mallocator_deallocate_def)
qed

lemma mallocator_range:
  assumes "heap_holds mapped inv s (add_mset b L)"
  shows "unat (ptr b) + unat (bsize b) < 2 ^ 64" "ptr b \<noteq> 0"
proof -
  obtain bs c Ls ls where h: "lies_in b c" "heap_ok (snd s) bs (c # ls)" using heap_holds_split [OF assms] by metis
  then have "bend c < 2 ^ 64" by (simp add: heap_ok_def live_def)
  then show "unat (ptr b) + unat (bsize b) < 2 ^ 64" using h(1) by (simp add: lies_in_def bend_def)
  show "ptr b \<noteq> 0" using h(1) by (auto simp: lies_in_def)
qed

lemma lies_in_span: "lies_in b c \<Longrightarrow> blk_bytes b \<subseteq> span c"
  by (auto simp: lies_in_def blk_bytes_def bend_def)

lemma mallocator_disjoint:
  assumes "heap_holds mapped inv s (add_mset b (add_mset d L))"
  shows "blk_bytes b \<inter> blk_bytes d = {}"
proof -
  obtain bs c Ls ls where h: "mset Ls = add_mset d L" "lies_in b c" "list_all2 lies_in Ls ls" "heap_ok (snd s) bs (c # ls)"
    using heap_holds_split [OF assms] by metis
  have "d \<in> set Ls" using h(1) by (metis set_mset_mset union_single_eq_member)
  then obtain e where e: "e \<in> set ls" "lies_in d e" using h(3) by (metis in_set_conv_nth list_all2_conv_all_nth)
  then have "span c \<inter> span e = {}" using h(4) by (simp add: heap_ok_def)
  then show ?thesis using lies_in_span [OF h(2)] lies_in_span [OF e(2)] by blast
qed

end

lemma Mallocator_simps [simp]:
  "allocate (Mallocator pages) = mallocator_allocate pages" "deallocate (Mallocator pages) = mallocator_deallocate"
  "owns (Mallocator pages) = (\<lambda>blk s. ptr blk \<noteq> 0)"
  by (simp_all add: Mallocator_def)

lemma mallocator_zero: "mallocator_allocate pages 0 s = Some (null_blk, s)"
  by (simp add: mallocator_allocate_def null_blk_def)

interpretation ml: block_allocator "Mallocator (allocNPages True)" "heap_holds mapped_bytes vmm_inv" "heap_can vmm_ready"
  by (unfold_locales, unfold Mallocator_simps)
    (rule mallocator_zero | (rule vm.mallocator_fresh vm.mallocator_back vm.mallocator_range vm.mallocator_disjoint; assumption))+

text \<open>An allocator behind a primary one that never has memory keeps its contract.\<close>

lemma fallback_mock:
  "allocate (FallbackAllocator MockAllocator A) = allocate A" "deallocate (FallbackAllocator MockAllocator A) = deallocate A"
  "owns (FallbackAllocator MockAllocator A) = owns A"
  by (simp_all add: FallbackAllocator_def MockAllocator_def fallback_allocate_def fallback_deallocate_def null_blk_def fun_eq_iff)

interpretation fb: block_allocator "FallbackAllocator MockAllocator (Mallocator (allocNPages True))" "heap_holds mapped_bytes vmm_inv"
  "heap_can vmm_ready"
  by (unfold_locales, unfold fallback_mock)
    (rule ml.allocate_zero | (rule ml.allocate_fresh ml.deallocate_block ml.owns_block ml.holds_range ml.holds_disjoint; assumption))+

section \<open>Properties\<close>

text \<open>
  C19: ownership in the kernel, for elements that own no heap memory themselves: for a type of elements whose constructor and destructor end and leave the
  ownership of heap blocks alone (\<open>elem_ok\<close>), whatever a scope does with pointers to single objects and to arrays (creation as long as the heap can
  serve it, move construction, move assignment also to itself, release, reset, destruction), started with the heap blocks \<open>L\<close> in use elsewhere, every heap block
  in use is owned by exactly one pointer or was given away, the memory of two pointers is disjoint, and the end of the scope returns, after which the
  blocks given away and \<open>L\<close> are all that is in use: no block of the pointers is leaked and none is freed twice. Blocks that elements of an array own are outside of this
  property: \<open>reset\<close> of an array runs the destructor on its first element only.
\<close>

theorem unique_ptr_ownership:
  assumes "elem_ok (heap_holds mapped_bytes vmm_inv) T" "heap_holds mapped_bytes vmm_inv s L"
    "(scope_step (Mallocator (allocNPages True)) T (heap_can vmm_ready))\<^sup>*\<^sup>* \<lparr>vars = [], raws = L, world = s\<rparr> sc"
  shows "heap_holds mapped_bytes vmm_inv (world sc) (owned_vars T (vars sc) + raws sc) \<and>
    (\<forall>j<length (vars sc). \<forall>i<j. \<forall>b\<in>#owned_blk (var_blk T (vars sc ! i)). \<forall>c\<in>#owned_blk (var_blk T (vars sc ! j)).
      blk_bytes b \<inter> blk_bytes c = {}) \<and>
    (\<exists>s'. destroy_all (Mallocator (allocNPages True)) T (vars sc) (world sc) = Some s' \<and> heap_holds mapped_bytes vmm_inv s' (raws sc))"
proof -
  have "scope_ok (heap_holds mapped_bytes vmm_inv) T \<lparr>vars = [], raws = L, world = s\<rparr>" using assms(2) by (simp add: scope_ok_def)
  from ml.scope_run_ok [OF assms(3,1) this] have ok: "scope_ok (heap_holds mapped_bytes vmm_inv) T sc" .
  then have h: "heap_holds mapped_bytes vmm_inv (world sc) (owned_vars T (vars sc) + raws sc)" by (simp add: scope_ok_def)
  show ?thesis using h ml.destroy_all_ok [OF assms(1) h] ml.scope_disjoint [OF ok] by blast
qed

text \<open>A pointer to eight bytes is created, and another one is constructed from it.\<close>

definition demo_elem :: "(VMM \<times> FreeList) Elem" where
  "demo_elem = \<lparr>sizeofT = 8, ctor = \<lambda>p s. Some s, dtor = \<lambda>p s. Some s\<rparr>"

definition demo_heap :: FreeList where
  "demo_heap = \<lparr>hmem = \<lambda>_. 0, head = 0\<rparr>"

theorem unique_ptr_ownership_witness:
  "\<exists>sc s'. (scope_step (Mallocator (allocNPages True)) demo_elem (heap_can vmm_ready))\<^sup>*\<^sup>*
      \<lparr>vars = [], raws = {#}, world = (demo_vmm, demo_heap)\<rparr> sc \<and> length (vars sc) = 2 \<and> size (owned_vars demo_elem (vars sc)) = 1 \<and>
    destroy_all (Mallocator (allocNPages True)) demo_elem (vars sc) (world sc) = Some s' \<and> heap_holds mapped_bytes vmm_inv s' {#}"
proof -
  let ?step = "scope_step (Mallocator (allocNPages True)) demo_elem (heap_can vmm_ready)"
  let ?sc = "\<lparr>vars = [], raws = {#}, world = (demo_vmm, demo_heap)\<rparr>"
  have e: "elem_ok (heap_holds mapped_bytes vmm_inv) demo_elem" by (simp add: elem_ok_def demo_elem_def)
  have "vmm_inv demo_vmm" using demo_vmm_ok demo_phys by (simp add: vmm_inv_def)
  moreover have "heap_ok demo_heap [] []" by (simp add: heap_ok_def heap_inv_def demo_heap_def)
  ultimately have h: "heap_holds mapped_bytes vmm_inv (demo_vmm, demo_heap) {#}" by (auto simp: heap_holds_def bytes_of_def)
  have "nat (reqPages 8) = 1" using reqPages_eq(1) [of 8] by simp
  moreover have "availablePagesHH demo_vmm = 511" by (simp add: demo_vmm_def)
  then have "vmm_ready 1 demo_vmm"
    unfolding vmm_ready_def using demo_phys(3) demo_run [of 2 1] by (intro conjI exI [of _ "2 ^ 35 + 2"]) simp_all
  ultimately have c: "heap_can vmm_ready (sizeofT demo_elem) (demo_vmm, demo_heap)" by (simp add: heap_can_def demo_elem_def)
  obtain u s1 where m: "makeUnique (Mallocator (allocNPages True)) demo_elem (demo_vmm, demo_heap) = Some (u, s1)" "ptr (data u) \<noteq> 0"
    using ml.makeUnique_ok [OF e h c] by blast
  define s2 where "s2 = \<lparr>vars = [snd (var_move (Single u)), fst (var_move (Single u))], raws = {#}, world = s1\<rparr>"
  have "?step ?sc (?sc\<lparr>vars := vars ?sc @ [Single u], world := s1\<rparr>)" using c m by (intro scope_step.make) auto
  moreover have "?step \<lparr>vars = [Single u], raws = {#}, world = s1\<rparr> s2"
    using scope_step.move_new [where A = "Mallocator (allocNPages True)" and T = demo_elem and can = "heap_can vmm_ready", of 0 "\<lparr>vars = [Single u], raws = {#}, world = s1\<rparr>" "fst (var_move (Single u))" "snd (var_move (Single u))"]
    by (simp add: s2_def prod_eq_iff)
  ultimately have st: "?step\<^sup>*\<^sup>* ?sc s2" by auto
  have "owned_vars demo_elem (vars s2) = {#\<lparr>ptr = ptr (data u), bsize = 8\<rparr>#}"
    using m(2) by (simp add: s2_def up_move_def up_release_def owned_blk_def demo_elem_def)
  then have "size (owned_vars demo_elem (vars s2)) = 1" by (simp only: size_single)
  moreover have "length (vars s2) = 2" "raws s2 = {#}" by (simp_all add: s2_def)
  ultimately show ?thesis using unique_ptr_ownership [OF e h st] st by (simp only:) blast
qed

fun each :: "('a \<Rightarrow> 's \<Rightarrow> 's option) \<Rightarrow> 'a list \<Rightarrow> 's \<Rightarrow> 's option" where
  "each f [] s = Some s"
| "each f (x # xs) s = do { s \<leftarrow> f x s; each f xs s }"

lemma construct_each: "construct T p i n = each (ctor T) (map (\<lambda>k. p + of_nat k * sizeofT T) [i..<i + n])"
proof (induction n arbitrary: i)
  case (Suc n)
  have "[i..<i + Suc n] = i # [Suc i..<Suc i + n]" by (simp add: upt_conv_Cons)
  then show ?case using Suc.IH [of "Suc i"] by (intro ext) (simp only: construct.simps list.map each.simps)
qed (simp add: fun_eq_iff)

lemma repeat_dtor_each: "repeat_dtor T n p = each (dtor T) (replicate n p)"
proof (induction n)
  case (Suc n)
  show ?case by (intro ext) (simp only: repeat_dtor.simps replicate.simps each.simps Suc.IH)
qed (simp add: fun_eq_iff)

lemma array_len_small:
  assumes "bsize b = sizeofT T * cnt" "unat cnt < 2 ^ 31" "unat (sizeofT T) * unat cnt < 2 ^ 64" "0 < sizeofT T"
  shows "nat (array_len T b) = unat cnt"
proof -
  have "unat (sizeofT T * cnt) = unat (sizeofT T) * unat cnt" using assms(3) by (simp add: unat_word_ariths)
  then have "unat (sizeofT T * cnt div sizeofT T) = unat cnt" using assms(4) by (simp add: unat_div word_less_nat_alt)
  then have "sizeofT T * cnt div sizeofT T = cnt" by (simp only: word_unat_eq_iff)
  moreover have "sint (ucast cnt :: u32) = int (unat cnt)"
    using assms(2) by (subst sint_u32_small) (simp_all add: unsigned_ucast_eq take_bit_nat_eq_self)
  ultimately show ?thesis by (simp add: array_len_def assms(1))
qed

text \<open>
  C32: arrays are not destroyed the way they are constructed: creating a pointer to \<open>cnt\<close> elements constructs the elements at
  their own addresses, in order, but resetting the pointer calls the destructor \<open>cnt\<close> times on the first element and on no other, before it gives the block back.
\<close>

theorem array_reset_first_element:
  assumes "makeUniqueArray (Mallocator pages) T cnt s = Some (u, s1)"
    "0 < cnt" "unat cnt < 2 ^ 31" "0 < sizeofT T" "unat (sizeofT T) * unat cnt < 2 ^ 64"
  shows "\<exists>b s0. mallocator_allocate pages (sizeofT T * cnt) s = Some (b, s0) \<and> bsize b = sizeofT T * cnt \<and>
    each (ctor T) (map (\<lambda>i. ptr b + of_nat i * sizeofT T) [0..<unat cnt]) s0 = Some s1 \<and>
    (\<forall>t. ua_reset (Mallocator pages) T null_blk u t = do {
       t \<leftarrow> each (dtor T) (replicate (unat cnt) (ptr b)) t;
       t \<leftarrow> mallocator_deallocate b t;
       Some (up_new, t) })"
proof -
  obtain b s0 where b: "mallocator_allocate pages (sizeofT T * cnt) s = Some (b, s0)" "ptr b \<noteq> 0"
      "construct T (ptr b) 0 (unat cnt) s0 = Some s1" "u = \<lparr>data = b\<rparr>"
    using assms(1,2) by (auto simp: makeUniqueArray_def bind_eq_Some_conv split: if_splits)
  have z: "bsize b = sizeofT T * cnt" using b(1,2) by (auto simp: mallocator_allocate_def bind_eq_Some_conv split: if_splits)
  have "ua_reset (Mallocator pages) T null_blk u t = do {
       t \<leftarrow> each (dtor T) (replicate (unat cnt) (ptr b)) t; t \<leftarrow> mallocator_deallocate b t; Some (up_new, t) }" for t
    using b(2) array_len_small [OF z assms(3,5,4)] by (simp add: ua_reset_def b(4) repeat_dtor_each up_new_def)
  then show ?thesis using b(1,3) z construct_each [of T "ptr b" 0 "unat cnt"] by auto
qed

text \<open>Two elements of eight bytes whose destructor records the address: the second one, at 4120, is never destroyed.\<close>

definition traced_elem :: "(u64 list \<times> FreeList) Elem" where
  "traced_elem = \<lparr>sizeofT = 8, ctor = \<lambda>p s. Some s, dtor = \<lambda>p s. Some (fst s @ [p], snd s)\<rparr>"

theorem array_reset_first_element_witness:
  "\<exists>u s1 t. makeUniqueArray (Mallocator (\<lambda>_ _. None)) traced_elem 2 ([], page_heap) = Some (u, s1) \<and> ua_index traced_elem u 1 = 4120 \<and>
    ua_reset (Mallocator (\<lambda>_ _. None)) traced_elem null_blk u s1 = Some (up_new, t) \<and> fst t = [4112, 4112]"
proof -
  have s: "sizeofT traced_elem = 8" "sizeofT traced_elem * 2 = 16" by (simp_all add: traced_elem_def)
  obtain p h where k: "heap_alloc (\<lambda>_ _. None) 16 ([] :: u64 list) page_heap = Some (p, [], h)" "unat p = 4112" "heap_ok h [(4128, 4048)] [(4096, 16)]"
    using heap_alloc_fit [OF page_heap_ok, of 16 _ "\<lambda>_ _. None" "[]"] by (auto simp: replace_block_def rest_of_def taken_of_def)
  have p: "p = 4112" using k(2) by (simp add: word_unat_eq_iff)
  have m: "makeUniqueArray (Mallocator (\<lambda>_ _. None)) traced_elem 2 ([], page_heap) = Some (\<lparr>data = \<lparr>ptr = p, bsize = 16\<rparr>\<rparr>, ([], h))"
    using k(1) by (simp add: makeUniqueArray_def mallocator_allocate_def kmalloc_def s(2) p) (simp add: traced_elem_def numeral_2_eq_2)
  obtain h' where f: "kfree 4112 h = Some h'" using heap_free_spec [OF k(3), of 4112] by (auto simp: kfree_def)
  have q: "0 < (2 :: u64)" "unat (2 :: u64) < 2 ^ 31" "0 < sizeofT traced_elem" "unat (sizeofT traced_elem) * unat (2 :: u64) < 2 ^ 64"
    by (simp_all add: s(1))
  obtain b s0 where b: "mallocator_allocate (\<lambda>_ _. None) 16 ([] :: u64 list, page_heap) = Some (b, s0)"
    "ua_reset (Mallocator (\<lambda>_ _. None)) traced_elem null_blk \<lparr>data = \<lparr>ptr = p, bsize = 16\<rparr>\<rparr> ([], h) = do {
       t \<leftarrow> each (dtor traced_elem) (replicate (unat (2 :: u64)) (ptr b)) ([], h); t \<leftarrow> mallocator_deallocate b t; Some (up_new, t) }"
    using array_reset_first_element [OF m q] unfolding s(2) by blast
  have "b = \<lparr>ptr = 4112, bsize = 16\<rparr>" using b(1) k(1) p by (simp add: mallocator_allocate_def kmalloc_def)
  moreover have "replicate (unat (2 :: u64)) 4112 = [4112, 4112 :: u64]" by code_simp
  then have "each (dtor traced_elem) (replicate (unat (2 :: u64)) 4112) ([], h) = Some ([4112, 4112], h)" by (simp only:) (simp add: traced_elem_def)
  ultimately have "ua_reset (Mallocator (\<lambda>_ _. None)) traced_elem null_blk \<lparr>data = \<lparr>ptr = p, bsize = 16\<rparr>\<rparr> ([], h) = Some (up_new, ([4112, 4112], h'))"
    unfolding b(2) using f by (simp add: mallocator_deallocate_def)
  then show ?thesis using m p by (auto simp: ua_index_def s(1))
qed

end
