(* ===== verification/Spec2Isabelle.thy ===== *)
theory Spec2Isabelle
  imports Phys_Mem Cpp_String Mutex Keyboard Interrupts Libc Semaphores Boot Smart_Ptr
begin

text \<open>
  A verification development for DimOS, an x86-64 operating system kernel in C++ (directory \<open>src/\<close>): memory
  management, threads and locks, device drivers, a RAM disk with a virtual file system, and a shell on top.

  \<^bold>\<open>Parts and how they interact.\<close> The boot loader's memory map initialises the physical memory manager, which
  keeps a bitmap of 4 KiB frames. The virtual memory manager maps pages to such frames in four levels of tables. The kernel heap
  gets pages from it and serves \<open>kmalloc\<close> and \<open>kfree\<close>, on which \<open>Vector\<close> and \<open>String\<close> rest. Interrupts enter through the
  descriptor tables, are dispatched to registered handlers and acknowledged at the interrupt controllers; the timer handler is
  the scheduler, the keyboard handler decodes scan codes. Threads synchronise with \<open>MutexLock\<close>, condition variables and semaphores. Files
  live on a RAM disk below the virtual file system, which resolves paths; the frame buffer is a second file system of it. The keyboard
  handler stores keys in the standard input file of a thread; the shell reads lines from it, runs the command and copies its standard
  output to the console.

  \<^bold>\<open>Theories.\<close>
  \<^item> \<open>Dimos_Prelude\<close>: machine integers, bits of words, counted loops, shared lemma collections.
  \<^item> \<open>Phys_Mem\<close> (\<open>memory/pmm.cpp\<close>, \<open>pmm.h\<close>): the record \<open>PMM\<close> with its bitmap; \<open>pmm_inv\<close>; \<open>allocFrame\<close>, \<open>freeFrame\<close>
    and \<open>allocNFrames\<close> refine an allocator over the set of free frames (locale \<open>frame_allocator\<close>, interpretation \<open>pmm\<close>);
    \<open>pmm_init\<close> establishes the invariant, and its effect on every bit for maps with memory above the size it is given.
  \<^item> \<open>Paging\<close> (\<open>memory/paging.h\<close>, index arithmetic of \<open>vmm.h\<close>): entries, tables with their level, and the round trip between
    virtual addresses and table indices.
  \<^item> \<open>Byte_Memory\<close>, \<open>Free_List\<close> (\<open>memory/heap.cpp\<close>, \<open>heap.h\<close>, \<open>kheap.cpp\<close>): the free list in byte-addressed memory with
    its headers; \<open>heap_ok\<close> relates the memory to the lists of free and live blocks; best fit, splitting, coalescing, growth.
  \<^item> \<open>Cpp_Vector\<close>, \<open>Cpp_String\<close>, \<open>Bitset\<close> (\<open>cpp/vector.hpp\<close>, \<open>string.hpp\<close>, \<open>utility.hpp\<close>, \<open>bitset.hpp\<close>): containers
    against the lists they represent (locale \<open>stack_seq\<close>, interpretation \<open>vec\<close>).
  \<^item> \<open>Scheduler\<close> (\<open>process/scheduler.h\<close>, \<open>kthread.h\<close>, \<open>kthread.cpp\<close>, \<open>kthread.S\<close>): threads, the round-robin choice,
    the step relation \<open>kstep\<close> with its invariant, and the register contents a thread gets back.
  \<^item> \<open>Mutex\<close> (\<open>concurrency/primitives.cpp\<close>): \<open>MutexLock\<close> one atomic action at a time under every interleaving of threads.
  \<^item> \<open>Pic\<close>, \<open>Interrupts\<close> (\<open>devices/pic.cpp\<close>, \<open>pit.cpp\<close>, \<open>isr.cpp\<close>, \<open>descriptor_tables.cpp\<close>, \<open>x64.h\<close>): port I/O as an
    argument, the 8259 drivers against the documented behaviour of the chip, dispatch, descriptor tables.
  \<^item> \<open>Keyboard\<close> (\<open>devices/keyboard.cpp\<close>, \<open>keyboard.h\<close>): scan code decoding, modifiers, translation to ASCII,
    against a layout of the keyboard written down row by row, up to scan code \<open>0x49\<close> (behind it the table of the code and its comments differ).
  \<^item> \<open>Ram_Disk\<close>, \<open>Disk_Files\<close> (\<open>filesystem/ramdisk.cpp\<close>, \<open>ramdisk.h\<close>, \<open>createRamdisk\<close> of \<open>terminal.hpp\<close>): the disk image as
    bytes; \<open>disk_inv\<close>; the file operations in terms of the contents of files. These theorems, and those on descriptors and the shell that
    rest on them, are contracts for a disk on which \<open>disk_inv\<close> holds; the disk that \<open>createRamdisk\<close> hands to \<open>kernel_main\<close> is not one of
    them, since the block of its root directory is not marked as used (\<open>createRamdisk_shares_root\<close>).
  \<^item> \<open>Vfs\<close>, \<open>Vfs_Tree\<close> (\<open>filesystem/vfs.cpp\<close>, \<open>vfs.h\<close>): the node tree and path resolution over an interface of file systems
    (locale \<open>file_systems\<close>, interpretation \<open>rd\<close> by the RAM disk).
  \<^item> \<open>Vmm\<close>, \<open>Vmm_Search\<close>, \<open>Vmm_Alloc\<close> (\<open>memory/vmm.cpp\<close>, \<open>vmm.h\<close>): page tables as a map from table addresses, the search for
    vacant pages, the three ways of making a missing table, allocation, release and start-up, against the map from pages to frames.
  \<^item> \<open>Heap_Pages\<close>: the heap over the pages it gets (locale \<open>page_source\<close>, interpretation \<open>vm\<close> by the virtual memory manager).
  \<^item> \<open>Smart_Ptr\<close> (\<open>cpp/allocator.hpp\<close>, \<open>cpp/unique-ptr.hpp\<close>): allocators (locale \<open>block_allocator\<close>, interpretations \<open>ml\<close> by
    \<open>Mallocator\<close> over the heap and the pages, and \<open>fb\<close> by \<open>FallbackAllocator\<close>), \<open>UniquePtr\<close>, and the ownership of blocks in a scope,
    for elements that own no heap memory (\<open>elem_ok\<close>).
  \<^item> \<open>Libc\<close> (\<open>libc/string\<close>, \<open>libc/stdio\<close>): the memory and string functions on byte memory, \<open>printf\<close> with its conversions,
    against numerals that are defined by what they denote.
  \<^item> \<open>Semaphores\<close> (\<open>concurrency/primitives.cpp\<close>): \<open>ConditionVariable\<close> and \<open>Sempahore\<close> over the steps of \<open>Mutex\<close>.
  \<^item> \<open>Frame_Buffer\<close> (\<open>devices/framebuffer.cpp\<close>, \<open>gfx/fb.cpp\<close>): the frame buffer as a file system, drawing against the pixels at the pitch of the
    screen (which the code leaves out, so only screens without padding are drawn correctly), and the table of the
    kernel's two file systems (interpretation \<open>dv\<close> of \<open>file_systems\<close>).
  \<^item> \<open>File_Desc\<close> (\<open>process/kthread.h\<close>, \<open>kthread.cpp\<close>, the key callback of \<open>kernel.cpp\<close>): file descriptors with their two
    offsets, standard input and output of a thread, keys stored by the keyboard interrupt; a descriptor is a queue of bytes, and
    operations on files that lie apart do not disturb each other (locale \<open>isolated_files\<close>, interpretation \<open>dv\<close>).
  \<^item> \<open>Snake\<close>, \<open>Terminal\<close> (\<open>demo/binaries.hpp\<close>, \<open>demo/terminal.hpp\<close>): the shell with line input, every command and the
    copy of standard output to the console, and the game; the line against the strokes that were typed.
  \<^item> \<open>Boot\<close> (\<open>kernel/kernel.cpp\<close>): the memory map of the boot loader and the start of the parts in the order of \<open>kernel_main\<close>;
    of the map only what the boot protocol documents is assumed (\<open>limine_map\<close>).
  \<^item> \<open>Spec2Isabelle\<close>: the path from scan codes over standard input and the shell to the console (\<open>typed_command\<close>), and the
    end of it when standard input is full (\<open>stdin_fills_up\<close>).
  \<^bold>\<open>State, errors and loops.\<close> A C++ object is a record that the operations take and return. Undefined behaviour (a null or dangling
  pointer, an index outside an array) and a panic are \<^const>\<open>None\<close>, or \<^const>\<open>Inl\<close> where the output before a panic matters.
  Loops are structural recursion or functions with a termination measure. Loops that may run for ever are partial functions with
  \<^const>\<open>None\<close> for a run that never ends (the wait for the keyboard controller, the search through the page tables, the mapping loops
  of start-up, the scans of C strings and formats, the loops of the shell and the game) or step relations (the spin locks); where such a loop ends, that it returns
  is part of the theorem. The wait of the shell for a key is there twice: as a partial function, while no interrupt comes (\<open>getch_wait\<close>), and with the
  keyboard interrupts that come in each of its first rounds, where waiting and returning are different results and a fault is \<^const>\<open>None\<close> (\<open>getch_spin\<close>). No fuel is used.
  What the code relies on outside of \<open>src/\<close> is an argument with a named hypothesis: the port instructions and the 8259 chips
  (\<open>pic_chips\<close>), the code behind an interrupt handler's address, the addresses the linker assigns, and the uninitialised bytes of a
  structure.

  \<^bold>\<open>What the theorems show.\<close> The properties carry the identifiers C1 to C40 in the theories; they state the functional behaviour
  and invariants above, and, where the code does not do what it means to, exactly what it does instead (for example
  \<open>mutex_handover_deadlock\<close>, \<open>semaphore_overrun\<close>, \<open>createRamdisk_shares_root\<close>).

  \<^bold>\<open>Not modelled.\<close> Iterators and type traits (iterators are pointers into the list a vector represents, traits have no run-time behaviour), the
  assembly stubs except for the register moves of a context switch, the boot loader's protocol header \<open>limine.h\<close> but for the memory
  map entry, the banner that \<open>Terminal::run\<close> prints first, and \<open>demo_stack_smashing\<close>, which is never called. The sizes of vectors and strings are natural numbers, the \<open>int\<close> size of a disk does
  not overflow, and the argument of \<open>push_back\<close> does not refer into the vector itself. Of \<open>kernel_main\<close> the order of
  the calls is modelled, and its theorem is about the memory it sets up.
\<close>

section \<open>From the keyboard to the console\<close>

text \<open>The translation of a key depends on the two modifiers only.\<close>

lemma stroke_cong:
  assumes "shift kb = shift kb'" "capsLock kb = capsLock kb'"
  shows "stroke kb = stroke kb'"
proof -
  have "keyCodeToASCII kb = keyCodeToASCII kb'" by (rule ext) (simp only: keyCodeToASCII_def assms)
  then show ?thesis by (simp add: stroke_def fun_eq_iff)
qed

lemma key_of_byte_int32: "key_of_byte b = Some k \<Longrightarrow> in_table b \<Longrightarrow> is_int32 k"
proof -
  assume k: "key_of_byte b = Some k" "in_table b"
  have "list_all is_int32 scancodeToKeyCode" by (simp add: scancodeToKeyCode_def is_int32_def)
  then have "\<forall>n<83. is_int32 (scancodeToKeyCode ! n)" by (simp add: list_all_length)
  then show ?thesis using k by (auto simp: key_of_byte_def in_table_def split: if_splits)
qed

lemma typed_keys_int32: "List.map_filter key_of_byte bs = ks \<Longrightarrow> list_all in_table bs \<Longrightarrow> list_all is_int32 ks"
  by (induction bs arbitrary: ks) (auto simp: map_filter_simps key_of_byte_int32 split: option.splits)



text \<open>
  C18: standard input fills up and is never emptied: once its file has no room left, which for a file of the RAM disk is the case after
  5120 bytes or 1280 keys at the latest, and the keys before are read, a wait for a key has no end. After any number of rounds of the loop of \<open>getch\<close>, and whatever
  scan codes interrupt them (codes that the driver's table has), every interrupt has returned, the keys are lost (the file and what is left to read of it are as before), and the
  loop is still waiting: the test of its condition is false, no fault and no result. With no more interrupts \<open>getch\<close>, \<open>readLine\<close> and the round of the terminal do not return.
\<close>

theorem stdin_fills_up:
  assumes "stdin_at pr p nd q" "vfileSystem nd \<noteq> Some 2"
    "devs_space (fstate (vfs pr)) nd = length (devs_content (fstate (vfs pr)) nd)" "length q < 4"
    "scancode kb = 0" "list_all (list_all in_table) bss"
  shows "length (devs_content (fstate (vfs pr)) nd) \<le> 5120 \<and>
    (\<exists>kb' pr' nd'. getch_spin devs bss kb pr = Some (Waiting kb' pr') \<and>
      stdin_at pr' p nd' q \<and> devs_content (fstate (vfs pr')) nd' = devs_content (fstate (vfs pr)) nd \<and> can_read 0 4 pr' = Some False \<and>
      getch devs pr' = None \<and> readLine devs kb' pr' = None \<and> run_round devs junk username kb' currDir pr' = None)"
proof -
  obtain kb' pr' nd' where w: "getch_spin devs bss kb pr = Some (Waiting kb' pr')" "stdin_at pr' p nd' q"
      "devs_content (fstate (vfs pr')) nd' = devs_content (fstate (vfs pr)) nd"
    using dv.getch_spin_full [OF assms(1,3-6)] by blast
  note g = dv.getch_waits [OF w(2) assms(4)]
  have "readLine_loop devs kb' st pr' = None" for st using g(2) by (subst readLine_loop.simps) simp
  then have r: "readLine devs kb' pr' = None" by (simp add: readLine_def)
  then have "run_round devs junk username kb' currDir pr' = None" by (simp add: run_round_def)
  moreover have "devs_space (fstate (vfs pr)) nd \<le> 5120" using assms(2) room_bounds(2) by (simp add: devs_space_def)
  ultimately show ?thesis using w g r assms(3) by auto
qed

text \<open>A disk with a single block, which standard input has filled.\<close>

definition full_disk :: RamDisk where
  "full_disk = \<lparr>deviceID = 1, super = \<lparr>iNodeCnt = 1, dataBitsetSize = 1, blockCnt = 1\<rparr>,
     nodes = [\<lparr>inode = 0, ntype = FILE, blocksInUse = 1, nsize = 512, dataBlocks = Some 0 # replicate 9 None\<rparr>], store = 1 # replicate 512 7\<rparr>"

definition full_file :: VNode where
  "full_file = demo_file\<lparr>resource := \<lparr>rinode = 0, rsize = 512, rdeviceID = 1\<rparr>\<rparr>"

definition full_proc :: "Devices Proc" where
  "full_proc = \<lparr>vfs = \<lparr>root = 0, heap = [Some full_file], fstate = \<lparr>disk = full_disk, fbdev = demo_fb\<rparr>\<rparr>,
     fileDescriptors = [\<lparr>readOffset = 512, writeOffset = 512, fileNode = Some 0\<rparr>]\<rparr>"

lemma full_disk_facts: "disk_inv full_disk" "valid full_disk 0" "length (contents full_disk 0) = 512" "room full_disk 0 = 512"
proof -
  have v: "valid full_disk n \<longleftrightarrow> n = 0" for n by (auto simp: valid_def full_disk_def)
  have t: "testBlock 0 full_disk" by (simp add: testBlock_bit full_disk_def bit_simps)
  have h: "holds full_disk 0 i b \<longleftrightarrow> i = 0 \<and> b = 0" for i b by (auto simp: holds_def full_disk_def)
  have "geometry full_disk" by (auto simp: geometry_def full_disk_def)
  moreover have "node_ok full_disk 0" using t by (auto simp: node_ok_def full_disk_def)
  moreover have "unshared full_disk" by (simp add: unshared_def v h)
  ultimately show i: "disk_inv full_disk" by (simp add: disk_inv_def v)
  show w: "valid full_disk 0" by (simp add: v)
  show "length (contents full_disk 0) = 512" using length_contents [OF i w] by (simp add: full_disk_def)
  have "freeCnt full_disk = 0" using t by (simp add: freeCnt_def) (simp add: full_disk_def)
  then show "room full_disk 0 = 512" by (simp add: room_def) (simp add: full_disk_def)
qed

theorem stdin_fills_up_witness:
  "\<exists>kb' pr' nd'. getch_spin devs [[0x1e, 0x9e], [], [0x1c]] new_Keyboard full_proc = Some (Waiting kb' pr') \<and> stdin_at pr' 0 nd' [] \<and>
    run_round devs [] ''u'' kb' [] pr' = None"
proof -
  note d = full_disk_facts
  have f: "vfileSystem full_file = Some 1" "rinode (resource full_file) = 0" "rsize (resource full_file) = 512"
    by (simp_all add: full_file_def demo_file_def)
  have g: "fstate (vfs full_proc) = \<lparr>disk = full_disk, fbdev = demo_fb\<rparr>" by (simp add: full_proc_def)
  have c: "length (devs_content (fstate (vfs full_proc)) full_file) = 512" "devs_space (fstate (vfs full_proc)) full_file = 512"
    using d(3,4) by (simp_all add: g devs_content_def devs_space_def f)
  have i: "devs_inv (fstate (vfs full_proc))" "devs_ok (fstate (vfs full_proc)) full_file" "deref 0 (vfs full_proc) = Some full_file"
    using d(1,2) by (simp_all add: g devs_inv_def fb_ok_def demo_fb_def devs_ok_def disk_ok_def f) (simp add: deref_def full_proc_def)
  then have a: "stdin_at full_proc 0 full_file []" using c f by (simp add: fd_at_def) (simp add: full_proc_def)
  have n: "vfileSystem full_file \<noteq> Some 2" "length ([] :: u8 list) < 4" "scancode new_Keyboard = 0" using f by (simp_all add: new_Keyboard_def)
  have s: "devs_space (fstate (vfs full_proc)) full_file = length (devs_content (fstate (vfs full_proc)) full_file)" using c by simp
  have t: "list_all (list_all in_table) [[0x1e, 0x9e], [], [0x1c]]" by (simp add: in_table_def)
  show ?thesis using stdin_fills_up [OF a n(1) s n(2,3) t, of "[]" "''u''" "[]"] by blast
qed

end
